(* ===== verification/Go_Prelude.thy ===== *)
theory Go_Prelude
  imports Main "HOL-Library.Word" "HOL-Library.Monad_Syntax" "HOL-Library.Multiset"
    "HOL-Library.Signed_Division"
begin

text \<open>
  What every component theory shares: the Go types the source uses as HOL types, run-time
  panics as \<^term>\<open>None\<close>, the slice and index expressions of the language with their bounds
  checks, and the generic lemmas on lists, options and words that carry the component proofs.

  \<^item> \<open>byte\<close> is an 8-bit word and a Go \<open>string\<close> or \<open>[]byte\<close> is a list of bytes;
  \<^item> \<open>int\<close> of the 386 port is 32 bits wide, \<open>int64\<close> is 64 bits wide: both are HOL integers, brought
    back into range by \<open>int32\<close> and \<open>int64\<close> wherever an operation can leave it;
  \<^item> \<open>/\<close> and \<open>%\<close> truncate towards zero: they are \<open>sdiv\<close> and \<open>smod\<close>;
  \<^item> a function that can panic has an \<open>option\<close> result, and \<^term>\<open>None\<close> is the panic.
\<close>

unbundle bit_operations_syntax

type_synonym byte = "8 word"
type_synonym gostring = "byte list"

named_theorems go_simps \<open>unfolding rules of the Go expressions\<close>
named_theorems go_bounds \<open>facts that an index or a width is in range\<close>

section \<open>Integers\<close>

definition int32 :: "int \<Rightarrow> int" where
  "int32 x = signed_take_bit 31 x"

definition int64 :: "int \<Rightarrow> int" where
  "int64 x = signed_take_bit 63 x"

definition is_int32 :: "int \<Rightarrow> bool" where
  "is_int32 x \<longleftrightarrow> - (2 ^ 31) \<le> x \<and> x < 2 ^ 31"

definition is_int64 :: "int \<Rightarrow> bool" where
  "is_int64 x \<longleftrightarrow> - (2 ^ 63) \<le> x \<and> x < 2 ^ 63"

lemma int32_id [simp]: "is_int32 x \<Longrightarrow> int32 x = x"
  by (auto simp: int32_def is_int32_def signed_take_bit_int_eq_self)

lemma int64_id [simp]: "is_int64 x \<Longrightarrow> int64 x = x"
  by (auto simp: int64_def is_int64_def signed_take_bit_int_eq_self)

lemma is_int32_int32 [simp]: "is_int32 (int32 x)"
  using signed_take_bit_int_greater_eq_minus_exp [of 31 x] signed_take_bit_int_less_exp [of 31 x]
  by (simp add: int32_def is_int32_def)

lemma int32_mod: "int32 x = (x + 2 ^ 31) mod 2 ^ 32 - 2 ^ 31"
  by (simp add: int32_def signed_take_bit_eq_take_bit_shift take_bit_eq_mod)

lemma int64_mod: "int64 x = (x + 2 ^ 63) mod 2 ^ 64 - 2 ^ 63"
  by (simp add: int64_def signed_take_bit_eq_take_bit_shift take_bit_eq_mod)

lemma int64_wrap: "2 ^ 63 \<le> x \<Longrightarrow> x < 2 ^ 63 + 2 ^ 64 \<Longrightarrow> int64 x = x - 2 ^ 64"
proof -
  assume x: "2 ^ 63 \<le> x" "x < 2 ^ 63 + 2 ^ 64"
  have "(x + 2 ^ 63) mod 2 ^ 64 = (x + 2 ^ 63 - 2 ^ 64) mod 2 ^ 64"
    by (simp only: minus_mod_self2)
  also have "\<dots> = x + 2 ^ 63 - 2 ^ 64" by (rule mod_pos_pos_trivial) (use x in simp_all)
  finally show ?thesis by (simp add: int64_mod)
qed

lemma is_int64_int64 [simp]: "is_int64 (int64 x)"
  using signed_take_bit_int_greater_eq_minus_exp [of 63 x] signed_take_bit_int_less_exp [of 63 x]
  by (simp add: int64_def is_int64_def)

section \<open>Indexing and slicing\<close>

definition go_index :: "'a list \<Rightarrow> int \<Rightarrow> 'a option" where
  "go_index xs i = (if 0 \<le> i \<and> i < int (length xs) then Some (xs ! nat i) else None)"

definition go_set :: "'a list \<Rightarrow> int \<Rightarrow> 'a \<Rightarrow> 'a list option" where
  "go_set xs i v = (if 0 \<le> i \<and> i < int (length xs) then Some (xs[nat i := v]) else None)"

definition go_slice :: "'a list \<Rightarrow> int \<Rightarrow> int \<Rightarrow> 'a list option" where
  "go_slice xs i j =
     (if 0 \<le> i \<and> i \<le> j \<and> j \<le> int (length xs) then Some (take (nat j - nat i) (drop (nat i) xs))
      else None)"

lemma go_index_last: "xs \<noteq> [] \<Longrightarrow> go_index xs (int (length xs) - 1) = Some (last xs)"
  by (cases xs rule: rev_cases) (auto simp: go_index_def nth_append)

definition slice :: "nat \<Rightarrow> nat \<Rightarrow> 'a list \<Rightarrow> 'a list" where
  "slice i j xs = take (j - i) (drop i xs)"

lemma length_slice [simp]: "j \<le> length xs \<Longrightarrow> length (slice i j xs) = j - i"
  by (simp add: slice_def)

lemma nth_slice [simp]: "k < j - i \<Longrightarrow> j \<le> length xs \<Longrightarrow> slice i j xs ! k = xs ! (i + k)"
  by (simp add: slice_def)

lemma take_slice_drop: "i \<le> j \<Longrightarrow> take i xs @ slice i j xs @ drop j xs = xs"
  by (simp add: slice_def) (metis append_take_drop_id drop_drop le_add_diff_inverse2)

lemma set_slice: "j \<le> length xs \<Longrightarrow> set (slice i j xs) = {xs ! k |k. i \<le> k \<and> k < j}"
proof (intro set_eqI iffI)
  fix x assume j: "j \<le> length xs" and "x \<in> set (slice i j xs)"
  then obtain k where "k < j - i" and "x = xs ! (i + k)"
    by (auto simp: in_set_conv_nth)
  then have "i \<le> i + k \<and> i + k < j" by simp
  with \<open>x = xs ! (i + k)\<close> show "x \<in> {xs ! k |k. i \<le> k \<and> k < j}" by blast
next
  fix x assume j: "j \<le> length xs" and "x \<in> {xs ! k |k. i \<le> k \<and> k < j}"
  then obtain k where k: "i \<le> k" "k < j" and x: "x = xs ! k" by blast
  then have "x = slice i j xs ! (k - i)" and "k - i < length (slice i j xs)"
    using j by auto
  then show "x \<in> set (slice i j xs)" by simp
qed

section \<open>Bytes\<close>

text \<open>A fact about one byte is a finite check.\<close>

lemma byte_check:
  assumes "list_all (\<lambda>i. P (word_of_int i)) [0..255]"
  shows "P (b :: byte)"
proof -
  have "uint b \<in> {0..255}" using uint_bounded [of b] by simp
  with assms have "P (word_of_int (uint b))" unfolding list_all_iff set_upto by blast
  then show ?thesis by simp
qed

lemma uint_byte_less [simp]: "uint (b :: byte) < 256"
  using uint_bounded [of b] by simp

lemma or_push_bit_add: "0 \<le> b \<Longrightarrow> b < 2 ^ n \<Longrightarrow> push_bit n a OR b = a * 2 ^ n + (b :: int)"
  using concat_bit_eq [of n b a] concat_bit_def [of n b a]
  by (simp add: push_bit_eq_mult take_bit_int_eq_self or.commute)

lemma uint_and_mask: "uint (b AND w :: byte) = uint b mod 2 ^ n" if "uint w = mask n"
  using that by (simp add: uint_and take_bit_eq_mask [symmetric] take_bit_eq_mod)

section \<open>Literals\<close>

definition bs :: "string \<Rightarrow> gostring" where
  "bs s = map of_char s"

lemma bs_simps [simp]: "bs [] = []" "bs (c # s) = of_char c # bs s"
  by (simp_all add: bs_def)

lemma length_bs [simp]: "length (bs s) = length s"
  by (simp add: bs_def)

section \<open>Options\<close>

lemma bind_bool_eq_Some_iff:
  "Option.bind m f = Some r \<longleftrightarrow> m = Some True \<and> f True = Some r \<or> m = Some False \<and> f False = Some r"
proof (cases m)
  case (Some b)
  then show ?thesis by (cases b) auto
qed simp

lemma bind_eq_Some_iff: "Option.bind m f = Some y \<longleftrightarrow> (\<exists>x. m = Some x \<and> f x = Some y)"
  by (cases m) auto

section \<open>Expressions on natural indices\<close>

lemma go_slice_nat [simp]:
  "go_slice xs (int i) (int j) = (if i \<le> j \<and> j \<le> length xs then Some (slice i j xs) else None)"
  by (simp add: go_slice_def slice_def)

lemma go_index_nat [simp]: "go_index xs (int i) = (if i < length xs then Some (xs ! i) else None)"
  by (simp add: go_index_def)

lemma go_set_nat [simp]: "go_set xs (int i) v = (if i < length xs then Some (xs[i := v]) else None)"
  by (simp add: go_set_def)

lemma slice_0 [simp]: "slice 0 j xs = take j xs"
  by (simp add: slice_def)

lemma slice_length [simp]: "slice i (length xs) xs = drop i xs"
  by (simp add: slice_def)

lemma slice_same [simp]: "slice i i xs = []"
  by (simp add: slice_def)

lemma slice_append: "i \<le> j \<Longrightarrow> j \<le> k \<Longrightarrow> slice i j xs @ slice j k xs = slice i k xs"
proof -
  assume "i \<le> j" "j \<le> k"
  then obtain a b where "j = i + a" "k = i + a + b" by (metis le_Suc_ex)
  then show ?thesis by (simp add: slice_def take_add add.commute add.left_commute)
qed

lemma slice_drop: "i \<le> j \<Longrightarrow> slice i j xs @ drop j xs = drop i xs"
  by (simp add: slice_def) (metis append_take_drop_id drop_drop le_add_diff_inverse2)

section \<open>Loops and buffers\<close>

text \<open>The loops \<open>for i := a; i < a + n; i++ { if P(i) { return i } }; return -1\<close> and
  \<open>for i := n - 1; i >= 0; i-- { if P(i) { return i } }; return -1\<close>.\<close>

fun for_find :: "(nat \<Rightarrow> bool) \<Rightarrow> nat \<Rightarrow> nat \<Rightarrow> int" where
  "for_find P i 0 = -1"
| "for_find P i (Suc n) = (if P i then int i else for_find P (Suc i) n)"

fun for_find_down :: "(nat \<Rightarrow> bool) \<Rightarrow> nat \<Rightarrow> int" where
  "for_find_down P 0 = -1"
| "for_find_down P (Suc n) = (if P n then int n else for_find_down P n)"

lemma for_find_cases:
  "for_find P i n = -1 \<and> (\<forall>k. i \<le> k \<and> k < i + n \<longrightarrow> \<not> P k) \<or>
   (\<exists>k. for_find P i n = int k \<and> i \<le> k \<and> k < i + n \<and> P k \<and> (\<forall>j. i \<le> j \<and> j < k \<longrightarrow> \<not> P j))"
proof (induction n arbitrary: i)
  case (Suc n)
  show ?case
  proof (cases "P i")
    case False
    from Suc [of "Suc i"] show ?thesis
    proof (elim disjE exE conjE)
      assume n: "for_find P (Suc i) n = -1" "\<forall>k. Suc i \<le> k \<and> k < Suc i + n \<longrightarrow> \<not> P k"
      have "\<not> P k" if "i \<le> k" "k < i + Suc n" for k
        using n(2) [rule_format, of k] False that by (cases "k = i") auto
      then show ?thesis using n(1) False by simp
    next
      fix k
      assume k: "for_find P (Suc i) n = int k" "Suc i \<le> k" "k < Suc i + n" "P k" "\<forall>j. Suc i \<le> j \<and> j < k \<longrightarrow> \<not> P j"
      have "\<not> P j" if "i \<le> j" "j < k" for j
        using k(5) [rule_format, of j] False that by (cases "j = i") auto
      then show ?thesis using k(1-4) False by (intro disjI2 exI [of _ k]) simp
    qed
  qed (intro disjI2 exI [of _ i], auto)
qed auto

lemma for_find_down_cases:
  "for_find_down P n = -1 \<and> (\<forall>k < n. \<not> P k) \<or>
   (\<exists>k < n. for_find_down P n = int k \<and> P k \<and> (\<forall>j. k < j \<and> j < n \<longrightarrow> \<not> P j))"
  by (induction n) (auto simp: less_Suc_eq)

text \<open>\<open>make([]T, n)\<close> with elements of \<open>w\<close> bytes (\<open>makeslice\<close> of the run-time): it panics on a length that is negative or
  no \<open>int\<close>, and if the size of the array exceeds the 32-bit address space. On 386 a byte takes 1, an \<open>int\<close> or a pointer 4,
  a string 8 and a slice 12 bytes. Running out of memory is not modelled.\<close>

definition go_make :: "nat \<Rightarrow> int \<Rightarrow> 'a \<Rightarrow> 'a list option" where
  "go_make w n x =
     (if n < 0 \<or> int32 n \<noteq> n \<or> n > (2 ^ 32 - 1) div int w then None else Some (replicate (nat n) x))"

lemma int32_nat_iff: "int32 (int n) = int n \<longleftrightarrow> n < 2 ^ 31"
proof
  assume "int32 (int n) = int n"
  then have "is_int32 (int n)" by (metis is_int32_int32)
  then show "n < 2 ^ 31" by (simp add: is_int32_def)
qed (simp add: is_int32_def)

lemma go_make_nat:
  assumes "1 < w"
  shows "go_make w (int n) x = (if w * n < 2 ^ 32 then Some (replicate n x) else None)"
proof -
  have "(2 ^ 32 - 1) div int w = int ((2 ^ 32 - 1) div w)" by (simp add: zdiv_int)
  then have "int n > (2 ^ 32 - 1) div int w \<longleftrightarrow> \<not> n \<le> (2 ^ 32 - 1) div w" by (simp add: not_le)
  also have "\<dots> \<longleftrightarrow> \<not> n * w \<le> 2 ^ 32 - 1" using assms by (subst less_eq_div_iff_mult_less_eq) simp_all
  finally have *: "int n > (2 ^ 32 - 1) div int w \<longleftrightarrow> \<not> w * n < 2 ^ 32" by (simp add: mult.commute) linarith
  moreover have "n < 2 ^ 31" if "w * n < 2 ^ 32"
  proof -
    have "2 * n \<le> w * n" using assms by simp
    from le_less_trans [OF this that] show ?thesis by simp
  qed
  ultimately show ?thesis unfolding go_make_def int32_nat_iff * by auto
qed

lemma go_make_byte:
  "go_make 1 (int32 n) x = (if int32 n < 0 then None else Some (replicate (nat (int32 n)) x))"
  "go_make (Suc 0) (int32 n) x = (if int32 n < 0 then None else Some (replicate (nat (int32 n)) x))"
proof -
  have "int32 n < 2 ^ 31" "int32 (int32 n) = int32 n" using is_int32_int32 [of n] by (simp_all add: is_int32_def)
  then show "go_make 1 (int32 n) x = (if int32 n < 0 then None else Some (replicate (nat (int32 n)) x))" by (simp add: go_make_def)
  then show "go_make (Suc 0) (int32 n) x = (if int32 n < 0 then None else Some (replicate (nat (int32 n)) x))" by simp
qed

lemma go_make_bytes: "n < 2 ^ 31 \<Longrightarrow> go_make (Suc 0) (int n) x = Some (replicate n x)"
  using go_make_byte(2) [of "int n" x] by (simp add: int32_nat_iff [THEN iffD2])

text \<open>\<open>for j := 0; j < len(s); j++ { b[bp] = s[j]; bp++ }\<close> and \<open>w += copy(t[w:], s)\<close>.\<close>

fun put_bytes :: "'a list \<Rightarrow> nat \<Rightarrow> 'a list \<Rightarrow> ('a list \<times> nat) option" where
  "put_bytes b bp [] = Some (b, bp)"
| "put_bytes b bp (x # s) = do { b \<leftarrow> go_set b (int bp) x; put_bytes b (bp + 1) s }"

definition go_copy :: "'a list \<Rightarrow> nat \<Rightarrow> 'a list \<Rightarrow> ('a list \<times> nat) option" where
  "go_copy t w s =
     (if w \<le> length t then
        let n = min (length t - w) (length s) in Some (take w t @ take n s @ drop (w + n) t, w + n)
      else None)"

lemma put_bytes_eq:
  "bp + length s \<le> length b \<Longrightarrow> put_bytes b bp s = Some (take bp b @ s @ drop (bp + length s) b, bp + length s)"
proof (induction s arbitrary: b bp)
  case (Cons x s)
  then have "put_bytes (b[bp := x]) (bp + 1) s =
      Some (take (bp + 1) (b[bp := x]) @ s @ drop (bp + 1 + length s) (b[bp := x]), bp + 1 + length s)" by simp
  then show ?case using Cons.prems by (simp add: take_Suc_conv_app_nth)
qed simp

lemma go_copy_eq:
  "w + length s \<le> length t \<Longrightarrow> go_copy t w s = Some (take w t @ s @ drop (w + length s) t, w + length s)"
  by (simp add: go_copy_def Let_def)

end
