(* ===== verification/Go_Sort.thy ===== *)
theory Go_Sort
  imports Go_Prelude "HOL-Library.List_Lexorder"
begin

text \<open>
  Package \<open>sort\<close>: \<open>sort.go\<close> and \<open>search.go\<close>.

  \<open>sort.Interface\<close> is a record of the three methods over an abstract collection state.
  \<open>Less\<close> and \<open>Swap\<close> index the collection, so they may panic (\<^term>\<open>None\<close>); the algorithms run in
  the option monad and a theorem that one of them returns also says that it never indexes out of
  range. Indices are naturals: no index expression of the package is negative on a path that
  uses it, and \<open>b - a\<close> is only compared with positive constants.
\<close>

section \<open>The interface\<close>

record 's sort_Interface =
  Len :: "'s \<Rightarrow> nat"
  Less :: "'s \<Rightarrow> nat \<Rightarrow> nat \<Rightarrow> bool option"
  Swap :: "'s \<Rightarrow> nat \<Rightarrow> nat \<Rightarrow> 's option"

section \<open>Insertion sort\<close>

fun insertionSort_inner :: "('s, 'm) sort_Interface_scheme \<Rightarrow> 's \<Rightarrow> nat \<Rightarrow> nat \<Rightarrow> 's option" where
  "insertionSort_inner I d a j =
     (if j > a then do {
        l \<leftarrow> Less I d j (j - 1);
        if l then do { d \<leftarrow> Swap I d j (j - 1); insertionSort_inner I d a (j - 1) } else Some d
      } else Some d)"

function insertionSort_outer :: "('s, 'm) sort_Interface_scheme \<Rightarrow> 's \<Rightarrow> nat \<Rightarrow> nat \<Rightarrow> nat \<Rightarrow> 's option" where
  "insertionSort_outer I d a b i =
     (if i < b then do {
        d \<leftarrow> insertionSort_inner I d a i;
        insertionSort_outer I d a b (i + 1)
      } else Some d)"
  by pat_completeness auto
termination
  by (relation "measure (\<lambda>(I, d, a, b, i). b - i)") auto

definition insertionSort :: "('s, 'm) sort_Interface_scheme \<Rightarrow> 's \<Rightarrow> nat \<Rightarrow> nat \<Rightarrow> 's option" where
  "insertionSort I d a b = insertionSort_outer I d a b (a + 1)"

section \<open>Quicksort\<close>

definition swap_if_less :: "('s, 'm) sort_Interface_scheme \<Rightarrow> 's \<Rightarrow> nat \<Rightarrow> nat \<Rightarrow> 's option" where
  "swap_if_less I d i j = do { l \<leftarrow> Less I d i j; if l then Swap I d i j else Some d }"

definition medianOfThree :: "('s, 'm) sort_Interface_scheme \<Rightarrow> 's \<Rightarrow> nat \<Rightarrow> nat \<Rightarrow> nat \<Rightarrow> 's option" where
  "medianOfThree I d a b c = (let m0 = b; m1 = a; m2 = c in do {
     d \<leftarrow> swap_if_less I d m1 m0;
     d \<leftarrow> swap_if_less I d m2 m1;
     swap_if_less I d m1 m0
   })"

function swapRange_loop :: "('s, 'm) sort_Interface_scheme \<Rightarrow> 's \<Rightarrow> nat \<Rightarrow> nat \<Rightarrow> nat \<Rightarrow> nat \<Rightarrow> 's option" where
  "swapRange_loop I d a b n i =
     (if i < n then do { d \<leftarrow> Swap I d (a + i) (b + i); swapRange_loop I d a b n (i + 1) }
      else Some d)"
  by pat_completeness auto
termination
  by (relation "measure (\<lambda>(I, d, a, b, n, i). n - i)") auto

definition swapRange :: "('s, 'm) sort_Interface_scheme \<Rightarrow> 's \<Rightarrow> nat \<Rightarrow> nat \<Rightarrow> nat \<Rightarrow> 's option" where
  "swapRange I d a b n = swapRange_loop I d a b n 0"

function doPivot_loop ::
  "('s, 'm) sort_Interface_scheme \<Rightarrow> 's \<Rightarrow> nat \<Rightarrow> nat \<Rightarrow> nat \<Rightarrow> nat \<Rightarrow> nat
    \<Rightarrow> ('s \<times> nat \<times> nat \<times> nat \<times> nat) option" where
  "doPivot_loop I data pivot a b c d =
     (if b < c then do {
        l1 \<leftarrow> Less I data b pivot;
        if l1 then doPivot_loop I data pivot a (b + 1) c d
        else do {
          l2 \<leftarrow> Less I data pivot b;
          if \<not> l2 then do {
            data \<leftarrow> Swap I data a b;
            doPivot_loop I data pivot (a + 1) (b + 1) c d
          } else do {
            l3 \<leftarrow> Less I data pivot (c - 1);
            if l3 then doPivot_loop I data pivot a b (c - 1) d
            else do {
              l4 \<leftarrow> Less I data (c - 1) pivot;
              if \<not> l4 then do {
                data \<leftarrow> Swap I data (c - 1) (d - 1);
                doPivot_loop I data pivot a b (c - 1) (d - 1)
              } else do {
                data \<leftarrow> Swap I data b (c - 1);
                doPivot_loop I data pivot a (b + 1) (c - 1) d
              }
            }
          }
        }
      } else Some (data, a, b, c, d))"
  by pat_completeness auto
termination
  by (relation "measure (\<lambda>(I, data, pivot, a, b, c, d). c - b)") auto

definition doPivot_ninther ::
  "('s, 'm) sort_Interface_scheme \<Rightarrow> 's \<Rightarrow> nat \<Rightarrow> nat \<Rightarrow> nat \<Rightarrow> 's option" where
  "doPivot_ninther I data lo m hi =
     (if hi - lo > 40 then (let s = (hi - lo) div 8 in do {
        data \<leftarrow> medianOfThree I data lo (lo + s) (lo + 2 * s);
        data \<leftarrow> medianOfThree I data m (m - s) (m + s);
        medianOfThree I data (hi - 1) (hi - 1 - s) (hi - 1 - 2 * s)
      }) else Some data)"

definition doPivot ::
  "('s, 'm) sort_Interface_scheme \<Rightarrow> 's \<Rightarrow> nat \<Rightarrow> nat \<Rightarrow> ('s \<times> nat \<times> nat) option" where
  "doPivot I data lo hi = (let m = lo + (hi - lo) div 2 in do {
     data \<leftarrow> doPivot_ninther I data lo m hi;
     data \<leftarrow> medianOfThree I data lo m (hi - 1);
     (data, a, b, c, d) \<leftarrow> doPivot_loop I data lo (lo + 1) (lo + 1) hi hi;
     let n = min (b - a) (a - lo);
     data \<leftarrow> swapRange I data lo (b - n) n;
     let n = min (hi - d) (d - c);
     data \<leftarrow> swapRange I data c (hi - n) n;
     Some (data, lo + b - a, hi - (d - c))
   })"

declare insertionSort_inner.simps [simp del] insertionSort_outer.simps [simp del]
  swapRange_loop.simps [simp del] doPivot_loop.simps [simp del]

lemma doPivot_loop_bounds:
  "doPivot_loop I data p a b c d = Some (data', a', b', c', d') \<Longrightarrow> a \<le> b \<Longrightarrow> b \<le> c \<Longrightarrow> c \<le> d \<Longrightarrow>
     a \<le> a' \<and> a' \<le> b' \<and> b' = c' \<and> c' \<le> d' \<and> d' \<le> d"
proof (induction I data p a b c d rule: doPivot_loop.induct)
  case (1 I data p a b c d)
  let ?r = "(data', a', b', c', d')"
  show ?case
  proof (cases "b < c")
    case False
    with "1.prems" show ?thesis by (simp add: doPivot_loop.simps [of I data])
  next
    case True
    from "1.prems"(1) [unfolded doPivot_loop.simps [of I data p a b c d]] True consider
        (l1) "Less I data b p = Some True" "doPivot_loop I data p a (b + 1) c d = Some ?r"
      | (l2) x where "Less I data b p = Some False" "Less I data p b = Some False"
          "Swap I data a b = Some x" "doPivot_loop I x p (a + 1) (b + 1) c d = Some ?r"
      | (l3) "Less I data b p = Some False" "Less I data p b = Some True"
          "Less I data p (c - 1) = Some True" "doPivot_loop I data p a b (c - 1) d = Some ?r"
      | (l4) x where "Less I data b p = Some False" "Less I data p b = Some True"
          "Less I data p (c - 1) = Some False" "Less I data (c - 1) p = Some False"
          "Swap I data (c - 1) (d - 1) = Some x" "doPivot_loop I x p a b (c - 1) (d - 1) = Some ?r"
      | (l5) x where "Less I data b p = Some False" "Less I data p b = Some True"
          "Less I data p (c - 1) = Some False" "Less I data (c - 1) p = Some True"
          "Swap I data b (c - 1) = Some x" "doPivot_loop I x p a (b + 1) (c - 1) d = Some ?r"
      by (simp add: bind_bool_eq_Some_iff) (auto simp: bind_eq_Some_iff)
    then show ?thesis
    proof cases
      case l1
      with "1.IH"(1) [OF True l1(1)] True "1.prems" show ?thesis by force
    next
      case l2
      with "1.IH"(2) [OF True l2(1) _ l2(2) _ l2(3)] True "1.prems" show ?thesis by force
    next
      case l3
      with "1.IH"(3) [OF True l3(1) _ l3(2) _ l3(3)] True "1.prems" show ?thesis by force
    next
      case l4
      with "1.IH"(4) [OF True l4(1) _ l4(2) _ l4(3) _ l4(4) _ l4(5)] True "1.prems"
      show ?thesis by force
    next
      case l5
      then have "b \<noteq> c - 1" by auto
      with l5 "1.IH"(5) [OF True l5(1) _ l5(2) _ l5(3) _ l5(4) _ l5(5)] True "1.prems"
      show ?thesis by force
    qed
  qed
qed

lemma doPivot_bounds:
  assumes "doPivot I data lo hi = Some (data', mlo, mhi)" and "lo < hi"
  shows "lo \<le> mlo \<and> mlo < mhi \<and> mhi \<le> hi"
proof -
  from assms(1) obtain d1 d2 a b c d where
    "doPivot_loop I d1 lo (lo + 1) (lo + 1) hi hi = Some (d2, a, b, c, d)"
    and "mlo = lo + b - a" and "mhi = hi - (d - c)"
    by (auto simp: doPivot_def Let_def bind_eq_Some_iff split: prod.splits)
  with doPivot_loop_bounds [OF this(1)] \<open>lo < hi\<close> show ?thesis by auto
qed

function quickSort :: "('s, 'm) sort_Interface_scheme \<Rightarrow> 's \<Rightarrow> nat \<Rightarrow> nat \<Rightarrow> 's option" where
  "quickSort I data a b =
     (if b - a > 7 then do {
        (data, mlo, mhi) \<leftarrow> doPivot I data a b;
        if mlo - a < b - mhi then do {
          data \<leftarrow> quickSort I data a mlo;
          quickSort I data mhi b
        } else do {
          data \<leftarrow> quickSort I data mhi b;
          quickSort I data a mlo
        }
      } else if b - a > 1 then insertionSort I data a b
      else Some data)"
  by pat_completeness auto
termination
  by (relation "measure (\<lambda>(I, data, a, b). b - a)") (auto dest!: doPivot_bounds)

declare quickSort.simps [simp del]

definition Sort :: "('s, 'm) sort_Interface_scheme \<Rightarrow> 's \<Rightarrow> 's option" where
  "Sort I data = quickSort I data 0 (Len I data)"

fun IsSorted_loop :: "('s, 'm) sort_Interface_scheme \<Rightarrow> 's \<Rightarrow> nat \<Rightarrow> bool option" where
  "IsSorted_loop I data i =
     (if i > 0 then do {
        l \<leftarrow> Less I data i (i - 1);
        if l then Some False else IsSorted_loop I data (i - 1)
      } else Some True)"

definition IsSorted :: "('s, 'm) sort_Interface_scheme \<Rightarrow> 's \<Rightarrow> bool option" where
  "IsSorted I data = (let n = Len I data in IsSorted_loop I data (n - 1))"

declare IsSorted_loop.simps [simp del]

section \<open>The convenience types\<close>

text \<open>
  The three array types share \<open>Len\<close> and \<open>Swap\<close>, and \<open>Less\<close> applies the element type's \<open><\<close> to two
  indexed elements; an index out of range panics.
\<close>

definition array_Swap :: "'a list \<Rightarrow> nat \<Rightarrow> nat \<Rightarrow> 'a list option" where
  "array_Swap p i j =
     (if i < length p \<and> j < length p then Some (p[i := p ! j, j := p ! i]) else None)"

definition array_Less :: "('a \<Rightarrow> 'a \<Rightarrow> bool) \<Rightarrow> 'a list \<Rightarrow> nat \<Rightarrow> nat \<Rightarrow> bool option" where
  "array_Less lt p i j = (if i < length p \<and> j < length p then Some (lt (p ! i) (p ! j)) else None)"

definition IntArray :: "int list sort_Interface" where
  "IntArray = \<lparr>Len = length, Less = array_Less (<), Swap = array_Swap\<rparr>"

definition StringArray :: "gostring list sort_Interface" where
  "StringArray = \<lparr>Len = length, Less = array_Less (<), Swap = array_Swap\<rparr>"

text \<open>
  A \<open>float64\<close> is its IEEE 754 bit pattern. \<open>float64_key\<close> orders the patterns that are not NaN as
  their values, with both zeros at 0; every comparison with a NaN is false.
\<close>

type_synonym float64 = "64 word"

definition float64_isNaN :: "float64 \<Rightarrow> bool" where
  "float64_isNaN x \<longleftrightarrow> 0x7FF0000000000000 < x AND 0x7FFFFFFFFFFFFFFF"

definition float64_key :: "float64 \<Rightarrow> int" where
  "float64_key x = (let m = uint (x AND 0x7FFFFFFFFFFFFFFF) in if bit x 63 then - m else m)"

definition float64_less :: "float64 \<Rightarrow> float64 \<Rightarrow> bool" where
  "float64_less x y \<longleftrightarrow> \<not> float64_isNaN x \<and> \<not> float64_isNaN y \<and> float64_key x < float64_key y"

definition Float64Array :: "float64 list sort_Interface" where
  "Float64Array = \<lparr>Len = length, Less = array_Less float64_less, Swap = array_Swap\<rparr>"

definition SortInts :: "int list \<Rightarrow> int list option" where
  "SortInts a = Sort IntArray a"

definition SortFloat64s :: "float64 list \<Rightarrow> float64 list option" where
  "SortFloat64s a = Sort Float64Array a"

definition SortStrings :: "gostring list \<Rightarrow> gostring list option" where
  "SortStrings a = Sort StringArray a"

definition IntsAreSorted :: "int list \<Rightarrow> bool option" where
  "IntsAreSorted a = IsSorted IntArray a"

definition Float64sAreSorted :: "float64 list \<Rightarrow> bool option" where
  "Float64sAreSorted a = IsSorted Float64Array a"

definition StringsAreSorted :: "gostring list \<Rightarrow> bool option" where
  "StringsAreSorted a = IsSorted StringArray a"

section \<open>Binary search\<close>

function Search_loop :: "(nat \<Rightarrow> bool option) \<Rightarrow> nat \<Rightarrow> nat \<Rightarrow> nat option" where
  "Search_loop f i j =
     (if i < j then (let h = i + (j - i) div 2 in do {
        v \<leftarrow> f h;
        if \<not> v then Search_loop f (h + 1) j else Search_loop f i h
      }) else Some i)"
  by pat_completeness auto
termination
  by (relation "measure (\<lambda>(f, i, j). j - i)") auto

declare Search_loop.simps [simp del]

definition Search :: "nat \<Rightarrow> (nat \<Rightarrow> bool option) \<Rightarrow> nat option" where
  "Search n f = Search_loop f 0 n"

definition array_ge :: "('a \<Rightarrow> 'a \<Rightarrow> bool) \<Rightarrow> 'a list \<Rightarrow> 'a \<Rightarrow> nat \<Rightarrow> bool option" where
  "array_ge ge a x i = (if i < length a then Some (ge (a ! i) x) else None)"

definition SearchInts :: "int list \<Rightarrow> int \<Rightarrow> nat option" where
  "SearchInts a x = Search (length a) (array_ge (\<ge>) a x)"

definition SearchFloat64s :: "float64 list \<Rightarrow> float64 \<Rightarrow> nat option" where
  "SearchFloat64s a x = Search (length a)
     (array_ge (\<lambda>u v. \<not> float64_isNaN u \<and> \<not> float64_isNaN v \<and> float64_key v \<le> float64_key u) a x)"

definition SearchStrings :: "gostring list \<Rightarrow> gostring \<Rightarrow> nat option" where
  "SearchStrings a x = Search (length a) (array_ge (\<ge>) a x)"

section \<open>Rearrangements of a range\<close>

definition rperm :: "nat \<Rightarrow> nat \<Rightarrow> 'a list \<Rightarrow> 'a list \<Rightarrow> bool" where
  "rperm a b xs ys \<longleftrightarrow> length ys = length xs \<and> mset ys = mset xs \<and>
     (\<forall>i < length xs. i < a \<or> b \<le> i \<longrightarrow> ys ! i = xs ! i)"

abbreviation swapped :: "'a list \<Rightarrow> nat \<Rightarrow> nat \<Rightarrow> 'a list" where
  "swapped xs i j \<equiv> xs[i := xs ! j, j := xs ! i]"

lemma rperm_refl [simp]: "rperm a b xs xs"
  by (simp add: rperm_def)

lemma rperm_trans: "rperm a b xs ys \<Longrightarrow> rperm a b ys zs \<Longrightarrow> rperm a b xs zs"
  by (simp add: rperm_def)

lemma rperm_mono: "rperm a b xs ys \<Longrightarrow> a' \<le> a \<Longrightarrow> b \<le> b' \<Longrightarrow> rperm a' b' xs ys"
  by (auto simp: rperm_def)

lemma rperm_length: "rperm a b xs ys \<Longrightarrow> length ys = length xs"
  by (simp add: rperm_def)

lemma rperm_set: "rperm a b xs ys \<Longrightarrow> set ys = set xs"
  by (metis rperm_def set_mset_mset)

lemma rperm_outside: "rperm a b xs ys \<Longrightarrow> i < a \<or> b \<le> i \<Longrightarrow> i < length xs \<Longrightarrow> ys ! i = xs ! i"
  unfolding rperm_def by blast

lemma rperm_swapped:
  assumes "i < length xs" "j < length xs" "a \<le> i" "i < b" "a \<le> j" "j < b"
  shows "rperm a b xs (swapped xs i j)"
  using assms mset_swap [of j xs i] by (auto simp: rperm_def nth_list_update)

lemma mset_take_slice_drop:
  "a \<le> b \<Longrightarrow> mset xs = mset (take a xs) + mset (slice a b xs) + mset (drop b xs)"
  by (metis mset_append take_slice_drop union_assoc)

lemma rperm_mset_slice:
  assumes "rperm a b xs ys" "a \<le> b"
  shows "mset (slice a b ys) = mset (slice a b xs)"
proof -
  have "take a ys = take a xs" "drop b ys = drop b xs"
    using assms by (auto simp: rperm_def intro!: nth_equalityI)
  moreover have "mset ys = mset xs" using assms(1) by (simp add: rperm_def)
  ultimately show ?thesis
    using mset_take_slice_drop [OF assms(2), of xs] mset_take_slice_drop [OF assms(2), of ys] by simp
qed

lemma rperm_all:
  assumes "rperm a b xs ys" "b \<le> length xs" "\<And>i. a \<le> i \<Longrightarrow> i < b \<Longrightarrow> P (xs ! i)" "a \<le> k" "k < b"
  shows "P (ys ! k)"
proof -
  have "ys ! k \<in> set (slice a b ys)"
    using assms by (subst set_slice) (auto simp: rperm_length)
  then have "ys ! k \<in> set (slice a b xs)"
    using rperm_mset_slice [OF assms(1)] assms(4,5) by (metis less_imp_le order_le_less_trans set_mset_mset)
  then show ?thesis
    using assms(2,3) by (auto simp: set_slice)
qed

definition all_in :: "('a \<Rightarrow> bool) \<Rightarrow> nat \<Rightarrow> nat \<Rightarrow> 'a list \<Rightarrow> bool" where
  "all_in P i j xs \<longleftrightarrow> (\<forall>k. i \<le> k \<longrightarrow> k < j \<longrightarrow> P (xs ! k))"

lemma all_in_Suc: "all_in P i (Suc j) xs \<longleftrightarrow> all_in P i j xs \<and> (i \<le> j \<longrightarrow> P (xs ! j))"
  by (auto simp: all_in_def less_Suc_eq)

lemma all_in_head: "all_in P (Suc i) j xs \<Longrightarrow> P (xs ! i) \<Longrightarrow> all_in P i j xs"
  unfolding all_in_def by (metis Suc_leI le_neq_implies_less)

lemma all_in_swapped:
  "p < i \<or> j \<le> p \<Longrightarrow> q < i \<or> j \<le> q \<Longrightarrow> all_in P i j (swapped xs p q) = all_in P i j xs"
  unfolding all_in_def
  by (metis leD nth_list_update_neq)

lemma all_in_rperm:
  assumes "rperm a b xs ys" "b \<le> length xs" "all_in P a b xs"
  shows "all_in P a b ys"
  unfolding all_in_def
proof (intro allI impI)
  fix k assume "a \<le> k" "k < b"
  then show "P (ys ! k)"
    using rperm_all [OF assms(1,2), of P k] assms(3) by (simp add: all_in_def)
qed

lemma all_in_rperm_outside:
  assumes "rperm a b xs ys" "j \<le> a \<or> b \<le> i" "j \<le> length xs" "all_in P i j xs"
  shows "all_in P i j ys"
  unfolding all_in_def
proof (intro allI impI)
  fix k assume "i \<le> k" "k < j"
  then show "P (ys ! k)"
    using rperm_outside [OF assms(1), of k] assms(2-4) by (auto simp: all_in_def)
qed

definition blocks_swapped :: "nat \<Rightarrow> nat \<Rightarrow> nat \<Rightarrow> 'a list \<Rightarrow> 'a list \<Rightarrow> bool" where
  "blocks_swapped a b n xs ys \<longleftrightarrow> (\<forall>k < length xs. ys ! k =
     (if a \<le> k \<and> k < a + n then xs ! (b + (k - a))
      else if b \<le> k \<and> k < b + n then xs ! (a + (k - b)) else xs ! k))"

lemma blocks_swapped_all_in:
  assumes "blocks_swapped lo (b - n) n xs ys" "n = min (b - m) (m - lo)"
    and "lo \<le> m" "m \<le> b" "b \<le> length xs" and P: "all_in P lo m xs" and Q: "all_in Q m b xs"
  shows "all_in Q lo (lo + (b - m)) ys" and "all_in P (lo + (b - m)) b ys"
proof -
  have n: "n \<le> b - m" "n \<le> m - lo" "n = b - m \<or> n = m - lo" using assms(2) by linarith+
  have ys: "ys ! k = (if lo \<le> k \<and> k < lo + n then xs ! (b - n + (k - lo))
      else if b - n \<le> k \<and> k < b - n + n then xs ! (lo + (k - (b - n))) else xs ! k)" if "k < b" for k
    using assms(1,5) that by (auto simp: blocks_swapped_def)
  show "all_in Q lo (lo + (b - m)) ys"
    unfolding all_in_def
  proof (intro allI impI)
    fix k assume k: "lo \<le> k" "k < lo + (b - m)"
    show "Q (ys ! k)"
    proof (cases "k < lo + n")
      case True
      then have "m \<le> b - n + (k - lo)" "b - n + (k - lo) < b" using k n assms(3,4) by linarith+
      with Q ys [of k] True k assms(3,4) show ?thesis by (auto simp: all_in_def)
    next
      case False
      then have "m \<le> k" "k < b" "\<not> b - n \<le> k" using k n assms(3,4) by linarith+
      with Q ys [of k] False k show ?thesis by (auto simp: all_in_def)
    qed
  qed
  show "all_in P (lo + (b - m)) b ys"
    unfolding all_in_def
  proof (intro allI impI)
    fix k assume k: "lo + (b - m) \<le> k" "k < b"
    show "P (ys ! k)"
    proof (cases "b - n \<le> k")
      case True
      then have "lo \<le> lo + (k - (b - n))" "lo + (k - (b - n)) < m" "\<not> k < lo + n" "k < b - n + n"
        using k n assms(3,4) by linarith+
      with P ys [of k] True k show ?thesis by (auto simp: all_in_def)
    next
      case False
      then have "lo \<le> k" "k < m" "\<not> k < lo + n" using k n assms(3,4) by linarith+
      with P ys [of k] False k show ?thesis by (auto simp: all_in_def)
    qed
  qed
qed

section \<open>What the interface promises, and that sorting sorts\<close>

text \<open>
  The contract of \<open>sort.Interface\<close>: the collection has a list of elements, \<open>Less\<close> compares two of
  them and \<open>Swap\<close> exchanges two of them. The order is a strict weak order on the elements that are
  \<open>ok\<close> (for \<open>float64\<close>, those that are not NaN).
\<close>

definition le_of :: "('a \<Rightarrow> 'a \<Rightarrow> bool) \<Rightarrow> 'a \<Rightarrow> 'a \<Rightarrow> bool" where
  "le_of lt x y \<longleftrightarrow> \<not> lt y x"

definition sorted_range :: "('a \<Rightarrow> 'a \<Rightarrow> bool) \<Rightarrow> nat \<Rightarrow> nat \<Rightarrow> 'a list \<Rightarrow> bool" where
  "sorted_range lt a b xs \<longleftrightarrow> (\<forall>i j. a \<le> i \<longrightarrow> i < j \<longrightarrow> j < b \<longrightarrow> \<not> lt (xs ! j) (xs ! i))"

lemma sorted_range_sorted_wrt:
  "sorted_range lt 0 (length xs) xs \<longleftrightarrow> sorted_wrt (le_of lt) xs"
  by (auto simp: sorted_range_def le_of_def sorted_wrt_iff_nth_less)

locale sort_interface =
  fixes I :: "('s, 'm) sort_Interface_scheme" and elems :: "'s \<Rightarrow> 'a list"
    and ok :: "'a \<Rightarrow> bool" and lt :: "'a \<Rightarrow> 'a \<Rightarrow> bool"
  assumes Len_eq: "Len I s = length (elems s)"
    and Less_eq: "i < length (elems s) \<Longrightarrow> j < length (elems s) \<Longrightarrow>
      Less I s i j = Some (lt (elems s ! i) (elems s ! j))"
    and Swap_ex: "i < length (elems s) \<Longrightarrow> j < length (elems s) \<Longrightarrow>
      \<exists>s'. Swap I s i j = Some s' \<and> elems s' = swapped (elems s) i j"
    and lt_asym: "ok x \<Longrightarrow> ok y \<Longrightarrow> lt x y \<Longrightarrow> \<not> lt y x"
    and lt_negtrans: "ok x \<Longrightarrow> ok y \<Longrightarrow> ok z \<Longrightarrow> lt x z \<Longrightarrow> lt x y \<or> lt y z"
begin

lemma lt_irrefl: "ok x \<Longrightarrow> \<not> lt x x"
  using lt_asym by blast

lemma lt_trans: "ok x \<Longrightarrow> ok y \<Longrightarrow> ok z \<Longrightarrow> lt x y \<Longrightarrow> lt y z \<Longrightarrow> lt x z"
  using lt_negtrans lt_asym by meson

lemma le_trans: "ok x \<Longrightarrow> ok y \<Longrightarrow> ok z \<Longrightarrow> \<not> lt y x \<Longrightarrow> \<not> lt z y \<Longrightarrow> \<not> lt z x"
  using lt_negtrans by blast

lemma insertionSort_inner_spec:
  assumes "a \<le> j" "j \<le> i" "i < length (elems d)" "\<forall>x \<in> set (elems d). ok x"
    and "\<And>p q. a \<le> p \<Longrightarrow> p < q \<Longrightarrow> q \<le> i \<Longrightarrow> q \<noteq> j \<Longrightarrow> \<not> lt (elems d ! q) (elems d ! p)"
  shows "\<exists>d'. insertionSort_inner I d a j = Some d' \<and> rperm a (Suc i) (elems d) (elems d') \<and>
     sorted_range lt a (Suc i) (elems d')"
  using assms
proof (induction j arbitrary: d)
  case 0
  then show ?case
    by (subst insertionSort_inner.simps) (auto simp: sorted_range_def)
next
  case (Suc j)
  let ?xs = "elems d"
  note bnd = Suc.prems(1-3) and inv = Suc.prems(5)
  have ok: "ok (?xs ! k)" if "k \<le> i" for k
    using Suc.prems(3,4) that by simp
  have less: "Less I d (Suc j) j = Some (lt (?xs ! Suc j) (?xs ! j))"
    using bnd by (intro Less_eq) auto
  consider "a = Suc j" | "a \<le> j" "\<not> lt (?xs ! Suc j) (?xs ! j)" | "a \<le> j" "lt (?xs ! Suc j) (?xs ! j)"
    using bnd by linarith
  then show ?case
  proof cases
    case 1
    then have "sorted_range lt a (Suc i) ?xs"
      unfolding sorted_range_def using inv by (metis less_Suc_eq_le not_less_eq)
    with 1 show ?thesis by (subst insertionSort_inner.simps) simp
  next
    case 2
    have "\<not> lt (?xs ! q) (?xs ! p)" if pq: "a \<le> p" "p < q" "q \<le> i" for p q
    proof (cases "q = Suc j")
      case True
      have "p = j \<or> \<not> lt (?xs ! j) (?xs ! p)" using inv [of p j] pq True bnd by linarith
      then show ?thesis
        using le_trans [of "?xs ! p" "?xs ! j" "?xs ! q"] 2 True pq bnd ok by auto
    next
      case False
      with inv pq show ?thesis by blast
    qed
    then have "sorted_range lt a (Suc i) ?xs" by (simp add: sorted_range_def)
    with 2 less show ?thesis by (subst insertionSort_inner.simps) auto
  next
    case 3
    obtain d' where d': "Swap I d (Suc j) j = Some d'" "elems d' = swapped ?xs (Suc j) j"
      using Swap_ex [of "Suc j" d j] bnd by auto
    have rp: "rperm a (Suc i) ?xs (elems d')"
      unfolding d'(2) by (rule rperm_swapped) (use bnd 3 in auto)
    have nth: "elems d' ! k = (if k = j then ?xs ! Suc j else if k = Suc j then ?xs ! j else ?xs ! k)"
      if "k \<le> i" for k
      using bnd that by (simp add: d'(2) nth_list_update)
    have "\<not> lt (elems d' ! q) (elems d' ! p)" if pq: "a \<le> p" "p < q" "q \<le> i" "q \<noteq> j" for p q
    proof (cases "q = Suc j")
      case True
      then show ?thesis
        using pq bnd nth [of p] nth [of q] lt_asym [OF ok ok 3(2)] inv [of p j] by (cases "p = j") auto
    next
      case False
      then show ?thesis
        using pq bnd 3 nth [of p] nth [of q] inv [of p q] inv [of j q] inv [of "Suc j" q] by auto
    qed
    then obtain d'' where "insertionSort_inner I d' a j = Some d''"
      "rperm a (Suc i) (elems d') (elems d'')" "sorted_range lt a (Suc i) (elems d'')"
      using Suc.IH [of d'] 3(1) bnd Suc.prems(4) rperm_length [OF rp] rperm_set [OF rp] by auto
    with 3 less d' rp show ?thesis
      by (subst insertionSort_inner.simps) (auto intro: rperm_trans)
  qed
qed

lemma insertionSort_outer_spec:
  assumes "a < i" "i \<le> b \<or> b \<le> a" "b \<le> length (elems d)" "\<forall>x \<in> set (elems d). ok x"
    and "sorted_range lt a i (elems d)"
  shows "\<exists>d'. insertionSort_outer I d a b i = Some d' \<and> rperm a b (elems d) (elems d') \<and>
     sorted_range lt a b (elems d')"
  using assms
proof (induction "b - i" arbitrary: d i)
  case 0
  then show ?case
    by (subst insertionSort_outer.simps) (auto simp: sorted_range_def)
next
  case (Suc n)
  then have ib: "i < b" by simp
  obtain d' where d': "insertionSort_inner I d a i = Some d'" "rperm a (Suc i) (elems d) (elems d')"
    "sorted_range lt a (Suc i) (elems d')"
    using insertionSort_inner_spec [of a i i d] Suc.prems ib by (auto simp: sorted_range_def)
  then obtain d'' where "insertionSort_outer I d' a b (Suc i) = Some d''"
    "rperm a b (elems d') (elems d'')" "sorted_range lt a b (elems d'')"
    using Suc.hyps(1) [of "Suc i" d'] Suc.hyps(2) Suc.prems ib
      rperm_length [OF d'(2)] rperm_set [OF d'(2)] by fastforce
  moreover have "rperm a b (elems d) (elems d')"
    by (rule rperm_mono [OF d'(2)]) (use ib in auto)
  ultimately show ?case
    using d' ib by (subst insertionSort_outer.simps) (auto intro: rperm_trans)
qed

lemma insertionSort_spec:
  assumes "b \<le> length (elems d)" "\<forall>x \<in> set (elems d). ok x"
  shows "\<exists>d'. insertionSort I d a b = Some d' \<and> rperm a b (elems d) (elems d') \<and>
     sorted_range lt a b (elems d')"
  unfolding insertionSort_def
  by (rule insertionSort_outer_spec) (use assms in \<open>auto simp: sorted_range_def\<close>)

lemma swap_if_less_spec:
  assumes "i < length (elems d)" "j < length (elems d)" "lo \<le> i" "i < hi" "lo \<le> j" "j < hi"
  shows "\<exists>d'. swap_if_less I d i j = Some d' \<and> rperm lo hi (elems d) (elems d')"
proof -
  obtain d' where "Swap I d i j = Some d'" "elems d' = swapped (elems d) i j"
    using Swap_ex assms by blast
  with assms rperm_swapped [of i "elems d" j lo hi] show ?thesis
    by (auto simp: swap_if_less_def Less_eq)
qed

lemma medianOfThree_spec:
  assumes "hi \<le> length (elems d)" "lo \<le> a" "a < hi" "lo \<le> b" "b < hi" "lo \<le> c" "c < hi"
  shows "\<exists>d'. medianOfThree I d a b c = Some d' \<and> rperm lo hi (elems d) (elems d')"
proof -
  obtain d1 where 1: "swap_if_less I d a b = Some d1" "rperm lo hi (elems d) (elems d1)"
    using swap_if_less_spec [of a d b lo hi] assms by auto
  obtain d2 where 2: "swap_if_less I d1 c a = Some d2" "rperm lo hi (elems d1) (elems d2)"
    using swap_if_less_spec [of c d1 a lo hi] assms rperm_length [OF 1(2)] by auto
  obtain d3 where 3: "swap_if_less I d2 a b = Some d3" "rperm lo hi (elems d2) (elems d3)"
    using swap_if_less_spec [of a d2 b lo hi] assms rperm_length [OF 1(2)] rperm_length [OF 2(2)] by auto
  from 1 2 3 show ?thesis
    by (auto simp: medianOfThree_def Let_def intro: rperm_trans)
qed

lemma swapRange_loop_spec:
  assumes "i \<le> n" "a + n \<le> b" "b + n \<le> length (elems d)"
  shows "\<exists>d'. swapRange_loop I d a b n i = Some d' \<and> rperm (a + i) (b + n) (elems d) (elems d') \<and>
    (\<forall>k < length (elems d). elems d' ! k =
       (if a + i \<le> k \<and> k < a + n then elems d ! (b + (k - a))
        else if b + i \<le> k \<and> k < b + n then elems d ! (a + (k - b)) else elems d ! k))"
  using assms
proof (induction "n - i" arbitrary: d i)
  case 0
  then show ?case by (subst swapRange_loop.simps) auto
next
  case (Suc m)
  then have i: "i < n" and m: "m = n - Suc i" by simp_all
  let ?xs = "elems d"
  obtain d1 where d1: "Swap I d (a + i) (b + i) = Some d1" "elems d1 = swapped ?xs (a + i) (b + i)"
    using Swap_ex [of "a + i" d "b + i"] Suc.prems i by auto
  have rp1: "rperm (a + i) (b + n) ?xs (elems d1)"
    unfolding d1(2) by (rule rperm_swapped) (use Suc.prems i in auto)
  obtain d2 where d2: "swapRange_loop I d1 a b n (Suc i) = Some d2"
    "rperm (a + Suc i) (b + n) (elems d1) (elems d2)"
    "\<forall>k < length (elems d1). elems d2 ! k =
       (if a + Suc i \<le> k \<and> k < a + n then elems d1 ! (b + (k - a))
        else if b + Suc i \<le> k \<and> k < b + n then elems d1 ! (a + (k - b)) else elems d1 ! k)"
    using Suc.hyps(1) [OF m, of d1] Suc.prems i rperm_length [OF rp1] by auto
  have "elems d2 ! k =
       (if a + i \<le> k \<and> k < a + n then ?xs ! (b + (k - a))
        else if b + i \<le> k \<and> k < b + n then ?xs ! (a + (k - b)) else ?xs ! k)"
    if k: "k < length ?xs" for k
  proof -
    have e: "elems d1 ! k' = (if k' = a + i then ?xs ! (b + i) else if k' = b + i then ?xs ! (a + i)
        else ?xs ! k')" if "k' < length ?xs" for k'
      using that Suc.prems i by (simp add: d1(2) nth_list_update)
    have d2k: "elems d2 ! k =
       (if a + Suc i \<le> k \<and> k < a + n then elems d1 ! (b + (k - a))
        else if b + Suc i \<le> k \<and> k < b + n then elems d1 ! (a + (k - b)) else elems d1 ! k)"
      using d2(3) k rperm_length [OF rp1] by simp
    consider "k = a + i" | "k = b + i" | "a + i < k" "k < a + n" | "b + i < k" "k < b + n"
      | "k < a + i \<or> a + n \<le> k" "k < b + i \<or> b + n \<le> k"
      by linarith
    then show ?thesis
    proof cases
      case 3
      then have "b + (k - a) \<noteq> a + i" "b + (k - a) \<noteq> b + i" "b + (k - a) < length ?xs"
        using Suc.prems by linarith+
      with 3 d2k e [of "b + (k - a)"] Suc.prems show ?thesis by simp
    next
      case 4
      then have "a + (k - b) \<noteq> a + i" "a + (k - b) \<noteq> b + i" "a + (k - b) < length ?xs"
        "\<not> (a + Suc i \<le> k \<and> k < a + n)"
        using Suc.prems by linarith+
      with 4 d2k e [of "a + (k - b)"] Suc.prems show ?thesis by simp
    qed (use d2k e [OF k] Suc.prems i in auto)
  qed
  moreover have "rperm (a + i) (b + n) (elems d1) (elems d2)"
    by (rule rperm_mono [OF d2(2)]) auto
  ultimately show ?case
    using d1 d2(1) i rp1 by (subst swapRange_loop.simps) (auto intro: rperm_trans)
qed

text \<open>
  The comment in \<open>doPivot\<close> as an invariant: \<open>pv\<close> is the pivot value, kept at index \<open>lo\<close>.
\<close>

definition same :: "'a \<Rightarrow> 'a \<Rightarrow> bool" where
  "same x y \<longleftrightarrow> \<not> lt x y \<and> \<not> lt y x"

definition pivot_inv :: "nat \<Rightarrow> nat \<Rightarrow> 'a \<Rightarrow> 'a list \<Rightarrow> nat \<Rightarrow> nat \<Rightarrow> nat \<Rightarrow> nat \<Rightarrow> bool" where
  "pivot_inv lo hi pv xs a b c d \<longleftrightarrow>
     (lo < a \<and> a \<le> b \<and> b \<le> c \<and> c \<le> d \<and> d \<le> hi \<and> hi \<le> length xs) \<and>
     xs ! lo = pv \<and> (\<forall>x \<in> set xs. ok x) \<and>
     all_in (same pv) lo a xs \<and> all_in (\<lambda>x. lt x pv) a b xs \<and>
     all_in (lt pv) c d xs \<and> all_in (same pv) d hi xs"

lemma pivot_inv_less: "pivot_inv lo hi pv xs a b c d \<Longrightarrow> b < c \<Longrightarrow> lt (xs ! b) pv \<Longrightarrow>
  pivot_inv lo hi pv xs a (Suc b) c d"
  by (simp add: pivot_inv_def all_in_Suc)

lemma pivot_inv_greater: "pivot_inv lo hi pv xs a b c d \<Longrightarrow> b < c \<Longrightarrow> lt pv (xs ! (c - 1)) \<Longrightarrow>
  pivot_inv lo hi pv xs a b (c - 1) d"
  by (cases c) (simp_all add: pivot_inv_def all_in_head)

lemma pivot_inv_equal_left:
  assumes "pivot_inv lo hi pv xs a b c d" "b < c" "same pv (xs ! b)"
  shows "pivot_inv lo hi pv (swapped xs a b) (Suc a) (Suc b) c d"
proof -
  have bnd: "lo < a" "a \<le> b" "b < c" "c \<le> d" "d \<le> hi" "hi \<le> length xs"
    using assms(1,2) by (auto simp: pivot_inv_def)
  have "a < b \<Longrightarrow> lt (xs ! a) pv" using assms(1) by (auto simp: pivot_inv_def all_in_def)
  then have "all_in (\<lambda>x. lt x pv) (Suc a) (Suc b) (swapped xs a b)"
    using assms(1) bnd by (auto simp: pivot_inv_def all_in_def nth_list_update less_Suc_eq)
  moreover have "\<forall>x \<in> set (swapped xs a b). ok x"
    using assms(1) bnd rperm_set [OF rperm_swapped [of a xs b lo hi]] by (auto simp: pivot_inv_def)
  ultimately show ?thesis
    using assms bnd by (auto simp: pivot_inv_def all_in_Suc all_in_swapped nth_list_update)
qed

lemma pivot_inv_equal_right:
  assumes "pivot_inv lo hi pv xs a b c d" "b < c" "same pv (xs ! (c - 1))"
  shows "pivot_inv lo hi pv (swapped xs (c - 1) (d - 1)) a b (c - 1) (d - 1)"
proof -
  have bnd: "lo < a" "a \<le> b" "b \<le> c - 1" "c - 1 \<le> d - 1" "d - 1 < hi" "hi \<le> length xs" "0 < c" "0 < d"
    using assms(1,2) by (auto simp: pivot_inv_def)
  have "c - 1 < d - 1 \<Longrightarrow> lt pv (xs ! (d - 1))" using assms(1) bnd by (auto simp: pivot_inv_def all_in_def)
  then have "all_in (lt pv) (c - 1) (d - 1) (swapped xs (c - 1) (d - 1))"
    using assms(1) bnd by (auto simp: pivot_inv_def all_in_def nth_list_update)
  moreover have "all_in (same pv) (d - 1) hi (swapped xs (c - 1) (d - 1))"
    using assms(1,3) bnd by (auto simp: pivot_inv_def all_in_def nth_list_update)
  moreover have "\<forall>x \<in> set (swapped xs (c - 1) (d - 1)). ok x"
    using assms(1) bnd rperm_set [OF rperm_swapped [of "c - 1" xs "d - 1" lo hi]]
    by (auto simp: pivot_inv_def)
  ultimately show ?thesis
    using assms bnd by (auto simp: pivot_inv_def all_in_swapped nth_list_update)
qed

lemma pivot_inv_exchange:
  assumes "pivot_inv lo hi pv xs a b c d" "b < c - 1" "lt pv (xs ! b)" "lt (xs ! (c - 1)) pv"
  shows "pivot_inv lo hi pv (swapped xs b (c - 1)) a (Suc b) (c - 1) d"
proof -
  have bnd: "lo < a" "a \<le> b" "b < c - 1" "c - 1 < d" "d \<le> hi" "hi \<le> length xs"
    using assms(1,2) by (auto simp: pivot_inv_def)
  moreover have "\<forall>x \<in> set (swapped xs b (c - 1)). ok x"
    using assms(1) bnd rperm_set [OF rperm_swapped [of b xs "c - 1" lo hi]] by (auto simp: pivot_inv_def)
  moreover have "all_in (lt pv) (c - 1) d (swapped xs b (c - 1))"
    using assms bnd by (auto simp: pivot_inv_def all_in_def nth_list_update)
  ultimately show ?thesis
    using assms by (auto simp: pivot_inv_def all_in_Suc all_in_swapped nth_list_update)
qed

lemma doPivot_loop_spec:
  assumes "pivot_inv lo hi pv (elems data) a b c d"
  shows "\<exists>data' a' b' d'. doPivot_loop I data lo a b c d = Some (data', a', b', b', d') \<and>
     rperm (Suc lo) hi (elems data) (elems data') \<and> pivot_inv lo hi pv (elems data') a' b' b' d'"
  using assms
proof (induction "c - b" arbitrary: data a b c d rule: less_induct)
  case less
  let ?xs = "elems data" and ?R = "\<lambda>r xs. \<exists>data' a' b' d'. r = Some (data', a', b', b', d') \<and>
     rperm (Suc lo) hi xs (elems data') \<and> pivot_inv lo hi pv (elems data') a' b' b' d'"
  have bnd: "lo < a" "a \<le> b" "b \<le> c" "c \<le> d" "d \<le> hi" "hi \<le> length ?xs" and pv: "?xs ! lo = pv"
    using less.prems by (auto simp: pivot_inv_def)
  have swap: "?R (Option.bind (Swap I data p q) f) ?xs"
    if pq: "lo < p" "p < hi" "lo < q" "q < hi"
      and step: "\<And>s. elems s = swapped ?xs p q \<Longrightarrow> ?R (f s) (swapped ?xs p q)" for p q f
  proof -
    obtain s where s: "Swap I data p q = Some s" "elems s = swapped ?xs p q"
      using Swap_ex [of p data q] pq bnd by auto
    have "rperm (Suc lo) hi ?xs (swapped ?xs p q)"
      by (rule rperm_swapped) (use pq bnd in auto)
    with step [OF s(2)] s(1) show ?thesis by (auto intro: rperm_trans)
  qed
  show ?case
  proof (cases "b < c")
    case False
    with less.prems bnd show ?thesis by (subst doPivot_loop.simps) auto
  next
    case True
    have l1: "Less I data b lo = Some (lt (?xs ! b) pv)" and l2: "Less I data lo b = Some (lt pv (?xs ! b))"
      and l3: "Less I data lo (c - 1) = Some (lt pv (?xs ! (c - 1)))"
      and l4: "Less I data (c - 1) lo = Some (lt (?xs ! (c - 1)) pv)"
      using True bnd pv by (auto simp: Less_eq)
    consider (1) "lt (?xs ! b) pv" | (2) "same pv (?xs ! b)"
      | (3) "\<not> lt (?xs ! b) pv" "lt pv (?xs ! b)" "lt pv (?xs ! (c - 1))"
      | (4) "\<not> lt (?xs ! b) pv" "lt pv (?xs ! b)" "same pv (?xs ! (c - 1))"
      | (5) "\<not> lt (?xs ! b) pv" "lt pv (?xs ! b)" "\<not> lt pv (?xs ! (c - 1))" "lt (?xs ! (c - 1)) pv"
      by (auto simp: same_def)
    then show ?thesis
    proof cases
      case 1
      with less.hyps [OF _ pivot_inv_less [OF less.prems True 1]] True l1 show ?thesis
        by (subst doPivot_loop.simps) auto
    next
      case 2
      have "?R (doPivot_loop I s lo (a + 1) (b + 1) c d) (swapped ?xs a b)"
        if "elems s = swapped ?xs a b" for s
        using less.hyps [of c "Suc b" s "Suc a" d] pivot_inv_equal_left [OF less.prems True 2] True that
        by auto
      with 2 True l1 l2 bnd swap [of a b] show ?thesis
        by (subst doPivot_loop.simps) (simp add: same_def)
    next
      case 3
      with less.hyps [OF _ pivot_inv_greater [OF less.prems True 3(3)]] True l1 l2 l3 show ?thesis
        by (subst doPivot_loop.simps) auto
    next
      case 4
      have "?R (doPivot_loop I s lo a b (c - 1) (d - 1)) (swapped ?xs (c - 1) (d - 1))"
        if "elems s = swapped ?xs (c - 1) (d - 1)" for s
        using less.hyps [of "c - 1" b s a "d - 1"] pivot_inv_equal_right [OF less.prems True 4(3)] True that
        by auto
      with 4 True l1 l2 l3 l4 bnd swap [of "c - 1" "d - 1"] show ?thesis
        by (subst doPivot_loop.simps) (simp add: same_def)
    next
      case 5
      then have bc: "b < c - 1" using True by (cases "b = c - 1") auto
      have "?R (doPivot_loop I s lo a (b + 1) (c - 1) d) (swapped ?xs b (c - 1))"
        if "elems s = swapped ?xs b (c - 1)" for s
        using less.hyps [of "c - 1" "Suc b" s a d] pivot_inv_exchange [OF less.prems bc 5(2,4)] True that
        by auto
      with 5 True l1 l2 l3 l4 bnd swap [of b "c - 1"] show ?thesis
        by (subst doPivot_loop.simps) simp
    qed
  qed
qed

lemma swapRange_spec:
  assumes "a + n \<le> b" "b + n \<le> length (elems d)"
  shows "\<exists>d'. swapRange I d a b n = Some d' \<and> rperm a (b + n) (elems d) (elems d') \<and>
     blocks_swapped a b n (elems d) (elems d')"
  unfolding swapRange_def blocks_swapped_def
  using swapRange_loop_spec [of 0 n a b d, unfolded add_0_right] assms by simp

definition partitioned :: "nat \<Rightarrow> nat \<Rightarrow> nat \<Rightarrow> nat \<Rightarrow> 'a \<Rightarrow> 'a list \<Rightarrow> bool" where
  "partitioned lo mlo mhi hi pv xs \<longleftrightarrow> all_in (\<lambda>x. lt x pv) lo mlo xs \<and> all_in (same pv) mlo mhi xs \<and>
     all_in (lt pv) mhi hi xs"

lemma pivot_swap_ranges:
  assumes inv: "pivot_inv lo hi pv (elems data) a b b d"
    and n1: "n1 = min (b - a) (a - lo)" and n2: "n2 = min (hi - d) (d - b)"
  shows "\<exists>d1 d2. swapRange I data lo (b - n1) n1 = Some d1 \<and> swapRange I d1 b (hi - n2) n2 = Some d2 \<and>
     rperm lo hi (elems data) (elems d2) \<and>
     partitioned lo (lo + b - a) (hi - (d - b)) hi pv (elems d2)"
proof -
  let ?xs = "elems data"
  have bnd: "lo < a" "a \<le> b" "b \<le> d" "d \<le> hi" "hi \<le> length ?xs"
    and P: "all_in (same pv) lo a ?xs" "all_in (\<lambda>x. lt x pv) a b ?xs"
    and Q: "all_in (lt pv) b d ?xs" "all_in (same pv) d hi ?xs"
    using inv by (auto simp: pivot_inv_def)
  have "n1 \<le> b - a" "n1 \<le> a - lo" using n1 by simp_all
  then have "lo + n1 \<le> b - n1" and e1: "b - n1 + n1 = b" using bnd by linarith+
  then obtain d1 where d1: "swapRange I data lo (b - n1) n1 = Some d1" "rperm lo b ?xs (elems d1)"
    "blocks_swapped lo (b - n1) n1 ?xs (elems d1)"
    using swapRange_spec [of lo n1 "b - n1" data] bnd by auto
  have left: "all_in (\<lambda>x. lt x pv) lo (lo + (b - a)) (elems d1)" "all_in (same pv) (lo + (b - a)) b (elems d1)"
    using blocks_swapped_all_in [OF d1(3) n1 _ _ _ P] bnd by auto
  have right: "all_in (lt pv) b d (elems d1)" "all_in (same pv) d hi (elems d1)"
    using all_in_rperm_outside [OF d1(2) _ _ Q(1)] all_in_rperm_outside [OF d1(2) _ _ Q(2)] bnd by auto
  have "n2 \<le> hi - d" "n2 \<le> d - b" using n2 by simp_all
  then have "b + n2 \<le> hi - n2" and e2: "hi - n2 + n2 = hi" using bnd by linarith+
  then obtain d2 where d2: "swapRange I d1 b (hi - n2) n2 = Some d2" "rperm b hi (elems d1) (elems d2)"
    "blocks_swapped b (hi - n2) n2 (elems d1) (elems d2)"
    using swapRange_spec [of b n2 "hi - n2" d1] bnd rperm_length [OF d1(2)] by auto
  have len: "length (elems d1) = length ?xs" by (rule rperm_length [OF d1(2)])
  have "all_in (same pv) b (b + (hi - d)) (elems d2)" and gt: "all_in (lt pv) (b + (hi - d)) hi (elems d2)"
    using blocks_swapped_all_in [OF d2(3) n2 _ _ _ right] bnd len by auto
  moreover have lt: "all_in (\<lambda>x. lt x pv) lo (lo + (b - a)) (elems d2)"
    and "all_in (same pv) (lo + (b - a)) b (elems d2)"
    using all_in_rperm_outside [OF d2(2) _ _ left(1)] all_in_rperm_outside [OF d2(2) _ _ left(2)] bnd len
    by auto
  ultimately have "all_in (same pv) (lo + (b - a)) (b + (hi - d)) (elems d2)"
    by (auto simp: all_in_def)
  moreover have "lo + b - a = lo + (b - a)" "hi - (d - b) = b + (hi - d)" using bnd by auto
  moreover have "rperm lo hi ?xs (elems d2)"
    by (rule rperm_trans [OF rperm_mono [OF d1(2)] rperm_mono [OF d2(2)]]) (use bnd in auto)
  ultimately show ?thesis
    using d1(1) d2(1) lt gt by (auto simp: partitioned_def)
qed

lemma ninther_spec:
  assumes "hi \<le> length (elems d)" "lo < hi"
  shows "\<exists>d'. doPivot_ninther I d lo (lo + (hi - lo) div 2) hi = Some d' \<and> rperm lo hi (elems d) (elems d')"
proof (cases "hi - lo > 40")
  case True
  define s m where "s = (hi - lo) div 8" and "m = lo + (hi - lo) div 2"
  have s: "lo + 8 * s \<le> hi" "0 < s" and m: "lo + s \<le> m" "m < hi" "m + s < hi"
    using True unfolding s_def m_def by auto
  then have ms: "lo \<le> m - s" "m - s < hi" "lo \<le> hi - 1" "lo \<le> hi - 1 - s"
    "lo \<le> hi - 1 - 2 * s" by linarith+
  obtain d1 where 1: "medianOfThree I d lo (lo + s) (lo + 2 * s) = Some d1" "rperm lo hi (elems d) (elems d1)"
    using medianOfThree_spec [of hi d lo lo "lo + s" "lo + 2 * s"] assms s True by auto
  obtain d2 where 2: "medianOfThree I d1 m (m - s) (m + s) = Some d2" "rperm lo hi (elems d1) (elems d2)"
    using medianOfThree_spec [of hi d1 lo m "m - s" "m + s"] assms s m ms True rperm_length [OF 1(2)] by auto
  obtain d3 where 3: "medianOfThree I d2 (hi - 1) (hi - 1 - s) (hi - 1 - 2 * s) = Some d3"
    "rperm lo hi (elems d2) (elems d3)"
    using medianOfThree_spec [of hi d2 lo "hi - 1" "hi - 1 - s" "hi - 1 - 2 * s"] assms s m ms True
      rperm_length [OF 1(2)] rperm_length [OF 2(2)] by auto
  have "rperm lo hi (elems d) (elems d3)" using 1 2 3 by (blast intro: rperm_trans)
  with True 1 2 3 show ?thesis by (simp add: doPivot_ninther_def Let_def s_def m_def)
qed (simp add: doPivot_ninther_def)

lemma doPivot_spec:
  assumes "hi \<le> length (elems data)" "lo < hi" "\<forall>x \<in> set (elems data). ok x"
  shows "\<exists>data' mlo mhi pv. doPivot I data lo hi = Some (data', mlo, mhi) \<and>
     rperm lo hi (elems data) (elems data') \<and> lo \<le> mlo \<and> mlo < mhi \<and> mhi \<le> hi \<and>
     ok pv \<and> partitioned lo mlo mhi hi pv (elems data')"
proof -
  obtain d1 where d1: "doPivot_ninther I data lo (lo + (hi - lo) div 2) hi = Some d1"
    "rperm lo hi (elems data) (elems d1)"
    using ninther_spec assms by blast
  have "lo + (hi - lo) div 2 < hi" "lo \<le> hi - 1" using assms(2) by linarith+
  then obtain d2 where d2: "medianOfThree I d1 lo (lo + (hi - lo) div 2) (hi - 1) = Some d2"
    "rperm lo hi (elems d1) (elems d2)"
    using medianOfThree_spec [of hi d1 lo lo "lo + (hi - lo) div 2" "hi - 1"] assms rperm_length [OF d1(2)]
    by auto
  have rp2: "rperm lo hi (elems data) (elems d2)" using d1 d2 by (blast intro: rperm_trans)
  let ?pv = "elems d2 ! lo"
  have ok: "\<forall>x \<in> set (elems d2). ok x" and len: "length (elems d2) = length (elems data)"
    using assms rperm_set [OF rp2] rperm_length [OF rp2] by auto
  then have okpv: "ok ?pv" using assms by simp
  have "pivot_inv lo hi ?pv (elems d2) (lo + 1) (lo + 1) hi hi"
    using assms ok okpv len lt_irrefl by (auto simp: pivot_inv_def all_in_def same_def less_Suc_eq)
  then obtain d3 a b d where d3: "doPivot_loop I d2 lo (lo + 1) (lo + 1) hi hi = Some (d3, a, b, b, d)"
    "rperm (Suc lo) hi (elems d2) (elems d3)" "pivot_inv lo hi ?pv (elems d3) a b b d"
    using doPivot_loop_spec by blast
  obtain d4 d5 where d45: "swapRange I d3 lo (b - min (b - a) (a - lo)) (min (b - a) (a - lo)) = Some d4"
    "swapRange I d4 b (hi - min (hi - d) (d - b)) (min (hi - d) (d - b)) = Some d5"
    "rperm lo hi (elems d3) (elems d5)" "partitioned lo (lo + b - a) (hi - (d - b)) hi ?pv (elems d5)"
    using pivot_swap_ranges [OF d3(3) refl refl] by blast
  have "doPivot I data lo hi = Some (d5, lo + b - a, hi - (d - b))"
    unfolding doPivot_def Let_def using d1(1) d2(1) d3(1) d45(1,2) by (simp add: Let_def)
  moreover have "rperm lo hi (elems data) (elems d5)"
    using rp2 rperm_mono [OF d3(2), of lo hi] d45(3) by (auto intro: rperm_trans)
  ultimately show ?thesis
    using okpv d45(4) doPivot_bounds [of I data lo hi] assms(2) by blast
qed

lemma sorted_range_join:
  assumes "partitioned a mlo mhi b pv xs" "ok pv" "\<forall>x \<in> set xs. ok x" "b \<le> length xs"
    and "sorted_range lt a mlo xs" "sorted_range lt mhi b xs" "mlo < mhi"
  shows "sorted_range lt a b xs"
  unfolding sorted_range_def
proof (intro allI impI)
  fix i j assume ij: "a \<le> i" "i < j" "j < b"
  have ok: "ok (xs ! i)" "ok (xs ! j)" using assms(3,4) ij by auto
  have part: "\<And>k. a \<le> k \<Longrightarrow> k < mlo \<Longrightarrow> lt (xs ! k) pv" "\<And>k. mlo \<le> k \<Longrightarrow> k < mhi \<Longrightarrow> same pv (xs ! k)"
    "\<And>k. mhi \<le> k \<Longrightarrow> k < b \<Longrightarrow> lt pv (xs ! k)"
    using assms(1) by (auto simp: partitioned_def all_in_def)
  consider "j < mlo" | "mhi \<le> i" | "i < mhi" "mlo \<le> j" using ij by linarith
  then show "\<not> lt (xs ! j) (xs ! i)"
  proof cases
    case 1
    with assms(5) ij show ?thesis by (simp add: sorted_range_def)
  next
    case 2
    with assms(6) ij show ?thesis by (simp add: sorted_range_def)
  next
    case 3
    have "\<not> lt pv (xs ! i)"
      using part(1) [of i] part(2) [of i] 3 ij lt_asym [OF ok(1) assms(2)] by (cases "i < mlo") (auto simp: same_def)
    moreover have "\<not> lt (xs ! j) pv"
      using part(2) [of j] part(3) [of j] 3 ij lt_asym [OF assms(2) ok(2)] by (cases "j < mhi") (auto simp: same_def)
    ultimately show ?thesis using le_trans [OF ok(1) assms(2) ok(2)] by blast
  qed
qed

lemma quickSort_spec:
  assumes "b \<le> length (elems data)" "\<forall>x \<in> set (elems data). ok x"
  shows "\<exists>data'. quickSort I data a b = Some data' \<and> rperm a b (elems data) (elems data') \<and>
     sorted_range lt a b (elems data')"
  using assms
proof (induction "b - a" arbitrary: data a b rule: less_induct)
  case less
  show ?case
  proof (cases "b - a > 7")
    case False
    show ?thesis
    proof (cases "b - a > 1")
      case True
      with False insertionSort_spec [OF less.prems, of a] show ?thesis
        by (subst quickSort.simps) auto
    next
      case small: False
      then have "sorted_range lt a b (elems data)" by (auto simp: sorted_range_def)
      with False small show ?thesis by (subst quickSort.simps) auto
    qed
  next
    case True
    obtain d1 mlo mhi pv where d1: "doPivot I data a b = Some (d1, mlo, mhi)"
      "rperm a b (elems data) (elems d1)" and m: "a \<le> mlo" "mlo < mhi" "mhi \<le> b"
      and pv: "ok pv" "partitioned a mlo mhi b pv (elems d1)"
      using doPivot_spec [OF less.prems(1) _ less.prems(2), of a] True by force
    have len1: "length (elems d1) = length (elems data)" and ok1: "\<forall>x \<in> set (elems d1). ok x"
      using rperm_length [OF d1(2)] rperm_set [OF d1(2)] less.prems(2) by auto
    have both: "\<exists>s. (quickSort I d1 p1 q1 \<bind> (\<lambda>d. quickSort I d p2 q2)) = Some s \<and>
        rperm a b (elems d1) (elems s) \<and> partitioned a mlo mhi b pv (elems s) \<and>
        sorted_range lt a mlo (elems s) \<and> sorted_range lt mhi b (elems s)"
      if pq: "{(p1, q1), (p2, q2)} = {(a, mlo), (mhi, b)}" for p1 q1 p2 q2
    proof -
      have c: "p1 = a \<and> q1 = mlo \<and> p2 = mhi \<and> q2 = b \<or> p1 = mhi \<and> q1 = b \<and> p2 = a \<and> q2 = mlo"
        using pq m by (auto simp: doubleton_eq_iff)
      have sm: "q1 - p1 < b - a" "q2 - p2 < b - a" "q1 \<le> b" "q2 \<le> b"
        using c
      proof (atomize (full), elim disjE conjE)
      qed (use m True in \<open>simp_all, linarith+\<close>)
      obtain d2 where d2: "quickSort I d1 p1 q1 = Some d2" "rperm p1 q1 (elems d1) (elems d2)"
        "sorted_range lt p1 q1 (elems d2)"
        using less.hyps [OF sm(1), of d1] sm(3) len1 ok1 less.prems(1) by auto
      have len2: "length (elems d2) = length (elems data)" and ok2: "\<forall>x \<in> set (elems d2). ok x"
        using rperm_length [OF d2(2)] rperm_set [OF d2(2)] len1 ok1 by auto
      obtain d3 where d3: "quickSort I d2 p2 q2 = Some d3" "rperm p2 q2 (elems d2) (elems d3)"
        "sorted_range lt p2 q2 (elems d3)"
        using less.hyps [OF sm(2), of d2] sm(4) len2 ok2 less.prems(1) by auto
      have keep: "partitioned a mlo mhi b pv (elems s)" if "partitioned a mlo mhi b pv (elems r)"
        "rperm p q (elems r) (elems s)" "p = a \<and> q = mlo \<or> p = mhi \<and> q = b"
        "length (elems r) = length (elems data)" for r s p q
        using that m less.prems(1) all_in_rperm [of p q "elems r" "elems s"]
          all_in_rperm_outside [of p q "elems r" "elems s"]
        by (auto simp: partitioned_def)
      have "partitioned a mlo mhi b pv (elems d3)"
        using keep [OF keep [OF pv(2) d2(2)] d3(2)] c len1 len2 by auto
      moreover have "sorted_range lt p1 q1 (elems d3)"
        unfolding sorted_range_def
      proof (intro allI impI)
        fix i j assume "p1 \<le> i" "i < j" "j < q1"
        moreover from this have "elems d3 ! i = elems d2 ! i" "elems d3 ! j = elems d2 ! j"
          using rperm_outside [OF d3(2)] c m len2 less.prems(1) by auto
        ultimately show "\<not> lt (elems d3 ! j) (elems d3 ! i)" using d2(3) by (simp add: sorted_range_def)
      qed
      moreover have "rperm a b (elems d1) (elems d3)"
        by (rule rperm_trans [OF rperm_mono [OF d2(2)] rperm_mono [OF d3(2)]]) (use c m in auto)
      ultimately show ?thesis using d2(1) d3(1,3) c by auto
    qed
    have "\<exists>s. quickSort I data a b = Some s \<and> rperm a b (elems d1) (elems s) \<and>
      partitioned a mlo mhi b pv (elems s) \<and> sorted_range lt a mlo (elems s) \<and> sorted_range lt mhi b (elems s)"
      using both [of a mlo mhi b] both [of mhi b a mlo] True d1(1)
      by (subst quickSort.simps) (simp add: insert_commute)
    then obtain s where s: "quickSort I data a b = Some s" "rperm a b (elems d1) (elems s)"
      "partitioned a mlo mhi b pv (elems s)" "sorted_range lt a mlo (elems s)" "sorted_range lt mhi b (elems s)"
      by blast
    have "sorted_range lt a b (elems s)"
      using sorted_range_join [OF s(3) pv(1)] s(4,5) m(2) rperm_length [OF s(2)] rperm_set [OF s(2)]
        len1 ok1 less.prems(1) by auto
    with s d1(2) show ?thesis by (auto intro: rperm_trans)
  qed
qed

lemma Sort_spec:
  assumes "\<forall>x \<in> set (elems data). ok x"
  shows "\<exists>data'. Sort I data = Some data' \<and> mset (elems data') = mset (elems data) \<and>
     sorted_wrt (le_of lt) (elems data')"
  using quickSort_spec [of "length (elems data)" data 0] assms
  by (auto simp: Sort_def Len_eq rperm_def simp flip: sorted_range_sorted_wrt)

lemma IsSorted_loop_spec:
  "i < length (elems d) \<Longrightarrow>
     IsSorted_loop I d i = Some (\<forall>k < i. \<not> lt (elems d ! Suc k) (elems d ! k))"
proof (induction i)
  case 0
  then show ?case by (subst IsSorted_loop.simps) simp
next
  case (Suc i)
  then show ?case by (subst IsSorted_loop.simps) (auto simp: Less_eq less_Suc_eq)
qed

lemma IsSorted_spec:
  assumes "\<forall>x \<in> set (elems data). ok x"
  shows "IsSorted I data = Some (sorted_wrt (le_of lt) (elems data))"
proof (cases "elems data = []")
  case True
  then show ?thesis by (simp add: IsSorted_def Len_eq IsSorted_loop.simps)
next
  case False
  let ?xs = "elems data"
  have "(\<forall>k < length ?xs - 1. \<not> lt (?xs ! Suc k) (?xs ! k)) \<longleftrightarrow> sorted_wrt (le_of lt) ?xs"
  proof
    assume step: "\<forall>k < length ?xs - 1. \<not> lt (?xs ! Suc k) (?xs ! k)"
    have "\<not> lt (?xs ! j) (?xs ! i)" if "i < j" "j < length ?xs" for i j
      using that
    proof (induction j)
      case (Suc j)
      then show ?case
        using step le_trans [of "?xs ! i" "?xs ! j" "?xs ! Suc j"] assms by (cases "i = j") auto
    qed simp
    then show "sorted_wrt (le_of lt) ?xs" by (simp add: sorted_wrt_iff_nth_less le_of_def)
  next
    assume "sorted_wrt (le_of lt) ?xs"
    then show "\<forall>k < length ?xs - 1. \<not> lt (?xs ! Suc k) (?xs ! k)"
      by (simp add: sorted_wrt_iff_nth_less le_of_def)
  qed
  with False show ?thesis by (simp add: IsSorted_def Len_eq IsSorted_loop_spec)
qed

end

section \<open>The array types implement the interface\<close>

lemma array_Swap_ex:
  "i < length p \<Longrightarrow> j < length p \<Longrightarrow> \<exists>p'. array_Swap p i j = Some p' \<and> p' = swapped p i j"
  by (simp add: array_Swap_def)

lemma linorder_negtrans: "(x :: 'a :: linorder) < z \<Longrightarrow> x < y \<or> y < z"
  using less_le_trans not_less by blast

interpretation ints: sort_interface IntArray "\<lambda>s. s" "\<lambda>_. True" "(<)"
  by unfold_locales (auto simp: IntArray_def array_Less_def array_Swap_ex dest: linorder_negtrans)

interpretation strs: sort_interface StringArray "\<lambda>s. s" "\<lambda>_. True" "(<)"
  by unfold_locales (auto simp: StringArray_def array_Less_def array_Swap_ex dest: linorder_negtrans)

interpretation floats: sort_interface Float64Array "\<lambda>s. s" "\<lambda>x. \<not> float64_isNaN x" float64_less
  by unfold_locales (auto simp: Float64Array_def array_Less_def array_Swap_ex float64_less_def)

lemma sorted_wrt_le_of_less:
  "sorted_wrt (le_of (<)) xs \<longleftrightarrow> sorted (xs :: 'a :: linorder list)"
  by (simp add: le_of_def [abs_def] not_less)

lemma sort_eqI: "mset ys = mset xs \<Longrightarrow> sorted ys \<Longrightarrow> ys = sort xs"
  using properties_for_sort by metis

section \<open>Binary search finds the boundary\<close>

definition boundary :: "(nat \<Rightarrow> bool) \<Rightarrow> nat \<Rightarrow> nat \<Rightarrow> nat \<Rightarrow> bool" where
  "boundary P lo hi r \<longleftrightarrow> lo \<le> r \<and> r \<le> hi \<and> (\<forall>k. lo \<le> k \<and> k < r \<longrightarrow> \<not> P k) \<and> (\<forall>k. r \<le> k \<and> k < hi \<longrightarrow> P k)"

lemma Search_loop_spec:
  assumes "\<And>k. i \<le> k \<Longrightarrow> k < j \<Longrightarrow> f k = Some (P k)" "i \<le> j"
    and "\<And>k l. i \<le> k \<Longrightarrow> k \<le> l \<Longrightarrow> l < j \<Longrightarrow> P k \<Longrightarrow> P l"
  shows "\<exists>r. Search_loop f i j = Some r \<and> boundary P i j r"
  using assms
proof (induction f i j rule: Search_loop.induct)
  case (1 f i j)
  show ?case
  proof (cases "i < j")
    case False
    with "1.prems"(2) show ?thesis by (subst Search_loop.simps) (auto simp: boundary_def)
  next
    case True
    define h where "h = i + (j - i) div 2"
    have h: "i \<le> h" "h < j" using True by (auto simp: h_def)
    have fh: "f h = Some (P h)" using "1.prems"(1) h by blast
    show ?thesis
    proof (cases "P h")
      case P: False
      have "\<exists>r. Search_loop f (h + 1) j = Some r \<and> boundary P (h + 1) j r"
      proof (rule "1.IH"(1) [OF True h_def fh P])
        show "f k = Some (P k)" if "h + 1 \<le> k" "k < j" for k using "1.prems"(1) [of k] that h by simp
        show "P l" if "h + 1 \<le> k" "k \<le> l" "l < j" "P k" for k l using "1.prems"(3) [of k l] that h by simp
      qed (use h in simp)
      then obtain r where r: "Search_loop f (h + 1) j = Some r" "boundary P (h + 1) j r" by blast
      have "\<not> P k" if "i \<le> k" "k < r" for k
        using "1.prems"(3) [of k h] that h P r(2) by (cases "k \<le> h") (auto simp: boundary_def)
      then have "boundary P i j r"
        using r(2) h by (auto simp: boundary_def)
      with r(1) True fh P show ?thesis by (subst Search_loop.simps) (simp add: h_def Let_def)
    next
      case P: True
      have "\<exists>r. Search_loop f i h = Some r \<and> boundary P i h r"
      proof (rule "1.IH"(2) [OF True h_def fh])
        show "f k = Some (P k)" if "i \<le> k" "k < h" for k using "1.prems"(1) [of k] that h by simp
        show "P l" if "i \<le> k" "k \<le> l" "l < h" "P k" for k l using "1.prems"(3) [of k l] that h by simp
      qed (use P h in simp_all)
      then obtain r where r: "Search_loop f i h = Some r" "boundary P i h r" by blast
      have "P k" if "r \<le> k" "k < j" for k
        using "1.prems"(3) [of h k] that h P r(2) by (cases "h \<le> k") (auto simp: boundary_def)
      then have "boundary P i j r"
        using r(2) h by (auto simp: boundary_def)
      with r(1) True fh P show ?thesis by (subst Search_loop.simps) (simp add: h_def Let_def)
    qed
  qed
qed

lemma array_Search_spec:
  assumes "\<And>k l. k \<le> l \<Longrightarrow> l < length a \<Longrightarrow> ge (a ! k) x \<Longrightarrow> ge (a ! l) x"
  shows "\<exists>r. Search (length a) (array_ge ge a x) = Some r \<and> boundary (\<lambda>k. ge (a ! k) x) 0 (length a) r"
  unfolding Search_def
  by (rule Search_loop_spec) (use assms in \<open>auto simp: array_ge_def\<close>)

section \<open>Properties\<close>

text \<open>C1: \<open>sort.Sort\<close> on any collection that keeps the contract of \<open>sort.Interface\<close> (its \<open>Less\<close> a
  strict weak order on the elements present) returns without indexing out of range, and leaves a
  sorted rearrangement of the elements it was given.\<close>

theorem Sort_correct:
  assumes "sort_interface I elems ok lt" and "\<forall>x \<in> set (elems data). ok x"
  shows "\<exists>data'. Sort I data = Some data' \<and> mset (elems data') = mset (elems data) \<and>
     sorted_wrt (\<lambda>x y. \<not> lt y x) (elems data')"
  using sort_interface.Sort_spec [OF assms] by (simp add: le_of_def [abs_def])

theorem Sort_correct_witness:
  "\<exists>data'. Sort IntArray [3, 1, 2] = Some data' \<and> mset data' = mset [3, 1, 2] \<and>
     sorted_wrt (\<lambda>x y. \<not> y < x) data'"
  using Sort_correct [OF ints.sort_interface_axioms, of "[3, 1, 2]"] by simp

text \<open>\<open>SortInts\<close> and \<open>SortStrings\<close> compute the sorted permutation of their argument.\<close>

theorem SortInts_SortStrings_sort:
  "SortInts a = Some (sort a) \<and> SortStrings s = Some (sort s)"
proof
  show "SortInts a = Some (sort a)"
    using ints.Sort_spec [of a] by (auto simp: SortInts_def sorted_wrt_le_of_less dest: sort_eqI)
  show "SortStrings s = Some (sort s)"
    using strs.Sort_spec [of s] by (auto simp: SortStrings_def sorted_wrt_le_of_less dest: sort_eqI)
qed

text \<open>\<open>SortFloat64s\<close> of a slice without NaN returns a rearrangement in which no element is less
  than an earlier one.\<close>

theorem SortFloat64s_sorted:
  assumes "list_all (\<lambda>x. \<not> float64_isNaN x) a"
  shows "\<exists>b. SortFloat64s a = Some b \<and> mset b = mset a \<and> sorted_wrt (\<lambda>x y. \<not> float64_less y x) b"
  using floats.Sort_spec [of a] assms by (auto simp: SortFloat64s_def list_all_iff le_of_def [abs_def])

theorem SortFloat64s_sorted_witness:
  "\<exists>b. SortFloat64s [0x4000000000000000, 0xBFF0000000000000, 0] = Some b \<and>
     mset b = mset [0x4000000000000000, 0xBFF0000000000000, 0] \<and>
     sorted_wrt (\<lambda>x y. \<not> float64_less y x) b"
  by (rule SortFloat64s_sorted) (simp add: float64_isNaN_def)

text \<open>\<open>IsSorted\<close> decides sortedness exactly on the array types: it is true of a slice of ints or
  strings if and only if the slice is sorted.\<close>

theorem AreSorted_iff:
  "IntsAreSorted a = Some (sorted a) \<and> StringsAreSorted s = Some (sorted s)"
  by (simp add: IntsAreSorted_def StringsAreSorted_def ints.IsSorted_spec strs.IsSorted_spec
      sorted_wrt_le_of_less)

text \<open>\<open>SearchInts\<close> on a sorted slice returns the first index whose element is at least \<open>x\<close>, or
  the length of the slice when there is none; it never indexes out of range.\<close>

theorem SearchInts_first:
  assumes "sorted a"
  shows "\<exists>r. SearchInts a x = Some r \<and> r \<le> length a \<and> (\<forall>k < r. a ! k < x) \<and>
     (\<forall>k. r \<le> k \<and> k < length a \<longrightarrow> x \<le> a ! k)"
proof -
  have "a ! k \<le> a ! l" if "k \<le> l" "l < length a" for k l
    using assms that by (simp add: sorted_nth_mono)
  then have "\<exists>r. SearchInts a x = Some r \<and> boundary (\<lambda>k. x \<le> a ! k) 0 (length a) r"
    unfolding SearchInts_def by (intro array_Search_spec) (meson order_trans)
  then show ?thesis by (auto simp: boundary_def not_le)
qed

theorem SearchInts_first_witness:
  "sorted [1, 3, 5 :: int] \<and> (\<exists>r. SearchInts [1, 3, 5] 4 = Some r \<and> r \<le> length [1, 3, 5 :: int] \<and>
     (\<forall>k < r. [1, 3, 5] ! k < (4 :: int)) \<and> (\<forall>k. r \<le> k \<and> k < length [1, 3, 5 :: int] \<longrightarrow> 4 \<le> [1, 3, 5 :: int] ! k))"
  using SearchInts_first [of "[1, 3, 5]" 4] by simp

end
