(* ===== verification/Go_Heap.thy ===== *)
theory Go_Heap
  imports Go_Sort
begin

text \<open>
  Package \<open>container/heap\<close>: \<open>heap.go\<close>.

  \<open>heap.Interface\<close> extends the record of \<open>sort.Interface\<close> with \<open>Push\<close> and \<open>Pop\<close>. \<open>up\<close> and \<open>down\<close> are
  the two sifting loops, and \<open>Init\<close>, \<open>Push\<close>, \<open>Pop\<close> and \<open>Remove\<close> the package's functions. An index
  \<open>h.Len() - 1\<close> of an empty heap is -1, which no collection holds: \<open>Pop\<close> and \<open>Remove\<close> of an empty
  heap panic in \<open>h.Swap\<close>.
\<close>

record ('s, 'x) heap_Interface = "'s sort_Interface" +
  hPush :: "'s \<Rightarrow> 'x \<Rightarrow> 's option"
  hPop :: "'s \<Rightarrow> ('x \<times> 's) option"

section \<open>Sifting\<close>

function up :: "('s, 'm) sort_Interface_scheme \<Rightarrow> 's \<Rightarrow> nat \<Rightarrow> 's option" where
  "up I h j = (let i = (j - 1) div 2 in
     if i = j then Some h
     else do {
       l \<leftarrow> Less I h i j;
       if l then Some h else do { h \<leftarrow> Swap I h i j; up I h i }
     })"
  by pat_completeness auto
termination
  by (relation "measure (\<lambda>(I, h, j). j)") auto

text \<open>In \<open>down\<close> the indices of the children are \<open>int\<close>s of 32 bits: from \<open>i = 2 ^ 30\<close> on \<open>2*i + 1\<close> wraps around to a
  negative number, which is below \<open>n\<close> and no index of a collection, so that \<open>h.Less\<close> panics.\<close>

definition Less_at :: "('s, 'm) sort_Interface_scheme \<Rightarrow> 's \<Rightarrow> int \<Rightarrow> int \<Rightarrow> bool option" where
  "Less_at I h i j = (if i < 0 \<or> j < 0 then None else Less I h (nat i) (nat j))"

lemma int32_nonneg: "0 \<le> x \<Longrightarrow> x < 2 ^ 32 \<Longrightarrow> 0 \<le> int32 x \<Longrightarrow> int32 x = x"
proof (cases "x < 2 ^ 31")
  case False
  assume x: "0 \<le> x" "x < 2 ^ 32" "0 \<le> int32 x"
  have "(x + 2 ^ 31) mod 2 ^ 32 = (x + 2 ^ 31 - 2 ^ 32) mod 2 ^ 32" by (simp only: minus_mod_self2)
  also have "\<dots> = x + 2 ^ 31 - 2 ^ 32" using x False by (intro mod_pos_pos_trivial) simp_all
  finally show ?thesis using x by (simp add: int32_mod)
qed (simp add: is_int32_def)

text \<open>An index of the next round of \<open>down\<close> is an \<open>int\<close> above the one of this round, if that was an \<open>int\<close> at all.\<close>

definition down_left :: "nat \<Rightarrow> nat \<Rightarrow> nat" where
  "down_left n i = (if i < 2 ^ 31 then n - i else Suc n)"

lemma down_left_less:
  assumes "int32 (2 * int i + 1) < int n" "Less_at I h (int i) j = Some l"
    "j = int32 (2 * int i + 1) \<or> j = int32 (int32 (2 * int i + 1) + 1) \<and> j < int n \<and> 0 \<le> int32 (2 * int i + 1)"
  shows "down_left n (nat j) < down_left n i" "nat j < n" "i < 2 ^ 31 \<Longrightarrow> i < nat j"
proof -
  let ?a = "int32 (2 * int i + 1)"
  have j: "0 \<le> j" using assms(2) by (auto simp: Less_at_def split: if_splits)
  have b: "?a < 2 ^ 31" "int32 x < 2 ^ 31" for x using is_int32_int32 by (simp_all add: is_int32_def)
  have "j < 2 ^ 31" "j < int n" using assms(1,3) b by blast+
  then have lt: "nat j < 2 ^ 31" "nat j < n" using j by (simp_all add: nat_less_iff)
  show gt: "i < nat j" if i: "i < 2 ^ 31"
  proof -
    have a: "0 \<le> ?a \<Longrightarrow> ?a = 2 * int i + 1" using i by (intro int32_nonneg) simp_all
    moreover have "0 \<le> ?a \<Longrightarrow> 0 \<le> int32 (?a + 1) \<Longrightarrow> int32 (?a + 1) = ?a + 1" using b(1) by (intro int32_nonneg) simp_all
    ultimately show ?thesis using assms(3) j by auto
  qed
  show "nat j < n" by (rule lt(2))
  show "down_left n (nat j) < down_left n i" using lt gt by (simp add: down_left_def) linarith
qed

function down :: "('s, 'm) sort_Interface_scheme \<Rightarrow> 's \<Rightarrow> nat \<Rightarrow> nat \<Rightarrow> 's option" where
  "down I h i n = (let j1 = int32 (2 * int i + 1) in
     if j1 \<ge> int n then Some h
     else do {
       let j2 = int32 (j1 + 1);
       r \<leftarrow> (if j2 < int n then do { l \<leftarrow> Less_at I h j1 j2; Some (\<not> l) } else Some False);
       let j = (if r then j2 else j1);
       l \<leftarrow> Less_at I h (int i) j;
       if l then Some h else do { h \<leftarrow> Swap I h i (nat j); down I h (nat j) n }
     })"
  by pat_completeness auto

termination
proof (relation "measure (\<lambda>(I, h, i, n). down_left n i)", goal_cases)
  case (2 I h i n j1 j2 r j l h')
  then have "j = int32 (2 * int i + 1) \<or> j = int32 (int32 (2 * int i + 1) + 1) \<and> j < int n \<and> 0 \<le> int32 (2 * int i + 1)"
    by (cases r) (auto simp: Less_at_def Let_def split: if_splits Option.bind_splits)
  with 2 show ?case by (simp add: down_left_less)
qed simp

declare up.simps [simp del] down.simps [simp del]

section \<open>The heap operations\<close>

fun Init_loop :: "('s, 'm) sort_Interface_scheme \<Rightarrow> 's \<Rightarrow> nat \<Rightarrow> nat \<Rightarrow> 's option" where
  "Init_loop I h n 0 = Some h"
| "Init_loop I h n (Suc i) = do { h \<leftarrow> down I h i n; Init_loop I h n i }"

definition heap_Init :: "('s, 'm) sort_Interface_scheme \<Rightarrow> 's \<Rightarrow> 's option" where
  "heap_Init I h = (let n = Len I h in Init_loop I h n (n div 2))"

definition heap_Push :: "('s, 'x, 'm) heap_Interface_scheme \<Rightarrow> 's \<Rightarrow> 'x \<Rightarrow> 's option" where
  "heap_Push I h x = do { h \<leftarrow> hPush I h x; up I h (Len I h - 1) }"

definition heap_Pop :: "('s, 'x, 'm) heap_Interface_scheme \<Rightarrow> 's \<Rightarrow> ('x \<times> 's) option" where
  "heap_Pop I h =
     (if Len I h = 0 then None
      else (let n = Len I h - 1 in do {
        h \<leftarrow> Swap I h 0 n;
        h \<leftarrow> down I h 0 n;
        hPop I h
      }))"

definition heap_Remove :: "('s, 'x, 'm) heap_Interface_scheme \<Rightarrow> 's \<Rightarrow> nat \<Rightarrow> ('x \<times> 's) option" where
  "heap_Remove I h i =
     (if Len I h = 0 then None
      else (let n = Len I h - 1 in do {
        h \<leftarrow> (if n \<noteq> i then do {
               h \<leftarrow> Swap I h i n;
               h \<leftarrow> down I h i n;
               up I h i
             } else Some h);
        hPop I h
      }))"

section \<open>The heap invariant\<close>

definition par :: "nat \<Rightarrow> nat" where
  "par j = (j - 1) div 2"

lemma par_less: "0 < j \<Longrightarrow> par j < j"
  by (auto simp: par_def)

lemma par_children: "par (2 * i + 1) = i" "par (2 * i + 2) = i"
  by (simp_all add: par_def)

lemma par_eqD: "par j = i \<Longrightarrow> 0 < j \<Longrightarrow> j = 2 * i + 1 \<or> j = 2 * i + 2"
  by (auto simp: par_def)

text \<open>\<open>okp lt xs n E\<close>: in the first \<open>n\<close> elements no child is less than its parent, apart from the
  children in \<open>E\<close>.\<close>

definition okp :: "('a \<Rightarrow> 'a \<Rightarrow> bool) \<Rightarrow> 'a list \<Rightarrow> nat \<Rightarrow> (nat \<Rightarrow> bool) \<Rightarrow> bool" where
  "okp lt xs n E \<longleftrightarrow> (\<forall>j. 0 < j \<longrightarrow> j < n \<longrightarrow> \<not> E j \<longrightarrow> \<not> lt (xs ! j) (xs ! par j))"

definition is_heap :: "('a \<Rightarrow> 'a \<Rightarrow> bool) \<Rightarrow> 'a list \<Rightarrow> bool" where
  "is_heap lt xs \<longleftrightarrow> okp lt xs (length xs) (\<lambda>_. False)"

lemma okpD: "okp lt xs n E \<Longrightarrow> 0 < j \<Longrightarrow> j < n \<Longrightarrow> \<not> E j \<Longrightarrow> \<not> lt (xs ! j) (xs ! par j)"
  by (simp add: okp_def)

lemma okpI: "(\<And>j. 0 < j \<Longrightarrow> j < n \<Longrightarrow> \<not> E j \<Longrightarrow> \<not> lt (xs ! j) (xs ! par j)) \<Longrightarrow> okp lt xs n E"
  by (simp add: okp_def)

text \<open>The contract of \<open>heap.Interface\<close>: a representation invariant \<open>inv\<close> that all four methods that
  change the collection keep, \<open>Push\<close> appends an element and \<open>Pop\<close> takes the last one away. \<open>val s x\<close> is
  the value the collection sees for the element \<open>x\<close>.\<close>

locale heap_interface = sort_interface I elems ok lt
  for I :: "('s, 'x, 'm) heap_Interface_scheme" and elems :: "'s \<Rightarrow> 'a list"
    and ok :: "'a \<Rightarrow> bool" and lt :: "'a \<Rightarrow> 'a \<Rightarrow> bool" +
  fixes inv :: "'s \<Rightarrow> bool" and fresh :: "'s \<Rightarrow> 'x \<Rightarrow> bool" and val :: "'s \<Rightarrow> 'x \<Rightarrow> 'a"
  assumes Swap_keeps: "inv s \<Longrightarrow> i < length (elems s) \<Longrightarrow> j < length (elems s) \<Longrightarrow>
      Swap I s i j = Some s' \<Longrightarrow> inv s' \<and> val s' = val s"
    and hPush_ex: "inv s \<Longrightarrow> fresh s x \<Longrightarrow>
      \<exists>s'. hPush I s x = Some s' \<and> inv s' \<and> elems s' = elems s @ [val s x] \<and> val s' = val s"
    and hPop_ex: "inv s \<Longrightarrow> elems s \<noteq> [] \<Longrightarrow>
      \<exists>x s'. hPop I s = Some (x, s') \<and> inv s' \<and> elems s' = butlast (elems s) \<and>
        val s x = last (elems s) \<and> val s' = val s"
begin

text \<open>What every sifting step keeps: the elements as a permutation of positions below \<open>n\<close>.\<close>

definition kept :: "nat \<Rightarrow> nat \<Rightarrow> 's \<Rightarrow> 's \<Rightarrow> bool" where
  "kept a n s s' \<longleftrightarrow> rperm a n (elems s) (elems s') \<and> inv s' \<and> val s' = val s"

lemma kept_refl: "inv s \<Longrightarrow> kept a n s s"
  by (simp add: kept_def)

lemma kept_trans: "kept a n s t \<Longrightarrow> kept a n t u \<Longrightarrow> kept a n s u"
  by (auto simp: kept_def intro: rperm_trans)

lemma kept_mono: "kept a n s t \<Longrightarrow> a' \<le> a \<Longrightarrow> n \<le> n' \<Longrightarrow> kept a' n' s t"
  by (auto simp: kept_def intro: rperm_mono)

lemma kept_length: "kept a n s t \<Longrightarrow> length (elems t) = length (elems s)"
  by (auto simp: kept_def dest: rperm_length)

lemma kept_ok: "kept a n s t \<Longrightarrow> \<forall>x \<in> set (elems s). ok x \<Longrightarrow> \<forall>x \<in> set (elems t). ok x"
  by (auto simp: kept_def dest: rperm_set)

lemma kept_inv: "kept a n s t \<Longrightarrow> inv t"
  by (simp add: kept_def)

lemma Swap_kept:
  assumes "inv s" "a \<le> i" "a \<le> j" "i < n" "j < n" "n \<le> length (elems s)"
  obtains s' where "Swap I s i j = Some s'" "elems s' = swapped (elems s) i j" "kept a n s s'"
proof -
  obtain s' where s': "Swap I s i j = Some s'" "elems s' = swapped (elems s) i j"
    using Swap_ex [of i s j] assms by auto
  moreover have "kept a n s s'"
    using Swap_keeps [OF assms(1) _ _ s'(1)] rperm_swapped [of i "elems s" j a n] s'(2) assms
    by (auto simp: kept_def)
  ultimately show ?thesis by (rule that)
qed

lemma okp_swap_down:
  assumes h: "okp lt xs n (\<lambda>c. E c \<or> par c = i)" and n: "n \<le> length xs" and ok: "\<forall>x \<in> set xs. ok x"
    and j: "par j = i" "0 < j" "j < n"
    and sib: "\<And>c. par c = i \<Longrightarrow> 0 < c \<Longrightarrow> c < n \<Longrightarrow> \<not> lt (xs ! c) (xs ! j)"
    and swp: "\<not> lt (xs ! i) (xs ! j)"
    and gp: "0 < i \<Longrightarrow> \<not> E i \<Longrightarrow> \<not> lt (xs ! j) (xs ! par i)"
  shows "okp lt (swapped xs i j) n (\<lambda>c. E c \<or> par c = j)"
proof (rule okpI)
  fix c assume c: "0 < c" "c < n" "\<not> (E c \<or> par c = j)"
  have ij: "i < j" using j par_less by blast
  have nth: "swapped xs i j ! k = (if k = i then xs ! j else if k = j then xs ! i else xs ! k)"
    if "k < n" for k
    using that n ij j(3) by (simp add: nth_list_update)
  have pc: "par c < c" by (rule par_less [OF c(1)])
  consider "c = j" | "c \<noteq> j" "par c = i" | "c = i" | "c \<noteq> i" "c \<noteq> j" "par c \<noteq> i" by blast
  then show "\<not> lt (swapped xs i j ! c) (swapped xs i j ! par c)"
  proof cases
    case 1
    then show ?thesis using nth [of c] nth [of "par c"] c pc j(1) ij swp by simp
  next
    case 2
    then show ?thesis using nth [of c] nth [of "par c"] c pc ij sib [of c] by simp
  next
    case 3
    then show ?thesis using nth [of c] nth [of "par c"] c pc ij gp by simp
  next
    case 4
    then show ?thesis using nth [of c] nth [of "par c"] c pc okpD [OF h, of c] by simp
  qed
qed

lemma okp_swap_up:
  assumes h: "okp lt xs n (\<lambda>c. c = j)" and n: "n \<le> length xs" and ok: "\<forall>x \<in> set xs. ok x"
    and j: "0 < j" "j < n" and swp: "\<not> lt (xs ! par j) (xs ! j)"
    and gp: "\<And>c. par c = j \<Longrightarrow> c < n \<Longrightarrow> \<not> lt (xs ! c) (xs ! par j)"
  shows "okp lt (swapped xs (par j) j) n (\<lambda>c. c = par j)"
proof (rule okpI)
  fix c assume c: "0 < c" "c < n" "c \<noteq> par j"
  let ?i = "par j"
  have ij: "?i < j" by (rule par_less [OF j(1)])
  have nth: "swapped xs ?i j ! k = (if k = ?i then xs ! j else if k = j then xs ! ?i else xs ! k)"
    if "k < n" for k
    using that n ij j(2) by (simp add: nth_list_update)
  have pc: "par c < c" by (rule par_less [OF c(1)])
  have okk: "ok (xs ! k)" if "k < n" for k using ok n that by simp
  consider "c = j" | "c \<noteq> j" "par c = ?i" | "par c = j" | "c \<noteq> j" "par c \<noteq> ?i" "par c \<noteq> j" by blast
  then show "\<not> lt (swapped xs ?i j ! c) (swapped xs ?i j ! par c)"
  proof cases
    case 1
    then show ?thesis using nth [of c] nth [of "par c"] c pc swp by simp
  next
    case 2
    have "\<not> lt (xs ! c) (xs ! ?i)" using okpD [OF h c(1,2)] 2 by simp
    then have "\<not> lt (xs ! c) (xs ! j)"
      using le_trans [OF okk okk okk swp, of c] c j(2) ij by auto
    then show ?thesis using 2 nth [of c] nth [of "par c"] c pc by simp
  next
    case 3
    then show ?thesis using nth [of c] nth [of "par c"] c pc ij gp [of c] by simp
  next
    case 4
    then show ?thesis using nth [of c] nth [of "par c"] c pc okpD [OF h, of c] by simp
  qed
qed

lemma up_spec:
  assumes "inv h" "j < n" "n \<le> length (elems h)" "\<forall>x \<in> set (elems h). ok x"
    "okp lt (elems h) n (\<lambda>c. c = j)"
    "\<And>c. 0 < j \<Longrightarrow> par c = j \<Longrightarrow> c < n \<Longrightarrow> \<not> lt (elems h ! c) (elems h ! par j)"
  shows "\<exists>h'. up I h j = Some h' \<and> kept 0 n h h' \<and> okp lt (elems h') n (\<lambda>_. False)"
  using assms
proof (induction j arbitrary: h rule: less_induct)
  case (less j)
  let ?xs = "elems h"
  note n = less.prems(3) and ok = less.prems(4)
  have okk: "ok (?xs ! k)" if "k < n" for k using ok n that by simp
  show ?case
  proof (cases "0 < j")
    case False
    then have "okp lt ?xs n (\<lambda>_. False)" using less.prems(5) by (simp add: okp_def)
    with False less.prems(1) show ?thesis by (subst up.simps) (simp add: kept_refl)
  next
    case j: True
    let ?i = "par j"
    have ij: "?i < j" by (rule par_less [OF j])
    have L: "Less I h ?i j = Some (lt (?xs ! ?i) (?xs ! j))"
      using Less_eq [of ?i h j] ij less.prems(2) n by simp
    have unf: "up I h j = (if lt (?xs ! ?i) (?xs ! j) then Some h
        else do { h \<leftarrow> Swap I h ?i j; up I h ?i })"
      using L ij by (subst up.simps) (simp only: par_def [symmetric] Let_def, simp)
    show ?thesis
    proof (cases "lt (?xs ! ?i) (?xs ! j)")
      case True
      then have "\<not> lt (?xs ! j) (?xs ! ?i)" using lt_asym okk ij less.prems(2) by simp
      then have "okp lt ?xs n (\<lambda>_. False)" using less.prems(5) by (auto simp: okp_def)
      with True unf less.prems(1) show ?thesis by (simp add: kept_refl)
    next
      case False
      obtain s where s: "Swap I h ?i j = Some s" "elems s = swapped ?xs ?i j" "kept 0 n h s"
        using Swap_kept [OF less.prems(1), of 0 ?i j n] ij less.prems(2) n by auto
      have ln: "n \<le> length (elems s)" using kept_length [OF s(3)] n by simp
      have ok': "okp lt (elems s) n (\<lambda>c. c = ?i)"
        unfolding s(2) using okp_swap_up [OF less.prems(5) n ok j less.prems(2) False less.prems(6) [OF j]] .
      have gp: "\<not> lt (elems s ! c) (elems s ! par ?i)" if i: "0 < ?i" and c: "par c = ?i" "c < n" for c
      proof -
        have pi: "par ?i < ?i" by (rule par_less [OF i])
        have 1: "\<not> lt (?xs ! ?i) (?xs ! par ?i)" using okpD [OF less.prems(5) i] ij less.prems(2) by simp
        have "?xs ! c = ?xs ! c \<Longrightarrow> c \<noteq> j \<Longrightarrow> \<not> lt (?xs ! c) (?xs ! ?i)"
          using okpD [OF less.prems(5), of c] c i by (cases c) (auto simp: par_def)
        then have "c \<noteq> j \<Longrightarrow> \<not> lt (?xs ! c) (?xs ! par ?i)"
          using le_trans [OF okk okk okk 1, of c] c ij pi less.prems(2) by auto
        moreover have "c \<noteq> ?i" using c(1) pi by auto
        moreover have "elems s ! par ?i = ?xs ! par ?i" "elems s ! j = ?xs ! ?i"
          "c \<noteq> j \<Longrightarrow> c \<noteq> ?i \<Longrightarrow> elems s ! c = ?xs ! c"
          using s(2) pi ij less.prems(2) n by simp_all
        ultimately show ?thesis using 1 by (cases "c = j") simp_all
      qed
      have "?i < n" using ij less.prems(2) by linarith
      from less.IH [OF ij kept_inv [OF s(3)] this ln kept_ok [OF s(3) ok] ok' gp]
      obtain h' where "up I s ?i = Some h'" "kept 0 n s h'" "okp lt (elems h') n (\<lambda>_. False)"
        by blast
      with s(1,3) False unf show ?thesis by (auto intro: kept_trans)
    qed
  qed
qed

lemma down_eq:
  assumes "i < 2 ^ 30" "n \<le> 2 ^ 30"
  shows "down I h i n = (if 2 * i + 1 \<ge> n then Some h
     else do {
       r \<leftarrow> (if 2 * i + 2 < n then do { l \<leftarrow> Less I h (2 * i + 1) (2 * i + 2); Some (\<not> l) } else Some False);
       let j = (if r then 2 * i + 2 else 2 * i + 1);
       l \<leftarrow> Less I h i j;
       if l then Some h else do { h \<leftarrow> Swap I h i j; down I h j n }
     })"
proof -
  define k where "k = 2 * i + 1"
  have a: "int32 (2 * int i + 1) = int k" using assms(1) by (subst int32_id) (simp_all add: is_int32_def k_def)
  have kn: "int n \<le> int k \<longleftrightarrow> n \<le> 2 * i + 1" "2 * i + 1 = k" "2 * i + 2 = Suc k"
    by (simp_all only: k_def of_nat_le_iff)
  show ?thesis
  proof (cases "n \<le> k")
    case True
    then show ?thesis unfolding down.simps [of I h i] a kn by simp
  next
    case False
    then have b: "int32 (int k + 1) = int (Suc k)" using assms(2) by (subst int32_id) (simp_all add: is_int32_def)
    have L: "Less_at I h (int x) (int y) = Less I h x y" for x y by (simp add: Less_at_def)
    have ifi: "(if r then int (Suc k) else int k) = int (if r then Suc k else k)" for r by simp
    have kn': "int n \<le> int k \<longleftrightarrow> False" "int (Suc k) < int n \<longleftrightarrow> Suc k < n" "n \<le> k \<longleftrightarrow> False"
      using False by (simp_all del: of_nat_Suc)
    show ?thesis unfolding down.simps [of I h i] a Let_def b ifi L kn(2,3) kn' nat_int if_False ..
  qed
qed

lemma down_child:
  assumes "n \<le> length (elems h)" "2 * i + 1 < n" "\<forall>x \<in> set (elems h). ok x" and small: "n \<le> 2 ^ 30"
  obtains j where "par j = i" "0 < j" "j < n"
    "\<And>c. par c = i \<Longrightarrow> 0 < c \<Longrightarrow> c < n \<Longrightarrow> \<not> lt (elems h ! c) (elems h ! j)"
    "down I h i n = (if lt (elems h ! i) (elems h ! j) then Some h
       else do { h \<leftarrow> Swap I h i j; down I h j n })"
proof -
  let ?xs = "elems h" and ?a = "2 * i + 1"
  define r where "r = (?a + 1 < n \<and> \<not> lt (?xs ! ?a) (?xs ! (?a + 1)))"
  define j where "j = (if r then ?a + 1 else ?a)"
  have jn: "j < n" "par j = i" "0 < j" using assms(2) by (auto simp: j_def r_def par_def)
  have okk: "ok (?xs ! k)" if "k < n" for k using assms(1,3) that by simp
  have sib: "\<not> lt (?xs ! c) (?xs ! j)" if "par c = i" "0 < c" "c < n" for c
  proof -
    have "c = 2 * i + 1 \<or> c = 2 * i + 2" by (rule par_eqD [OF that(1,2)])
    then consider "c = j" | "c = ?a" "j = ?a + 1" "r" | "c = ?a + 1" "j = ?a" "\<not> r"
      by (cases r) (auto simp: j_def)
    then show ?thesis
    proof cases
      case 3
      then have "lt (?xs ! j) (?xs ! c)" using that(3) by (simp add: r_def)
      then show ?thesis using lt_asym okk that(3) jn(1) by blast
    qed (use lt_irrefl okk jn(1) r_def in auto)
  qed
  have R: "(if 2 * i + 2 < n then do { l \<leftarrow> Less I h ?a (2 * i + 2); Some (\<not> l) } else Some False) = Some r"
    using Less_eq [of ?a h "2 * i + 2"] assms(1) by (simp add: r_def)
  have L: "Less I h i j = Some (lt (?xs ! i) (?xs ! j))"
    using Less_eq [of i h j] jn assms(1,2) by simp
  have "down I h i n = (if lt (?xs ! i) (?xs ! j) then Some h
       else do { h \<leftarrow> Swap I h i j; down I h j n })"
  proof -
    have i: "i < 2 ^ 30" "\<not> n \<le> ?a" using assms(2) small by simp_all
    have j: "(if r then 2 * i + 2 else ?a) = j" by (simp add: j_def)
    show ?thesis unfolding down_eq [OF i(1) small] if_not_P [OF i(2)] R Option.bind.simps Let_def j L ..
  qed
  then show ?thesis using that [OF jn(2,3,1) sib] by blast
qed

lemma down_spec:
  assumes "inv h" "n \<le> length (elems h)" "\<forall>x \<in> set (elems h). ok x"
    "okp lt (elems h) n (\<lambda>c. E c \<or> par c = i)"
    "\<And>c. 0 < i \<Longrightarrow> \<not> E i \<Longrightarrow> par c = i \<Longrightarrow> c < n \<Longrightarrow> \<not> lt (elems h ! c) (elems h ! par i)"
    "\<And>c. 0 < c \<Longrightarrow> i \<le> par c \<Longrightarrow> \<not> E c" and small: "n \<le> 2 ^ 30" and "i < 2 ^ 30"
  shows "\<exists>h'. down I h i n = Some h' \<and> kept i n h h' \<and> okp lt (elems h') n E \<and>
     (elems h' = elems h \<or> (\<exists>c. par c = i \<and> 0 < c \<and> c < n \<and> elems h' ! i = elems h ! c))"
  using assms
proof (induction "n - i" arbitrary: h i rule: less_induct)
  case less
  let ?xs = "elems h"
  note n = less.prems(2) and ok = less.prems(3)
  show ?case
  proof (cases "2 * i + 1 < n")
    case False
    then have "par c \<noteq> i" if "0 < c" "c < n" for c using par_eqD [OF _ that(1)] that by fastforce
    then have "okp lt ?xs n E" using less.prems(4) by (simp add: okp_def)
    with False less.prems(1,7,8) show ?thesis by (subst down_eq) (simp_all add: kept_refl)
  next
    case in_range: True
    obtain j where j: "par j = i" "0 < j" "j < n"
      and sib: "\<And>c. par c = i \<Longrightarrow> 0 < c \<Longrightarrow> c < n \<Longrightarrow> \<not> lt (?xs ! c) (?xs ! j)"
      and unf: "down I h i n = (if lt (?xs ! i) (?xs ! j) then Some h
         else do { h \<leftarrow> Swap I h i j; down I h j n })"
      using down_child [OF n in_range ok small] by metis
    have ij: "i < j" using j par_less by blast
    have okk: "ok (?xs ! k)" if "k < n" for k using ok n that by simp
    show ?thesis
    proof (cases "lt (?xs ! i) (?xs ! j)")
      case True
      have "\<not> lt (?xs ! c) (?xs ! i)" if "par c = i" "0 < c" "c < n" for c
      proof (rule le_trans [OF okk okk okk])
        show "\<not> lt (?xs ! j) (?xs ! i)" using True lt_asym okk j(3) ij by simp
      qed (use sib [OF that] that ij j(3) in auto)
      then have "okp lt ?xs n E" using less.prems(4) by (auto simp: okp_def)
      with True unf less.prems(1) show ?thesis by (simp add: kept_refl)
    next
      case False
      obtain s where s: "Swap I h i j = Some s" "elems s = swapped ?xs i j" "kept i n h s"
        using Swap_kept [OF less.prems(1), of i i j n] ij j(3) n by auto
      have ok': "okp lt (elems s) n (\<lambda>c. E c \<or> par c = j)"
        unfolding s(2)
        by (rule okp_swap_down [OF less.prems(4) n ok j sib False less.prems(5) [OF _ _ j(1,3)]])
      have gp: "\<not> lt (elems s ! c) (elems s ! par j)" if "0 < j" "\<not> E j" "par c = j" "c < n" for c
      proof -
        have c: "j < c" using that(1,3) par_less [of c] by (cases c) (auto simp: par_def)
        have "\<not> lt (?xs ! c) (?xs ! j)"
          using okpD [OF less.prems(4), of c] less.prems(6) [of c] c that ij by auto
        then show ?thesis using s(2) j(1) ij c that(4) n by simp
      qed
      have E: "\<not> E c" if "0 < c" "j \<le> par c" for c using less.prems(6) that ij by simp
      have ln: "n \<le> length (elems s)" using kept_length [OF s(3)] n by simp
      have nj: "n - j < n - i" using ij j(3) by linarith
      have "j < 2 ^ 30" using j(3) small by simp
      from less.hyps [OF nj kept_inv [OF s(3)] ln kept_ok [OF s(3) ok] ok' gp E small this]
      obtain h' where h': "down I s j n = Some h'" "kept j n s h'" "okp lt (elems h') n E"
        by blast
      have "elems h' ! i = elems s ! i"
        using h'(2) ij j(3) ln by (intro rperm_outside [of j n]) (auto simp: kept_def)
      then have "elems h' ! i = ?xs ! j" using s(2) ij j(3) n by simp
      moreover have "kept i n h h'"
        using kept_trans [OF s(3) kept_mono [OF h'(2)]] ij by simp
      ultimately show ?thesis using h'(1,3) s(1) False unf j by auto
    qed
  qed
qed

lemma okp_mono: "okp lt xs n E \<Longrightarrow> (\<And>c. 0 < c \<Longrightarrow> c < n \<Longrightarrow> E c \<Longrightarrow> E' c) \<Longrightarrow> okp lt xs n E'"
  by (auto simp: okp_def)

lemma okp_mono_n: "okp lt xs n E \<Longrightarrow> n' \<le> n \<Longrightarrow> okp lt xs n' E"
  by (auto simp: okp_def)

lemma is_heap_root:
  assumes "is_heap lt xs" "\<forall>x \<in> set xs. ok x" "k < length xs"
  shows "\<not> lt (xs ! k) (xs ! 0)"
  using assms(3)
proof (induction k rule: less_induct)
  case (less k)
  have okk: "ok (xs ! i)" if "i < length xs" for i using assms(2) that by simp
  show ?case
  proof (cases "k = 0")
    case True
    with lt_irrefl okk less.prems show ?thesis by simp
  next
    case False
    then have pk: "par k < k" by (simp add: par_less)
    have "\<not> lt (xs ! k) (xs ! par k)"
      using assms(1) False less.prems by (simp add: is_heap_def okp_def)
    moreover have "\<not> lt (xs ! par k) (xs ! 0)" using less.IH [OF pk] pk less.prems by simp
    ultimately show ?thesis using le_trans [OF okk okk okk, of 0 "par k" k] less.prems pk by fastforce
  qed
qed

lemma Init_loop_spec:
  assumes "inv h" "n = length (elems h)" "\<forall>x \<in> set (elems h). ok x"
    "okp lt (elems h) n (\<lambda>c. par c < i)" "n \<le> 2 ^ 30" "i \<le> n"
  shows "\<exists>h'. Init_loop I h n i = Some h' \<and> kept 0 n h h' \<and> is_heap lt (elems h')"
  using assms
proof (induction i arbitrary: h)
  case 0
  then show ?case by (simp add: kept_refl is_heap_def)
next
  case (Suc i)
  have "okp lt (elems h) n (\<lambda>c. par c < i \<or> par c = i)"
    by (rule okp_mono [OF Suc.prems(4)]) auto
  moreover have "par i < i" if "0 < i" using that by (rule par_less)
  ultimately obtain h1 where h1: "down I h i n = Some h1" "kept i n h h1"
    "okp lt (elems h1) n (\<lambda>c. par c < i)"
    using down_spec [OF Suc.prems(1) _ Suc.prems(3), of n "\<lambda>c. par c < i" i] Suc.prems(2,5,6) by auto
  from kept_mono [OF h1(2)] have k: "kept 0 n h h1" by simp
  obtain h' where "Init_loop I h1 n i = Some h'" "kept 0 n h1 h'" "is_heap lt (elems h')"
    using Suc.IH [OF kept_inv [OF k] _ kept_ok [OF k Suc.prems(3)] h1(3)] kept_length [OF k] Suc.prems(2,5,6)
    by auto
  with h1(1) k show ?case by (auto intro: kept_trans)
qed

lemma Init_spec:
  assumes "inv h" "\<forall>x \<in> set (elems h). ok x" "length (elems h) \<le> 2 ^ 30"
  shows "\<exists>h'. heap_Init I h = Some h' \<and> inv h' \<and> mset (elems h') = mset (elems h) \<and>
     is_heap lt (elems h')"
proof -
  let ?n = "length (elems h)"
  have "okp lt (elems h) ?n (\<lambda>c. par c < ?n div 2)"
    by (rule okpI) (auto simp: par_def)
  from Init_loop_spec [OF assms(1) refl assms(2) this assms(3)] show ?thesis
    by (auto simp: heap_Init_def Len_eq Let_def kept_def rperm_def)
qed

lemma Push_spec:
  assumes "inv h" "fresh h x" "\<forall>y \<in> set (elems h). ok y" "ok (val h x)" "is_heap lt (elems h)"
  shows "\<exists>h'. heap_Push I h x = Some h' \<and> inv h' \<and> val h' = val h \<and>
     mset (elems h') = add_mset (val h x) (mset (elems h)) \<and> is_heap lt (elems h')"
proof -
  obtain s where s: "hPush I h x = Some s" "inv s" "elems s = elems h @ [val h x]" "val s = val h"
    using hPush_ex assms(1,2) by blast
  let ?n = "length (elems h)"
  have par_lt: "par c < ?n" if "c \<le> ?n" "0 < c" for c using par_less [OF that(2)] that by simp
  have 1: "okp lt (elems s) (Suc ?n) (\<lambda>c. c = ?n)"
    using assms(5) s(3) par_lt by (auto simp: is_heap_def okp_def nth_append)
  have 2: "\<not> lt (elems s ! c) (elems s ! par ?n)" if "par c = ?n" "c < Suc ?n" for c
    using that par_less [of c] s(3) lt_irrefl assms(4) by (cases c) (auto simp: par_def)
  have ok: "\<forall>y \<in> set (elems s). ok y" using assms(3,4) s(3) by simp
  obtain h' where "up I s ?n = Some h'" "kept 0 (Suc ?n) s h'" "okp lt (elems h') (Suc ?n) (\<lambda>_. False)"
    using up_spec [OF s(2) _ _ ok 1 2] s(3) by auto
  then show ?thesis
    using s by (auto simp: heap_Push_def Len_eq kept_def rperm_def is_heap_def)
qed

text \<open>The last step of \<open>Pop\<close> and \<open>Remove\<close>: the element to take away stands at the end.\<close>

lemma hPop_finish:
  assumes "kept 0 n h1 h2" "okp lt (elems h2) n (\<lambda>_. False)" "length (elems h1) = Suc n"
  shows "\<exists>x h'. hPop I h2 = Some (x, h') \<and> inv h' \<and> val h' = val h1 \<and> val h1 x = elems h1 ! n \<and>
     mset (elems h1) = add_mset (elems h1 ! n) (mset (elems h')) \<and> is_heap lt (elems h')"
proof -
  have len: "length (elems h2) = Suc n" and perm: "mset (elems h2) = mset (elems h1)"
    and nth: "elems h2 ! n = elems h1 ! n"
    using assms(1,3) by (auto simp: kept_def rperm_def)
  obtain x h' where x: "hPop I h2 = Some (x, h')" "inv h'" "elems h' = butlast (elems h2)"
    "val h2 x = last (elems h2)" "val h' = val h2"
    using hPop_ex [OF kept_inv [OF assms(1)]] len by fastforce
  have last: "last (elems h2) = elems h1 ! n"
    using last_conv_nth [of "elems h2"] len nth by fastforce
  have "mset (elems h2) = add_mset (elems h1 ! n) (mset (elems h'))"
    using append_butlast_last_id [of "elems h2"] len last x(3)
    by (metis add_mset_add_single length_0_conv mset_append mset_single_iff_right nat.distinct(1))
  moreover have "is_heap lt (elems h')"
  proof -
    have "butlast (elems h2) ! k = elems h2 ! k" if "k < n" for k
      using that len by (simp add: nth_butlast)
    moreover have "par j < n" if "0 < j" "j < n" for j using par_less [OF that(1)] that(2) by linarith
    ultimately show ?thesis using assms(2) len x(3) by (simp add: is_heap_def okp_def)
  qed
  ultimately show ?thesis using x last assms(1) perm by (auto simp: kept_def)
qed

lemma Pop_spec:
  assumes "inv h" "\<forall>x \<in> set (elems h). ok x" "is_heap lt (elems h)" "elems h \<noteq> []" "length (elems h) \<le> 2 ^ 30"
  shows "\<exists>x h'. heap_Pop I h = Some (x, h') \<and> inv h' \<and> val h' = val h \<and> val h x = elems h ! 0 \<and>
     mset (elems h) = add_mset (val h x) (mset (elems h')) \<and> is_heap lt (elems h') \<and>
     (\<forall>y \<in> set (elems h). \<not> lt y (val h x))"
proof -
  let ?xs = "elems h"
  obtain n where n: "length ?xs = Suc n" using assms(4) by (cases ?xs) auto
  obtain h1 where h1: "Swap I h 0 n = Some h1" "elems h1 = swapped ?xs 0 n" "kept 0 (Suc n) h h1"
    using Swap_kept [OF assms(1), of 0 0 n "Suc n"] n by auto
  have len1: "length (elems h1) = Suc n" using h1(2) n by simp
  have "okp lt (elems h1) n (\<lambda>c. False \<or> par c = 0)"
    using assms(3) n unfolding h1(2) is_heap_def okp_def by (auto simp: nth_list_update dest: par_less)
  from down_spec [OF kept_inv [OF h1(3)] _ kept_ok [OF h1(3) assms(2)] this] len1 n assms(5)
  obtain h2 where h2: "down I h1 0 n = Some h2" "kept 0 n h1 h2" "okp lt (elems h2) n (\<lambda>_. False)"
    by auto
  obtain x h' where x: "hPop I h2 = Some (x, h')" "inv h'" "val h' = val h1" "val h1 x = elems h1 ! n"
     "mset (elems h1) = add_mset (elems h1 ! n) (mset (elems h'))" "is_heap lt (elems h')"
    using hPop_finish [OF h2(2,3) len1] by blast
  have root: "elems h1 ! n = ?xs ! 0" using h1(2) n by simp
  have "\<not> lt y (?xs ! 0)" if "y \<in> set ?xs" for y
    using is_heap_root [OF assms(3,2)] that by (auto simp: in_set_conv_nth)
  then show ?thesis
    using x h1 h2(1) root assms(4) n by (auto simp: heap_Pop_def Len_eq kept_def rperm_def Let_def)
qed

lemma Remove_gp:
  assumes "is_heap lt xs" "\<forall>x \<in> set xs. ok x" "length xs = Suc n" "i < n" "0 < i"
    and ys: "rperm i n (swapped xs i n) ys" "okp lt ys n (\<lambda>c. c = i)"
      "ys = swapped xs i n \<or> (\<exists>c. par c = i \<and> 0 < c \<and> c < n \<and> ys ! i = swapped xs i n ! c)"
    and c: "par c = i" "c < n"
  shows "\<not> lt (ys ! c) (ys ! par i)"
proof -
  have okk: "ok (xs ! k)" if "k < Suc n" for k using assms(2,3) that by simp
  have pi: "par i < i" by (rule par_less [OF assms(5)])
  have hp: "\<not> lt (xs ! j) (xs ! par j)" if "0 < j" "j < Suc n" for j
    using okpD [OF assms(1) [unfolded is_heap_def]] that assms(3) by simp
  have child: "i < k" if "par k = i" for k using that assms(5) par_less [of k] by (cases k) (auto simp: par_def)
  have gc: "\<not> lt (xs ! k) (xs ! par i)" if k: "par k = i" "k < n" for k
    using le_trans [OF okk okk okk hp [OF assms(5)], of k] hp [of k] k child [OF k(1)] pi assms(4) by auto
  have ypi: "ys ! par i = xs ! par i" using rperm_outside [OF ys(1)] pi assms(3,4) by simp
  have ci: "i < c" by (rule child [OF c(1)])
  show ?thesis
  proof (cases "ys = swapped xs i n")
    case True
    then show ?thesis using gc [OF c] ypi ci c(2) by simp
  next
    case False
    then obtain d where d: "par d = i" "d < n" "ys ! i = swapped xs i n ! d" using ys(3) by blast
    have yi: "ys ! i = xs ! d" using d child [OF d(1)] by simp
    have 1: "\<not> lt (ys ! i) (ys ! par i)" using gc [OF d(1,2)] yi ypi by simp
    have 2: "\<not> lt (ys ! c) (ys ! i)" using okpD [OF ys(2), of c] c ci by simp
    have oky: "ok (ys ! k)" if "k < n" for k
      using rperm_set [OF ys(1)] rperm_length [OF ys(1)] assms(2,3,4) that
      by (metis length_list_update less_SucI nth_mem set_swap less_Suc_eq)
    show ?thesis using le_trans [OF oky oky oky 1 2] pi assms(4) c(2) by simp
  qed
qed

lemma Remove_spec:
  assumes "inv h" "\<forall>x \<in> set (elems h). ok x" "is_heap lt (elems h)" "i < length (elems h)"
    "length (elems h) \<le> 2 ^ 30"
  shows "\<exists>x h'. heap_Remove I h i = Some (x, h') \<and> inv h' \<and> val h' = val h \<and> val h x = elems h ! i \<and>
     mset (elems h) = add_mset (val h x) (mset (elems h')) \<and> is_heap lt (elems h')"
proof -
  let ?xs = "elems h"
  obtain n where n: "length ?xs = Suc n" using assms(4) by (cases ?xs) auto
  have hp: "okp lt ?xs n (\<lambda>_. False)"
    using okp_mono_n [OF assms(3) [unfolded is_heap_def]] n by simp
  show ?thesis
  proof (cases "i = n")
    case True
    from hPop_finish [OF kept_refl [OF assms(1)] hp n] show ?thesis
      using True n by (auto simp: heap_Remove_def Len_eq)
  next
    case False
    then have i: "i < n" using assms(4) n by simp
    obtain h1 where h1: "Swap I h i n = Some h1" "elems h1 = swapped ?xs i n" "kept 0 (Suc n) h h1"
      using Swap_kept [OF assms(1), of 0 i n "Suc n"] n i by auto
    have len1: "length (elems h1) = Suc n" using h1(2) n by simp
    have e: "okp lt (elems h1) n (\<lambda>c. c = i \<or> par c = i)"
      using hp par_less unfolding h1(2) okp_def by (metis nth_list_update_neq order_less_irrefl less_trans)
    have g: "\<not> lt (elems h1 ! c) (elems h1 ! par i)" if "i \<noteq> i" for c using that by simp
    have d: "c \<noteq> i" if "0 < c" "i \<le> par c" for c using par_less [OF that(1)] that(2) by linarith
    have ln: "n \<le> length (elems h1)" using len1 by simp
    have "n \<le> 2 ^ 30" "i < 2 ^ 30" using n i assms(5) by simp_all
    from down_spec [OF kept_inv [OF h1(3)] ln kept_ok [OF h1(3) assms(2)] e g d this]
    obtain h2 where h2: "down I h1 i n = Some h2" "kept i n h1 h2" "okp lt (elems h2) n (\<lambda>c. c = i)"
      "elems h2 = elems h1 \<or> (\<exists>c. par c = i \<and> 0 < c \<and> c < n \<and> elems h2 ! i = elems h1 ! c)"
      by blast
    have k2: "kept 0 n h1 h2" using kept_mono [OF h2(2)] by simp
    have rp: "rperm i n (swapped ?xs i n) (elems h2)" using h2(2) by (simp add: kept_def h1(2))
    have gp: "\<not> lt (elems h2 ! c) (elems h2 ! par i)" if "0 < i" "par c = i" "c < n" for c
      by (rule Remove_gp [OF assms(3,2) n i that(1) rp h2(3) h2(4) [unfolded h1(2)] that(2,3)])
    have ln2: "n \<le> length (elems h2)" using kept_length [OF k2] len1 by simp
    from up_spec [OF kept_inv [OF k2] i ln2 kept_ok [OF k2 kept_ok [OF h1(3) assms(2)]] h2(3) gp]
    obtain h3 where h3: "up I h2 i = Some h3" "kept 0 n h2 h3" "okp lt (elems h3) n (\<lambda>_. False)"
      by blast
    from hPop_finish [OF kept_trans [OF k2 h3(2)] h3(3) len1]
    obtain x h' where x: "hPop I h3 = Some (x, h')" "inv h'" "val h' = val h1" "val h1 x = elems h1 ! n"
       "mset (elems h1) = add_mset (elems h1 ! n) (mset (elems h'))" "is_heap lt (elems h')" by blast
    have "elems h1 ! n = ?xs ! i" using h1(2) n by simp
    then show ?thesis
      using x h1(1,3) h2(1) h3(1) False n by (auto simp: heap_Remove_def Len_eq kept_def rperm_def Let_def)
  qed
qed

end

end
