(* ===== verification/Time_Sleep.thy ===== *)
theory Time_Sleep
  imports Go_Heap
begin

text \<open>
  Package \<open>time\<close>: the timer queue of \<open>sleep.go\<close>.

  A \<open>*Timer\<close> is an address of a store of \<open>Timer\<close> structs, because \<open>Swap\<close>, \<open>Push\<close> and \<open>Pop\<close> write the
  index field \<open>i\<close> through the pointers and \<open>Stop\<close> reads it. The package's variables (\<open>timers\<close>,
  \<open>currentSleeper\<close>) and the store are one state record. \<open>timerHeap\<close> is an implementation of
  \<open>heap.Interface\<close>, and the contract of \<open>container/heap\<close> is interpreted on it here.

  The functions \<open>after\<close>, \<open>Stop\<close> and the part of \<open>sleeper\<close> between two calls of \<open>syscall.Sleep\<close> each run
  under \<open>timerMutex\<close>, so that they are the atomic steps of the system of goroutines. The readings
  of \<open>Nanoseconds()\<close> are arguments.
\<close>

section \<open>State\<close>

text \<open>The function a timer runs: \<open>func(t int64) { c <- t }\<close> of \<open>NewTimer\<close>, or \<open>func(_ int64) { go f() }\<close>
  of \<open>AfterFunc\<close>. Channels and user functions are named by numbers.\<close>

datatype timer_func = Send_on nat | Go_func nat

record Timer =
  tC :: "nat option"
  t_t :: int
  t_f :: "timer_func option"
  t_i :: int

definition forever :: int where
  "forever = 2 ^ 62"

definition maxSleepTime :: int where
  "maxSleepTime = 1000000000"

text \<open>\<open>calls\<close> records the calls \<open>e.f(t)\<close>, oldest first, and \<open>nextTimer\<close>, \<open>nextChan\<close> are the allocators.\<close>

record timer_state =
  timers :: "nat list"
  store :: "nat \<Rightarrow> Timer"
  currentSleeper :: int
  nextTimer :: nat
  nextChan :: nat
  calls :: "(nat \<times> timer_func \<times> int) list"

definition set_index :: "nat \<Rightarrow> int \<Rightarrow> timer_state \<Rightarrow> timer_state" where
  "set_index p i s = s\<lparr>store := (store s)(p := (store s p)\<lparr>t_i := i\<rparr>)\<rparr>"

definition new_Timer :: "nat option \<Rightarrow> int \<Rightarrow> timer_func option \<Rightarrow> int \<Rightarrow> timer_state \<Rightarrow> nat \<times> timer_state" where
  "new_Timer c t f i s = (nextTimer s,
     s\<lparr>store := (store s)(nextTimer s := \<lparr>tC = c, t_t = t, t_f = f, t_i = i\<rparr>),
       nextTimer := nextTimer s + 1\<rparr>)"

section \<open>The heap of timers\<close>

definition timerHeap_Less :: "timer_state \<Rightarrow> nat \<Rightarrow> nat \<Rightarrow> bool option" where
  "timerHeap_Less s i j = do {
     p \<leftarrow> go_index (timers s) (int i);
     q \<leftarrow> go_index (timers s) (int j);
     Some (t_t (store s p) < t_t (store s q))
   }"

definition timerHeap_Swap :: "timer_state \<Rightarrow> nat \<Rightarrow> nat \<Rightarrow> timer_state option" where
  "timerHeap_Swap s i j = do {
     p \<leftarrow> go_index (timers s) (int i);
     q \<leftarrow> go_index (timers s) (int j);
     let s = s\<lparr>timers := (timers s)[i := q, j := p]\<rparr>;
     let s = set_index (timers s ! i) (int i) s;
     Some (set_index (timers s ! j) (int j) s)
   }"

definition timerHeap_Push :: "timer_state \<Rightarrow> nat \<Rightarrow> timer_state option" where
  "timerHeap_Push s e =
     (let s = set_index e (int (length (timers s))) s
      in Some (s\<lparr>timers := timers s @ [e]\<rparr>))"

definition timerHeap_Pop :: "timer_state \<Rightarrow> (nat \<times> timer_state) option" where
  "timerHeap_Pop s =
     (let n = int (length (timers s)) - 1 in do {
        e \<leftarrow> go_index (timers s) n;
        ts \<leftarrow> go_slice (timers s) 0 n;
        Some (e, set_index e (-1) (s\<lparr>timers := ts\<rparr>))
      })"

definition timerHeap :: "(timer_state, nat) heap_Interface" where
  "timerHeap = \<lparr>Len = (\<lambda>s. length (timers s)), Less = timerHeap_Less, Swap = timerHeap_Swap,
     hPush = timerHeap_Push, hPop = timerHeap_Pop\<rparr>"

text \<open>\<open>init\<close> pushes the sentinel with \<open>timers.Push\<close>, not \<open>heap.Push\<close>.\<close>

definition time_init :: "timer_state \<Rightarrow> timer_state option" where
  "time_init s = (let (e, s) = new_Timer None forever None 0 s in timerHeap_Push s e)"

definition zero_state :: timer_state where
  "zero_state = \<lparr>timers = [], store = (\<lambda>_. \<lparr>tC = None, t_t = 0, t_f = None, t_i = 0\<rparr>),
     currentSleeper = 0, nextTimer = 0, nextChan = 0, calls = []\<rparr>"

section \<open>Starting and stopping timers\<close>

text \<open>\<open>after\<close>: \<open>now\<close> and \<open>now'\<close> are the two readings of the clock. The result is the timer and the
  identity of the sleeper it starts, if any. \<open>None\<close> is the panic \<open>time overflow\<close>.\<close>

definition after :: "int \<Rightarrow> timer_func \<Rightarrow> int \<Rightarrow> int \<Rightarrow> timer_state \<Rightarrow> (nat \<times> int option \<times> timer_state) option" where
  "after ns f now now' s =
     (let t = int64 (now' + ns) in
      if ns > 0 \<and> t < now then None
      else do {
        p \<leftarrow> go_index (timers s) 0;
        let t0 = t_t (store s p);
        let (e, s) = new_Timer None t (Some f) (-1) s;
        s \<leftarrow> heap_Push timerHeap s e;
        if t0 > t \<and> (t0 = forever \<or> ns < maxSleepTime)
        then (let s = s\<lparr>currentSleeper := int64 (currentSleeper s + 1)\<rparr>
              in Some (e, Some (currentSleeper s), s))
        else Some (e, None, s)
      })"

definition NewTimer :: "int \<Rightarrow> int \<Rightarrow> int \<Rightarrow> timer_state \<Rightarrow> (nat \<times> int option \<times> timer_state) option" where
  "NewTimer ns now now' s =
     (let c = nextChan s; s = s\<lparr>nextChan := c + 1\<rparr> in do {
        (e, go, s) \<leftarrow> after ns (Send_on c) now now' s;
        Some (e, go, s\<lparr>store := (store s)(e := (store s e)\<lparr>tC := Some c\<rparr>)\<rparr>)
      })"

definition After :: "int \<Rightarrow> int \<Rightarrow> int \<Rightarrow> timer_state \<Rightarrow> (nat option \<times> int option \<times> timer_state) option" where
  "After ns now now' s = do {
     (e, go, s) \<leftarrow> NewTimer ns now now' s;
     Some (tC (store s e), go, s)
   }"

definition AfterFunc :: "int \<Rightarrow> nat \<Rightarrow> int \<Rightarrow> int \<Rightarrow> timer_state \<Rightarrow> (nat \<times> int option \<times> timer_state) option" where
  "AfterFunc ns f now now' s = after ns (Go_func f) now now' s"

definition clear_f :: "nat \<Rightarrow> timer_state \<Rightarrow> timer_state" where
  "clear_f e s = s\<lparr>store := (store s)(e := (store s e)\<lparr>t_f := None\<rparr>)\<rparr>"

definition Stop :: "nat \<Rightarrow> timer_state \<Rightarrow> (bool \<times> timer_state) option" where
  "Stop e s = do {
     s \<leftarrow> (if t_i (store s e) > 0
           then do { (_, s) \<leftarrow> heap_Remove timerHeap s (nat (t_i (store s e))); Some s }
           else Some s);
     Some (t_f (store s e) \<noteq> None, clear_f e s)
   }"

section \<open>The sleeper\<close>

definition call_f :: "nat \<Rightarrow> int \<Rightarrow> timer_state \<Rightarrow> timer_state" where
  "call_f e t s = (case t_f (store s e) of
     Some f \<Rightarrow> clear_f e (s\<lparr>calls := calls s @ [(e, f, t)]\<rparr>)
   | None \<Rightarrow> s)"

lemma call_f_timers [simp]: "timers (call_f e t s) = timers s"
  by (simp add: call_f_def clear_f_def split: option.split)

lemma down_SomeE:
  assumes "down I h i n = Some h'"
  obtains "h' = h" | j h1 where "down_left n j < down_left n i" "Swap I h i j = Some h1" "down I h1 j n = Some h'"
proof -
  let ?a = "int32 (2 * int i + 1)"
  let ?b = "int32 (?a + 1)"
  have nn: "0 \<le> x" if "Less_at I h x y = Some l" for x y l using that by (simp add: Less_at_def split: if_splits)
  have "h' = h \<or> (?a < int n \<and> (\<exists>k l h1. Less_at I h (int i) k = Some l \<and> (k = ?a \<or> k = ?b \<and> k < int n \<and> 0 \<le> ?a) \<and>
      Swap I h i (nat k) = Some h1 \<and> down I h1 (nat k) n = Some h'))"
  proof (cases "?a < int n")
    case True
    then obtain r l where r: "(if ?b < int n then do { l \<leftarrow> Less_at I h ?a ?b; Some (\<not> l) } else Some False) = Some r"
      "Less_at I h (int i) (if r then ?b else ?a) = Some l"
      "(if l then Some h else do { h \<leftarrow> Swap I h i (nat (if r then ?b else ?a)); down I h (nat (if r then ?b else ?a)) n }) = Some h'"
      using assms by (subst (asm) down.simps [of I h i n]) (auto simp: Let_def bind_eq_Some_iff)
    have k: "(if r then ?b else ?a) = ?a \<or> (if r then ?b else ?a) = ?b \<and> (if r then ?b else ?a) < int n \<and> 0 \<le> ?a"
      using r(1) by (auto simp: bind_eq_Some_iff split: if_splits dest: nn)
    show ?thesis
    proof (cases l)
      case False
      with r(3) obtain h1 where "Swap I h i (nat (if r then ?b else ?a)) = Some h1"
        "down I h1 (nat (if r then ?b else ?a)) n = Some h'"
        by (cases "Swap I h i (nat (if r then ?b else ?a))") simp_all
      with k r(2) True show ?thesis by blast
    qed (use r(3) in simp)
  qed (use assms in \<open>simp add: down.simps [of I h i n]\<close>)
  then consider "h' = h" | k l h1 where "?a < int n" "Less_at I h (int i) k = Some l"
      "k = ?a \<or> k = ?b \<and> k < int n \<and> 0 \<le> ?a" "Swap I h i (nat k) = Some h1" "down I h1 (nat k) n = Some h'"
    by blast
  then show ?thesis
  proof cases
    case (2 k l h1)
    from that(2) [OF down_left_less(1) [OF 2(1-3)] 2(4,5)] show ?thesis .
  qed (rule that(1))
qed

lemma down_keeps:
  assumes "\<And>s i j s'. Swap I s i j = Some s' \<Longrightarrow> m s' = m s" "down I h i n = Some h'"
  shows "m h' = m h"
  using assms(2)
proof (induction "down_left n i" arbitrary: h i rule: less_induct)
  case less
  from less.prems show ?case
  proof (cases rule: down_SomeE)
    case (2 j h1)
    with less.hyps [OF 2(1,3)] assms(1) [OF 2(2)] show ?thesis by simp
  qed simp
qed

lemma timerHeap_Swap_length: "timerHeap_Swap s i j = Some s' \<Longrightarrow> length (timers s') = length (timers s)"
  by (auto simp: timerHeap_Swap_def bind_eq_Some_iff set_index_def Let_def)

lemma heap_Pop_timerHeap_length:
  assumes "heap_Pop timerHeap s = Some (e, s')"
  shows "length (timers s') < length (timers s)"
proof -
  let ?n = "length (timers s) - 1"
  obtain s1 s2 where s: "timers s \<noteq> []" "timerHeap_Swap s 0 ?n = Some s1" "down timerHeap s1 0 ?n = Some s2"
    "timerHeap_Pop s2 = Some (e, s')"
    using assms by (auto simp: heap_Pop_def timerHeap_def Let_def bind_eq_Some_iff split: if_splits)
  have "length (timers s2) = length (timers s1)"
    by (rule down_keeps [OF _ s(3)]) (simp add: timerHeap_def timerHeap_Swap_length)
  with timerHeap_Swap_length [OF s(2)] have len: "length (timers s2) = length (timers s)" by simp
  have "nat (int (length (timers s)) - 1) < length (timers s)" using s(1) by (cases "timers s") auto
  with s(4) len show ?thesis
    by (auto simp: timerHeap_Pop_def Let_def bind_eq_Some_iff set_index_def go_slice_def split: if_splits)
qed

text \<open>The inner loop of \<open>sleeper\<close>: fire and remove every timer that is due at \<open>t\<close>.\<close>

function drain :: "int \<Rightarrow> nat \<Rightarrow> timer_state \<Rightarrow> (nat \<times> timer_state) option" where
  "drain t e s =
     (if t \<ge> t_t (store s e) then do {
        (_, s) \<leftarrow> heap_Pop timerHeap (call_f e t s);
        e \<leftarrow> go_index (timers s) 0;
        drain t e s
      } else Some (e, s))"
  by pat_completeness auto
termination
  by (relation "measure (\<lambda>(t, e, s). length (timers s))") (auto dest: heap_Pop_timerHeap_length)

declare drain.simps [simp del]

text \<open>The outer loop of \<open>sleeper\<close>, up to the point where it gives the mutex back: it returns, or it goes
  to sleep for \<open>dt\<close> nanoseconds after it read the time \<open>t\<close>. \<open>clk\<close> holds the readings of the clock;
  \<open>S_more\<close> says that the loop needs another reading.\<close>

datatype sleeper_res = S_exit | S_sleep int int | S_more

fun sleeper_loop :: "int list \<Rightarrow> nat \<Rightarrow> int \<Rightarrow> timer_state \<Rightarrow> (sleeper_res \<times> timer_state) option" where
  "sleeper_loop clk e t s =
     (if t_t (store s e) = forever then Some (S_exit, s)
      else (let dt = int64 (t_t (store s e) - t) in
        if dt > 0 then Some (S_sleep t (if dt > maxSleepTime then maxSleepTime else dt), s)
        else (case clk of
          [] \<Rightarrow> Some (S_more, s)
        | now # clk \<Rightarrow> do {
            e \<leftarrow> go_index (timers s) 0;
            (e, s) \<leftarrow> drain now e s;
            sleeper_loop clk e now s
          })))"

declare sleeper_loop.simps [simp del]

definition sleeper_start :: "int \<Rightarrow> int list \<Rightarrow> timer_state \<Rightarrow> (sleeper_res \<times> timer_state) option" where
  "sleeper_start t clk s = do { e \<leftarrow> go_index (timers s) 0; sleeper_loop clk e t s }"

definition sleeper_wake :: "int \<Rightarrow> int \<Rightarrow> int list \<Rightarrow> timer_state \<Rightarrow> (sleeper_res \<times> timer_state) option" where
  "sleeper_wake sleeperId now clk s =
     (if currentSleeper s \<noteq> sleeperId then Some (S_exit, s)
      else do {
        e \<leftarrow> go_index (timers s) 0;
        (e, s) \<leftarrow> drain now e s;
        sleeper_loop clk e now s
      })"

section \<open>The timer heap keeps the contract of \<open>container/heap\<close>\<close>

definition timer_elems :: "timer_state \<Rightarrow> (nat \<times> int) list" where
  "timer_elems s = map (\<lambda>p. (p, t_t (store s p))) (timers s)"

definition timer_lt :: "nat \<times> int \<Rightarrow> nat \<times> int \<Rightarrow> bool" where
  "timer_lt x y \<longleftrightarrow> snd x < snd y"

text \<open>The index fields: a timer in the queue knows its position, any other allocated timer has -1.\<close>

definition index_ok :: "timer_state \<Rightarrow> bool" where
  "index_ok s \<longleftrightarrow> (\<forall>p \<in> set (timers s). p < nextTimer s) \<and>
     (\<forall>k < length (timers s). t_i (store s (timers s ! k)) = int k) \<and>
     (\<forall>p < nextTimer s. p \<notin> set (timers s) \<longrightarrow> t_i (store s p) = -1)"

lemma index_ok_distinct: "index_ok s \<Longrightarrow> distinct (timers s)"
  by (auto simp: index_ok_def distinct_conv_nth) (metis of_nat_eq_iff)

definition fresh_timer :: "timer_state \<Rightarrow> nat \<Rightarrow> bool" where
  "fresh_timer s p \<longleftrightarrow> p < nextTimer s \<and> p \<notin> set (timers s)"

lemma timerHeap_Swap_eq:
  assumes "i < length (timers s)" "j < length (timers s)"
  shows "timerHeap_Swap s i j = Some (set_index (timers s ! i) (int j)
     (set_index (timers s ! j) (int i) (s\<lparr>timers := swapped (timers s) i j\<rparr>)))"
  using assms by (auto simp: timerHeap_Swap_def go_index_def set_index_def Let_def nth_list_update)

lemma set_index_simps [simp]:
  "timers (set_index p i s) = timers s" "nextTimer (set_index p i s) = nextTimer s"
  "t_t (store (set_index p i s) q) = t_t (store s q)" "t_f (store (set_index p i s) q) = t_f (store s q)"
  "calls (set_index p i s) = calls s" "currentSleeper (set_index p i s) = currentSleeper s"
  "t_i (store (set_index p i s) q) = (if q = p then i else t_i (store s q))"
  by (auto simp: set_index_def)

lemma timer_elems_set_index [simp]: "timer_elems (set_index p i s) = timer_elems s"
  by (simp add: timer_elems_def)

lemma index_ok_swap:
  assumes "index_ok s" "i < length (timers s)" "j < length (timers s)"
  shows "index_ok (set_index (timers s ! i) (int j)
     (set_index (timers s ! j) (int i) (s\<lparr>timers := swapped (timers s) i j\<rparr>)))"
proof -
  have set: "set (swapped (timers s) i j) = set (timers s)" using assms(2,3) by simp
  have "timers s ! k = timers s ! i \<longleftrightarrow> k = i" "timers s ! k = timers s ! j \<longleftrightarrow> k = j"
    if "k < length (timers s)" for k
    using index_ok_distinct [OF assms(1)] assms(2,3) that by (simp_all add: nth_eq_iff_index_eq)
  then show ?thesis
    using assms unfolding index_ok_def by (auto simp: set nth_list_update)
qed

lemma timer_val_eq: "(\<lambda>p. (p, t_t (store s' p))) = (\<lambda>p. (p, t_t (store s p))) \<longleftrightarrow>
    (\<forall>p. t_t (store s' p) = t_t (store s p))"
  by (auto simp: fun_eq_iff)

interpretation th: heap_interface timerHeap timer_elems "\<lambda>_. True" timer_lt index_ok fresh_timer
  "\<lambda>s p. (p, t_t (store s p))"
proof unfold_locales
  fix s i j assume ij: "i < length (timer_elems s)" "j < length (timer_elems s)"
  then show "\<exists>s'. Swap timerHeap s i j = Some s' \<and> timer_elems s' = swapped (timer_elems s) i j"
    by (simp add: timerHeap_def timerHeap_Swap_eq timer_elems_def map_update)
next
  fix s i j s' assume "index_ok s" "i < length (timer_elems s)" "j < length (timer_elems s)"
    "Swap timerHeap s i j = Some s'"
  then show "index_ok s' \<and> (\<lambda>p. (p, t_t (store s' p))) = (\<lambda>p. (p, t_t (store s p)))"
    by (auto simp: timerHeap_def timerHeap_Swap_eq timer_elems_def index_ok_swap)
next
  fix s x assume "index_ok s" "fresh_timer s x"
  then show "\<exists>s'. hPush timerHeap s x = Some s' \<and> index_ok s' \<and>
      timer_elems s' = timer_elems s @ [(x, t_t (store s x))] \<and>
      (\<lambda>p. (p, t_t (store s' p))) = (\<lambda>p. (p, t_t (store s p)))"
    by (auto simp: timerHeap_def timerHeap_Push_def timer_elems_def index_ok_def fresh_timer_def
        nth_append Let_def)
next
  fix s assume s: "index_ok s" "timer_elems s \<noteq> []"
  then obtain ps p where ps: "timers s = ps @ [p]"
    by (metis list.simps(8) rev_exhaust timer_elems_def)
  then show "\<exists>x s'. hPop timerHeap s = Some (x, s') \<and> index_ok s' \<and> timer_elems s' = butlast (timer_elems s) \<and>
      (x, t_t (store s x)) = last (timer_elems s) \<and>
      (\<lambda>p. (p, t_t (store s' p))) = (\<lambda>p. (p, t_t (store s p)))"
    using s index_ok_distinct [OF s(1)]
    by (auto simp: timerHeap_def timerHeap_Pop_def timer_elems_def index_ok_def nth_append go_index_def
        go_slice_def Let_def All_less_Suc)
qed (auto simp: timerHeap_def timerHeap_Less_def timer_elems_def timer_lt_def go_index_def)

section \<open>Operations on the heap of timers\<close>

text \<open>What the heap operations leave alone: everything but the queue and the index fields.\<close>

definition frame :: "timer_state \<Rightarrow> int \<times> nat \<times> nat \<times> (nat \<times> timer_func \<times> int) list \<times> (nat \<Rightarrow> Timer)" where
  "frame s = (currentSleeper s, nextTimer s, nextChan s, calls s, \<lambda>p. (store s p)\<lparr>t_i := 0\<rparr>)"

lemma frame_set_index [simp]: "frame (set_index p i s) = frame s"
  by (auto simp: frame_def set_index_def)

lemma frame_timers [simp]: "frame (s\<lparr>timers := ts\<rparr>) = frame s"
  by (simp add: frame_def)

lemma frameD:
  assumes "frame s' = frame s"
  shows "currentSleeper s' = currentSleeper s" "nextTimer s' = nextTimer s" "calls s' = calls s"
    "t_t (store s' p) = t_t (store s p)" "t_f (store s' p) = t_f (store s p)"
proof -
  have "(store s' p)\<lparr>t_i := 0\<rparr> = (store s p)\<lparr>t_i := 0\<rparr>"
    using assms by (simp add: frame_def fun_eq_iff)
  then show "t_t (store s' p) = t_t (store s p)" "t_f (store s' p) = t_f (store s p)"
    by (metis Timer.select_convs(2) Timer.surjective Timer.update_convs(4),
        metis Timer.select_convs(3) Timer.surjective Timer.update_convs(4))
qed (use assms in \<open>simp_all add: frame_def\<close>)

lemma Swap_frame: "Swap timerHeap s i j = Some s' \<Longrightarrow> frame s' = frame s"
  by (auto simp: timerHeap_def timerHeap_Swap_def bind_eq_Some_iff Let_def)

lemma up_SomeE:
  assumes "up I h j = Some h'"
  obtains "h' = h" | i h1 where "i < j" "Swap I h i j = Some h1" "up I h1 i = Some h'"
proof -
  have "(j - 1) div 2 < j" if "(j - 1) div 2 \<noteq> j" using that by (cases j) auto
  with assms that(1) that(2) [of "(j - 1) div 2"] show ?thesis
    by (subst (asm) up.simps [of I h j]) (auto simp: Let_def bind_eq_Some_iff split: if_splits)
qed

lemma up_keeps:
  assumes "\<And>s i j s'. Swap I s i j = Some s' \<Longrightarrow> m s' = m s" "up I h j = Some h'"
  shows "m h' = m h"
  using assms(2)
proof (induction j arbitrary: h rule: less_induct)
  case (less j)
  from less.prems show ?case
  proof (cases rule: up_SomeE)
    case (2 i h1)
    with less.IH [OF 2(1) 2(3)] assms(1) [OF 2(2)] show ?thesis by simp
  qed simp
qed

lemma down_frame: "down timerHeap s i n = Some s' \<Longrightarrow> frame s' = frame s"
  by (rule down_keeps [where m = frame]) (rule Swap_frame)

lemma up_frame: "up timerHeap s i = Some s' \<Longrightarrow> frame s' = frame s"
  by (rule up_keeps [where m = frame]) (rule Swap_frame)

lemmas timer_frame = down_frame up_frame Swap_frame

lemma hPush_frame: "hPush timerHeap s e = Some s' \<Longrightarrow> frame s' = frame s"
  by (auto simp: timerHeap_def timerHeap_Push_def Let_def)

lemma hPop_frame: "hPop timerHeap s = Some (e, s') \<Longrightarrow> frame s' = frame s"
  by (auto simp: timerHeap_def timerHeap_Pop_def Let_def bind_eq_Some_iff)

lemma heap_Push_frame: "heap_Push timerHeap s e = Some s' \<Longrightarrow> frame s' = frame s"
  by (auto simp: heap_Push_def bind_eq_Some_iff dest!: timer_frame hPush_frame)

lemma heap_Pop_frame: "heap_Pop timerHeap s = Some (e, s') \<Longrightarrow> frame s' = frame s"
  by (auto simp: heap_Pop_def Let_def bind_eq_Some_iff split: if_splits dest!: timer_frame hPop_frame)

lemma heap_Remove_frame: "heap_Remove timerHeap s i = Some (e, s') \<Longrightarrow> frame s' = frame s"
  by (auto simp: heap_Remove_def Let_def bind_eq_Some_iff split: if_splits dest!: timer_frame hPop_frame)

text \<open>The queue is a heap by time with right indices.\<close>

definition queue_ok :: "timer_state \<Rightarrow> bool" where
  "queue_ok s \<longleftrightarrow> index_ok s \<and> is_heap timer_lt (timer_elems s)"

lemma timer_elems_fst: "timers s = map fst (timer_elems s)"
  by (simp add: timer_elems_def comp_def)

lemma Push_queue:
  assumes "queue_ok s" "fresh_timer s e"
  obtains s' where "heap_Push timerHeap s e = Some s'" "queue_ok s'" "frame s' = frame s"
    "mset (timers s') = add_mset e (mset (timers s))"
proof -
  obtain s' where s': "heap_Push timerHeap s e = Some s'" "queue_ok s'"
    "mset (timer_elems s') = add_mset (e, t_t (store s e)) (mset (timer_elems s))"
    using th.Push_spec [of s e] assms by (auto simp: queue_ok_def)
  then have "mset (timers s') = add_mset e (mset (timers s))"
    by (simp add: timer_elems_fst)
  with s' that heap_Push_frame show ?thesis by blast
qed

lemma timer_elems_length: "length (timer_elems s) = length (timers s)"
  by (simp add: timer_elems_def)

lemma Pop_queue:
  assumes "queue_ok s" "timers s = e # ps" "length (timers s) \<le> 2 ^ 28"
  obtains s' where "heap_Pop timerHeap s = Some (e, s')" "queue_ok s'" "frame s' = frame s"
    "mset (timers s) = add_mset e (mset (timers s'))"
proof -
  have "timer_elems s \<noteq> []" using assms(2) by (simp add: timer_elems_def)
  then obtain x s' where s': "heap_Pop timerHeap s = Some (x, s')" "queue_ok s'"
    "(x, t_t (store s x)) = timer_elems s ! 0"
    "mset (timer_elems s) = add_mset (x, t_t (store s x)) (mset (timer_elems s'))"
    using th.Pop_spec [of s] assms(1,3) timer_elems_length [of s] unfolding queue_ok_def by auto
  from arg_cong [OF s'(4), of "image_mset fst"] have "mset (timers s) = add_mset x (mset (timers s'))"
    by (simp add: timer_elems_fst)
  moreover have "x = e" using s'(3) assms(2) by (simp add: timer_elems_def)
  ultimately show ?thesis using s' that heap_Pop_frame by blast
qed

lemma Remove_queue:
  assumes "queue_ok s" "e < nextTimer s" "0 < t_i (store s e)" "length (timers s) \<le> 2 ^ 28"
  obtains s' where "heap_Remove timerHeap s (nat (t_i (store s e))) = Some (e, s')" "queue_ok s'"
    "frame s' = frame s" "mset (timers s) = add_mset e (mset (timers s'))" "hd (timers s) \<noteq> e"
proof -
  let ?i = "nat (t_i (store s e))"
  have "e \<in> set (timers s)" using assms unfolding queue_ok_def index_ok_def by fastforce
  then obtain k where k: "k < length (timers s)" "timers s ! k = e" by (auto simp: in_set_conv_nth)
  then have i: "?i = k" "0 < k" using assms(1,3) by (auto simp: queue_ok_def index_ok_def)
  have len: "k < length (timer_elems s)" using k(1) by (simp add: timer_elems_def)
  obtain x s' where s': "heap_Remove timerHeap s ?i = Some (x, s')" "queue_ok s'"
    "(x, t_t (store s x)) = timer_elems s ! k"
    "mset (timer_elems s) = add_mset (x, t_t (store s x)) (mset (timer_elems s'))"
    using th.Remove_spec [of s ?i] assms(1,4) i(1) len timer_elems_length [of s] unfolding queue_ok_def by auto
  from arg_cong [OF s'(4), of "image_mset fst"] have "mset (timers s) = add_mset x (mset (timers s'))"
    by (simp add: timer_elems_fst)
  moreover have x: "x = e" using s'(3) k by (simp add: timer_elems_def)
  moreover have "hd (timers s) \<noteq> e"
    using i(2) k nth_eq_iff_index_eq [OF index_ok_distinct, of s 0 k] assms(1)
    by (cases "timers s") (auto simp: queue_ok_def)
  ultimately show ?thesis using s' that heap_Remove_frame by blast
qed

text \<open>The time of the first event, the one a sleeper waits for.\<close>

definition first_t :: "timer_state \<Rightarrow> int" where
  "first_t s = t_t (store s (hd (timers s)))"

lemma first_t_le:
  assumes "queue_ok s" "p \<in> set (timers s)"
  shows "first_t s \<le> t_t (store s p)"
proof -
  obtain k where k: "k < length (timers s)" "timers s ! k = p" using assms(2) by (auto simp: in_set_conv_nth)
  then have "\<not> timer_lt (timer_elems s ! k) (timer_elems s ! 0)"
    using assms(1) by (intro th.is_heap_root) (auto simp: queue_ok_def timer_elems_def)
  moreover have "timers s ! 0 = hd (timers s)" "0 < length (timers s)" using k(1) by (cases "timers s"; simp)+
  ultimately show ?thesis using k by (simp add: timer_elems_def timer_lt_def first_t_def)
qed

lemma first_t_eqI:
  assumes "queue_ok s" "p \<in> set (timers s)" "\<And>q. q \<in> set (timers s) \<Longrightarrow> t_t (store s p) \<le> t_t (store s q)"
  shows "first_t s = t_t (store s p)"
proof -
  have "hd (timers s) \<in> set (timers s)" using assms(2) by (cases "timers s") auto
  from assms(3) [OF this] first_t_le [OF assms(1,2)] show ?thesis by (simp add: first_t_def)
qed

section \<open>The operations on a well-formed queue\<close>

text \<open>The sentinel, timer 0, is always in the queue. The queue holds at most \<open>2 ^ 28\<close> timers, so that the indices in
  \<open>down\<close> do not wrap around: a \<open>Timer\<close> takes 20 bytes of an address space of 32 bits.\<close>

definition timers_ok :: "timer_state \<Rightarrow> bool" where
  "timers_ok s \<longleftrightarrow> queue_ok s \<and> 0 \<in> set (timers s) \<and> t_t (store s 0) = forever \<and> length (timers s) \<le> 2 ^ 28"

lemma timers_ok_index0:
  "timers_ok s \<Longrightarrow> go_index (timers s) 0 = Some (hd (timers s)) \<and> timers s = hd (timers s) # tl (timers s)"
  by (cases "timers s") (auto simp: timers_ok_def go_index_def)

lemma timers_ok_bound: "timers_ok s \<Longrightarrow> p \<in> set (timers s) \<Longrightarrow> p < nextTimer s"
  by (simp add: timers_ok_def queue_ok_def index_ok_def)

lemma first_t_forever: "timers_ok s \<Longrightarrow> first_t s \<le> forever"
  using first_t_le [of s 0] by (auto simp: timers_ok_def)

lemma new_Timer_queue:
  assumes "timers_ok s" "new_Timer c t f (-1) s = (e, s1)"
  shows "queue_ok s1" "fresh_timer s1 e" "timers s1 = timers s" "first_t s1 = first_t s" "e = nextTimer s"
    "currentSleeper s1 = currentSleeper s" "calls s1 = calls s" "nextTimer s1 = Suc (nextTimer s)"
    "t_t (store s1 e) = t" "t_f (store s1 e) = f" "p \<noteq> e \<Longrightarrow> store s1 p = store s p"
proof -
  note d = assms(2) [unfolded new_Timer_def, simplified, THEN conjunct1, symmetric]
    assms(2) [unfolded new_Timer_def, simplified, THEN conjunct2, symmetric]
  have old: "p \<noteq> nextTimer s" if "p \<in> set (timers s)" for p
    using timers_ok_bound [OF assms(1) that] by simp
  then have el: "timer_elems s1 = timer_elems s" by (simp add: d timer_elems_def)
  have "index_ok s" using assms(1) by (simp add: timers_ok_def queue_ok_def)
  then have "index_ok s1" using old by (auto simp: index_ok_def d less_Suc_eq)
  then show "queue_ok s1" using assms(1) by (simp add: el queue_ok_def timers_ok_def)
  show "fresh_timer s1 e" using old by (auto simp: fresh_timer_def d)
  have "hd (timers s) \<in> set (timers s)" using timers_ok_index0 [OF assms(1)] by (metis list.set_intros(1))
  then show "first_t s1 = first_t s" using old by (simp add: first_t_def d)
qed (simp_all add: assms(2) [unfolded new_Timer_def, simplified, THEN conjunct1, symmetric]
    assms(2) [unfolded new_Timer_def, simplified, THEN conjunct2, symmetric])

definition starts_sleeper :: "int \<Rightarrow> int \<Rightarrow> int \<Rightarrow> bool" where
  "starts_sleeper t0 t ns \<longleftrightarrow> t0 > t \<and> (t0 = forever \<or> ns < maxSleepTime)"

lemma after_spec:
  assumes "timers_ok s" and t: "t = int64 (now' + ns)" and "\<not> (ns > 0 \<and> t < now)"
  obtains s' where "after ns f now now' s = Some (nextTimer s,
      (if starts_sleeper (first_t s) t ns then Some (currentSleeper s') else None), s')"
    "length (timers s) < 2 ^ 28 \<Longrightarrow> timers_ok s'" "first_t s' = min (first_t s) t" "calls s' = calls s"
    "nextTimer s' = Suc (nextTimer s)"
    "mset (timers s') = add_mset (nextTimer s) (mset (timers s))"
    "currentSleeper s' = (if starts_sleeper (first_t s) t ns then int64 (currentSleeper s + 1) else currentSleeper s)"
    "t_t (store s' (nextTimer s)) = t" "t_f (store s' (nextTimer s)) = Some f"
    "\<And>p. p \<noteq> nextTimer s \<Longrightarrow> t_t (store s' p) = t_t (store s p) \<and> t_f (store s' p) = t_f (store s p)"
proof -
  obtain e s1 where n: "new_Timer None t (Some f) (-1) s = (e, s1)" by (metis surj_pair)
  note s1 = new_Timer_queue [OF assms(1) n]
  obtain s2 where s2: "heap_Push timerHeap s1 e = Some s2" "queue_ok s2" "frame s2 = frame s1"
    "mset (timers s2) = add_mset e (mset (timers s1))"
    using Push_queue [OF s1(1,2)] by blast
  note f2 = frameD [OF s2(3)]
  have set2: "set (timers s2) = insert e (set (timers s))"
    using s2(4) s1(3) by (metis set_mset_add_mset_insert set_mset_mset)
  have e0: "0 \<in> set (timers s)" "e \<noteq> 0" using assms(1) timers_ok_bound [OF assms(1), of 0] s1(5)
    by (auto simp: timers_ok_def)
  have "length (timers s2) = Suc (length (timers s))" using arg_cong [OF s2(4), of size] s1(3) by simp
  then have ok2: "timers_ok s2" if "length (timers s) < 2 ^ 28"
    using s2(2) set2 e0 f2(4) [of 0] s1(11) [of 0] assms(1) that by (simp add: timers_ok_def)
  have hd: "hd (timers s) \<in> set (timers s)" "t_t (store s2 (hd (timers s))) = first_t s"
    using timers_ok_index0 [OF assms(1)] f2(4) [of "hd (timers s)"] s1(4,3)
    by (metis list.set_intros(1), simp add: first_t_def)
  have et: "t_t (store s2 e) = t" using f2(4) [of e] s1(9) by simp
  have le: "first_t s \<le> t_t (store s2 q)" if "q \<in> set (timers s)" for q
    using first_t_le [of s q] that assms(1) f2(4) [of q] s1(11) [of q] et timers_ok_bound [OF assms(1) that] s1(5)
    by (auto simp: timers_ok_def)
  have "first_t s2 = (if first_t s \<le> t then first_t s else t)"
  proof (cases "first_t s \<le> t")
    case True
    then show ?thesis using first_t_eqI [OF s2(2), of "hd (timers s)"] hd le et set2 by auto
  next
    case False
    then show ?thesis using first_t_eqI [OF s2(2), of e] et le set2 by fastforce
  qed
  then have ft: "first_t s2 = min (first_t s) t" by (simp add: min_def)
  define s' where "s' = (if starts_sleeper (first_t s) t ns
    then s2\<lparr>currentSleeper := int64 (currentSleeper s2 + 1)\<rparr> else s2)"
  have fields: "timers s' = timers s2" "store s' = store s2" "calls s' = calls s2" "nextTimer s' = nextTimer s2"
    by (simp_all add: s'_def)
  have inv: "timers_ok s' = timers_ok s2" "first_t s' = first_t s2"
    by (simp_all add: fields timers_ok_def queue_ok_def index_ok_def timer_elems_def first_t_def)
  have cs: "currentSleeper s' = (if starts_sleeper (first_t s) t ns then int64 (currentSleeper s + 1) else currentSleeper s)"
    using f2(1) s1(6) by (simp add: s'_def)
  have "after ns f now now' s = Some (nextTimer s,
      (if starts_sleeper (first_t s) t ns then Some (currentSleeper s') else None), s')"
    using assms(3) timers_ok_index0 [OF assms(1)] n s2(1) s1(5)
    by (auto simp: after_def t [symmetric] Let_def first_t_def [symmetric] starts_sleeper_def s'_def)
  then show ?thesis
    using that [OF _ _ _ _ _ _ cs] ok2 ft inv fields f2 s1 et s2(4) by simp
qed

lemma timers_ok_cong:
  assumes "timers s' = timers s" "nextTimer s' = nextTimer s" "\<And>p. t_t (store s' p) = t_t (store s p)"
    "\<And>p. t_i (store s' p) = t_i (store s p)"
  shows "timers_ok s' = timers_ok s" "first_t s' = first_t s"
  using assms by (simp_all add: timers_ok_def queue_ok_def index_ok_def timer_elems_def first_t_def)

lemma clear_f_simps [simp]:
  "timers (clear_f e s) = timers s" "nextTimer (clear_f e s) = nextTimer s" "calls (clear_f e s) = calls s"
  "currentSleeper (clear_f e s) = currentSleeper s" "t_t (store (clear_f e s) p) = t_t (store s p)"
  "t_i (store (clear_f e s) p) = t_i (store s p)"
  "t_f (store (clear_f e s) p) = (if p = e then None else t_f (store s p))"
  by (simp_all add: clear_f_def)

text \<open>The timers that have fired.\<close>

definition fired :: "timer_state \<Rightarrow> nat set" where
  "fired s = fst ` set (calls s)"

text \<open>A timer has fired at most once, not before its time, and a fired timer has no function left.\<close>

definition calls_ok :: "timer_state \<Rightarrow> bool" where
  "calls_ok s \<longleftrightarrow> distinct (map fst (calls s)) \<and> (\<forall>p \<in> fired s. p < nextTimer s \<and> t_f (store s p) = None) \<and>
     (\<forall>(p, f, t) \<in> set (calls s). t_t (store s p) \<le> t)"

text \<open>How the state develops: timers keep their time, and one without a function stays without one and
  does not fire any more.\<close>

definition evolves :: "timer_state \<Rightarrow> timer_state \<Rightarrow> bool" where
  "evolves s s' \<longleftrightarrow> nextTimer s \<le> nextTimer s' \<and> (\<forall>p < nextTimer s. t_t (store s' p) = t_t (store s p) \<and>
     (t_f (store s p) = None \<longrightarrow> t_f (store s' p) = None \<and> (p \<in> fired s' \<longrightarrow> p \<in> fired s)))"

lemma evolves_refl [simp]: "evolves s s"
  by (simp add: evolves_def)

lemma evolves_trans: "evolves s s' \<Longrightarrow> evolves s' s'' \<Longrightarrow> evolves s s''"
  by (auto simp: evolves_def)

lemma evolves_frame: "frame s' = frame s \<Longrightarrow> evolves s s'"
  by (simp add: evolves_def fired_def frameD [of s' s])

lemma calls_ok_frame: "frame s' = frame s \<Longrightarrow> calls_ok s' = calls_ok s"
  by (simp add: calls_ok_def fired_def frameD [of s' s])

lemma Stop_spec:
  assumes "timers_ok s" "e < nextTimer s" "e \<noteq> 0"
  obtains s' where "Stop e s = Some (t_f (store s e) \<noteq> None, s')" "timers_ok s'" "first_t s' = first_t s"
    "currentSleeper s' = currentSleeper s" "evolves s s'" "calls_ok s \<Longrightarrow> calls_ok s'"
    "t_f (store s' e) = None" "calls s' = calls s" "nextTimer s' = nextTimer s"
    "set (timers s') \<subseteq> set (timers s)"
proof -
  obtain s1 where s1: "(if t_i (store s e) > 0
         then do { (_, s) \<leftarrow> heap_Remove timerHeap s (nat (t_i (store s e))); Some s } else Some s) = Some s1"
    "timers_ok s1" "first_t s1 = first_t s" "frame s1 = frame s" "set (timers s1) \<subseteq> set (timers s)"
  proof (cases "t_i (store s e) > 0")
    case False
    with assms(1) that [of s] show ?thesis by simp
  next
    case True
    obtain s1 where s1: "heap_Remove timerHeap s (nat (t_i (store s e))) = Some (e, s1)" "queue_ok s1"
      "frame s1 = frame s" "mset (timers s) = add_mset e (mset (timers s1))" "hd (timers s) \<noteq> e"
      using Remove_queue [OF _ assms(2) True] assms(1) by (auto simp: timers_ok_def)
    have len: "length (timers s) = Suc (length (timers s1))" using arg_cong [OF s1(4), of size] by simp
    have set: "set (timers s) = insert e (set (timers s1))"
      using s1(4) by (metis set_mset_add_mset_insert set_mset_mset)
    note f = frameD(4) [OF s1(3)]
    have "timers_ok s1" using assms(1,3) s1(2) set f [of 0] len by (auto simp: timers_ok_def)
    moreover have "hd (timers s) \<in> set (timers s1)"
      using timers_ok_index0 [OF assms(1)] set s1(5) by (metis insertE list.set_intros(1))
    then have "first_t s1 = first_t s"
      using first_t_eqI [OF s1(2), of "hd (timers s)"] first_t_le [of s] assms(1) set f
      by (simp add: timers_ok_def first_t_def)
    ultimately show ?thesis using that [of s1] True s1(1,3) set by auto
  qed
  note f1 = frameD [OF s1(4)]
  have "Stop e s = Some (t_f (store s e) \<noteq> None, clear_f e s1)"
    using s1(1) f1(5) [of e] by (simp add: Stop_def)
  moreover have "evolves s (clear_f e s1)" using f1 by (auto simp: evolves_def fired_def)
  moreover have "calls_ok s \<Longrightarrow> calls_ok (clear_f e s1)"
    using f1 by (auto simp: calls_ok_def fired_def)
  ultimately show ?thesis
    using that timers_ok_cong [of "clear_f e s1" s1] s1(2,3,5) f1 by simp
qed

lemma call_f_spec:
  assumes "timers_ok s" "e = hd (timers s)" "t_t (store s e) \<le> now"
  shows "timers_ok (call_f e now s)" "first_t (call_f e now s) = first_t s" "evolves s (call_f e now s)"
    "currentSleeper (call_f e now s) = currentSleeper s" "nextTimer (call_f e now s) = nextTimer s"
    "t_t (store (call_f e now s) p) = t_t (store s p)"
    "t_f (store (call_f e now s) p) = (if p = e then None else t_f (store s p))"
    "calls_ok s \<Longrightarrow> calls_ok (call_f e now s)"
    "t_f (store s e) = Some g \<Longrightarrow> (e, g, now) \<in> set (calls (call_f e now s))"
    "set (calls s) \<subseteq> set (calls (call_f e now s))"
proof -
  let ?s = "call_f e now s"
  have e: "e < nextTimer s" using timers_ok_bound [OF assms(1)] timers_ok_index0 [OF assms(1)] assms(2)
    by (metis list.set_intros(1))
  have un: "nextTimer ?s = nextTimer s" "currentSleeper ?s = currentSleeper s"
    "t_t (store ?s p) = t_t (store s p)" "t_i (store ?s p) = t_i (store s p)"
    "t_f (store ?s p) = (if p = e then None else t_f (store s p))" for p
    by (simp_all add: call_f_def clear_f_def split: option.split)
  then show "nextTimer ?s = nextTimer s" "currentSleeper ?s = currentSleeper s"
    "t_t (store ?s p) = t_t (store s p)" "t_f (store ?s p) = (if p = e then None else t_f (store s p))"
    by blast+
  show "timers_ok ?s" "first_t ?s = first_t s"
    using timers_ok_cong [of ?s s] un assms(1) by simp_all
  show "evolves s ?s" "calls_ok s \<Longrightarrow> calls_ok ?s"
    using un e assms(3)
    by (auto simp: evolves_def calls_ok_def fired_def call_f_def clear_f_def image_iff split: option.splits)
  show "t_f (store s e) = Some g \<Longrightarrow> (e, g, now) \<in> set (calls ?s)" "set (calls s) \<subseteq> set (calls ?s)"
    by (auto simp: call_f_def split: option.splits)
qed

section \<open>The sleeper on a well-formed queue\<close>

text \<open>The effect of the inner loop: exactly the timers that are due at \<open>now\<close> leave the queue, those with
  a function are called, and the first event left is in the future.\<close>

definition drained :: "int \<Rightarrow> timer_state \<Rightarrow> timer_state \<Rightarrow> bool" where
  "drained now s s' \<longleftrightarrow> timers_ok s' \<and> now < first_t s' \<and> evolves s s' \<and> set (calls s) \<subseteq> set (calls s') \<and>
     currentSleeper s' = currentSleeper s \<and> nextTimer s' = nextTimer s \<and> (calls_ok s \<longrightarrow> calls_ok s') \<and>
     set (timers s') = {p \<in> set (timers s). now < t_t (store s p)} \<and>
     (\<forall>p \<in> set (timers s). \<forall>g. t_t (store s p) \<le> now \<longrightarrow> t_f (store s p) = Some g \<longrightarrow>
        (p, g, now) \<in> set (calls s')) \<and>
     (\<forall>p. now < t_t (store s p) \<longrightarrow> t_f (store s' p) = t_f (store s p)) \<and>
     (\<forall>p. t_t (store s' p) = t_t (store s p))"

lemma drain_spec:
  assumes "timers_ok s" "now < forever"
  shows "\<exists>s'. drain now (hd (timers s)) s = Some (hd (timers s'), s') \<and> drained now s s'"
  using assms(1)
proof (induction "length (timers s)" arbitrary: s rule: less_induct)
  case less
  let ?e = "hd (timers s)"
  note ne = timers_ok_index0 [OF less.prems]
  have q: "queue_ok s" using less.prems by (simp add: timers_ok_def)
  show ?case
  proof (cases "t_t (store s ?e) \<le> now")
    case False
    then have "now < t_t (store s p)" if "p \<in> set (timers s)" for p
      using first_t_le [OF q that] by (simp add: first_t_def)
    then have "drained now s s"
      using False less.prems unfolding drained_def by (auto simp: first_t_def dest!: leD)
    then show ?thesis using False by (subst drain.simps) auto
  next
    case True
    let ?s = "call_f ?e now s"
    note c = call_f_spec [OF less.prems refl True]
    have q1: "queue_ok ?s" using c(1) by (simp add: timers_ok_def)
    have "timers ?s = ?e # tl (timers s)" using ne by simp
    then obtain s2 where s2: "heap_Pop timerHeap ?s = Some (?e, s2)" "queue_ok s2" "frame s2 = frame ?s"
      "mset (timers ?s) = add_mset ?e (mset (timers s2))"
      by (rule Pop_queue [OF q1]) (use less.prems in \<open>simp add: timers_ok_def\<close>)
    note f2 = frameD [OF s2(3)]
    have e0: "?e \<noteq> 0" using True assms(2) less.prems by (metis linorder_not_less timers_ok_def)
    have ms: "mset (timers s) = mset (?e # timers s2)" using s2(4) by simp
    have "distinct (timers s)" using q index_ok_distinct by (simp add: queue_ok_def)
    with mset_eq_imp_distinct_iff [OF ms] mset_eq_setD [OF ms] have set2: "set (timers s2) = set (timers s) - {?e}" by auto
    have len: "length (timers s2) < length (timers s)"
      using arg_cong [OF s2(4), of size] by simp
    then have ok2: "timers_ok s2"
      using s2(2) set2 e0 c(6) [of 0] f2(4) [of 0] less.prems by (auto simp: timers_ok_def)
    obtain s' where s': "drain now (hd (timers s2)) s2 = Some (hd (timers s'), s')" "drained now s2 s'"
      using less.hyps [OF len ok2] by blast
    have ev: "evolves s s2" using evolves_trans [OF c(3) evolves_frame [OF s2(3)]] .
    have cs: "calls s2 = calls ?s" using f2(3) .
    have "drained now s s'"
      unfolding drained_def
    proof (intro conjI)
      show "set (timers s') = {p \<in> set (timers s). now < t_t (store s p)}"
        using s'(2) set2 True f2(4) c(6) by (auto simp: drained_def)
      show "\<forall>p \<in> set (timers s). \<forall>g. t_t (store s p) \<le> now \<longrightarrow> t_f (store s p) = Some g \<longrightarrow>
          (p, g, now) \<in> set (calls s')"
      proof (intro ballI allI impI)
        fix p g assume p: "p \<in> set (timers s)" "t_t (store s p) \<le> now" "t_f (store s p) = Some g"
        show "(p, g, now) \<in> set (calls s')"
        proof (cases "p = ?e")
          case True
          then show ?thesis using c(9) [of g] p(3) cs s'(2) by (auto simp: drained_def)
        next
          case False
          then have "p \<in> set (timers s2)" "t_t (store s2 p) \<le> now" "t_f (store s2 p) = Some g"
            using p set2 f2(4,5) [of p] c(6,7) [of p] by simp_all
          then show ?thesis using s'(2) by (simp add: drained_def)
        qed
      qed
      show "\<forall>p. now < t_t (store s p) \<longrightarrow> t_f (store s' p) = t_f (store s p)"
        using s'(2) f2(4,5) c(6,7) True by (auto simp: drained_def)
      show "set (calls s) \<subseteq> set (calls s')" using s'(2) cs c(10) by (auto simp: drained_def)
      show "evolves s s'" using s'(2) evolves_trans [OF ev] by (simp add: drained_def)
      show "calls_ok s \<longrightarrow> calls_ok s'"
        using s'(2) c(8) calls_ok_frame [OF s2(3)] by (simp add: drained_def)
    qed (use s'(2) f2 c in \<open>auto simp: drained_def\<close>)
    with s'(1) s2(1) True timers_ok_index0 [OF ok2] show ?thesis
      by (subst drain.simps) auto
  qed
qed

lemma drained_first_t:
  assumes "timers_ok s" "drained now s s'"
  shows "first_t s \<le> first_t s'"
proof -
  have "hd (timers s') \<in> set (timers s')"
    using timers_ok_index0 [of s'] assms(2) by (metis drained_def list.set_intros(1))
  then show ?thesis
    using first_t_le [of s "hd (timers s')"] assms by (auto simp: drained_def timers_ok_def first_t_def)
qed

text \<open>The times in the queue, bounded below so that \<open>e.t - t\<close> does not wrap around.\<close>

definition times_low :: "timer_state \<Rightarrow> bool" where
  "times_low s \<longleftrightarrow> (\<forall>p \<in> set (timers s). - (2 ^ 62) \<le> t_t (store s p))"

lemma sleeper_dt:
  assumes "timers_ok s" "times_low s" "0 \<le> t" "t < forever"
  shows "int64 (first_t s - t) = first_t s - t"
proof -
  have "hd (timers s) \<in> set (timers s)" using timers_ok_index0 [OF assms(1)] by (metis list.set_intros(1))
  then have "- (2 ^ 62) \<le> first_t s" using assms(2) by (simp add: times_low_def first_t_def)
  then show ?thesis
    using first_t_forever [OF assms(1)] assms(3,4) by (intro int64_id) (simp add: forever_def is_int64_def)
qed

text \<open>What one run of the sleeper under the mutex gives: no timer is lost, and it ends because no event
  is left or it goes to sleep until the first event at the latest.\<close>

definition sleeper_ran :: "int set \<Rightarrow> timer_state \<Rightarrow> sleeper_res \<Rightarrow> timer_state \<Rightarrow> bool" where
  "sleeper_ran clk s r s' \<longleftrightarrow> timers_ok s' \<and> times_low s' \<and> evolves s s' \<and> first_t s \<le> first_t s' \<and>
     currentSleeper s' = currentSleeper s \<and> (calls_ok s \<longrightarrow> calls_ok s') \<and> nextTimer s' = nextTimer s \<and>
     (r = S_exit \<longrightarrow> first_t s' = forever) \<and>
     (\<forall>t dt. r = S_sleep t dt \<longrightarrow> t \<in> clk \<and> 0 < dt \<and> dt \<le> maxSleepTime \<and> t + dt \<le> first_t s')"

lemma drained_times_low: "drained now s s' \<Longrightarrow> times_low s \<Longrightarrow> times_low s'"
  by (auto simp: drained_def times_low_def)

lemma sleeper_loop_future:
  assumes "timers_ok s" "times_low s" "0 \<le> t" "t < forever" "t < first_t s \<or> first_t s = forever" "t \<in> C"
  shows "\<exists>r. sleeper_loop clk (hd (timers s)) t s = Some (r, s) \<and> sleeper_ran C s r s \<and> r \<noteq> S_more"
proof -
  have "t_t (store s (hd (timers s))) = first_t s" by (simp add: first_t_def)
  then show ?thesis
    using assms sleeper_dt [OF assms(1-4)]
    by (subst sleeper_loop.simps) (auto simp: sleeper_ran_def Let_def maxSleepTime_def)
qed

lemma sleeper_round:
  assumes "timers_ok s" "times_low s" "0 \<le> now" "now < forever" "now \<in> C"
  shows "\<exists>r s'. do { e \<leftarrow> go_index (timers s) 0; (e, s) \<leftarrow> drain now e s; sleeper_loop clk e now s } = Some (r, s') \<and>
     sleeper_ran C s r s' \<and> r \<noteq> S_more"
proof -
  obtain s1 where s1: "drain now (hd (timers s)) s = Some (hd (timers s1), s1)" "drained now s s1"
    using drain_spec [OF assms(1,4)] by blast
  have "timers_ok s1" "now < first_t s1 \<or> first_t s1 = forever" using s1(2) by (simp_all add: drained_def)
  from sleeper_loop_future [OF this(1) drained_times_low [OF s1(2) assms(2)] assms(3,4) this(2) assms(5)]
  obtain r where r: "sleeper_loop clk (hd (timers s1)) now s1 = Some (r, s1)" "sleeper_ran C s1 r s1" "r \<noteq> S_more"
    by blast
  have "sleeper_ran C s r s1"
    using r(2) s1(2) drained_first_t [OF assms(1) s1(2)] by (auto simp: sleeper_ran_def drained_def)
  with r s1(1) timers_ok_index0 [OF assms(1)] show ?thesis by auto
qed

lemma sleeper_start_spec:
  assumes "timers_ok s" "times_low s" "\<forall>c \<in> set (t # clk). 0 \<le> c \<and> c < forever" "clk \<noteq> []"
  shows "\<exists>r s'. sleeper_start t clk s = Some (r, s') \<and> sleeper_ran (set (t # clk)) s r s' \<and> r \<noteq> S_more"
proof (cases "t < first_t s \<or> first_t s = forever")
  case True
  from sleeper_loop_future [OF assms(1,2) _ _ this, of "set (t # clk)" clk] assms(3)
  show ?thesis using timers_ok_index0 [OF assms(1)] by (auto simp: sleeper_start_def)
next
  case False
  obtain now clk' where clk: "clk = now # clk'" using assms(4) by (cases clk) auto
  from sleeper_round [OF assms(1,2), of now "set (t # clk)" clk'] assms(3) clk
  obtain r s' where r: "do { e \<leftarrow> go_index (timers s) 0; (e, s) \<leftarrow> drain now e s; sleeper_loop clk' e now s } = Some (r, s')"
     "sleeper_ran (set (t # clk)) s r s'" "r \<noteq> S_more" by auto
  have "int64 (first_t s - t) = first_t s - t" using sleeper_dt [OF assms(1,2)] assms(3) by simp
  then have "sleeper_loop clk (hd (timers s)) t s = Some (r, s')"
    using False r(1) by (subst sleeper_loop.simps) (simp add: clk first_t_def [symmetric])
  then show ?thesis using r timers_ok_index0 [OF assms(1)] by (auto simp: sleeper_start_def)
qed

lemma sleeper_wake_spec:
  assumes "timers_ok s" "times_low s" "0 \<le> now" "now < forever" "currentSleeper s = i"
  shows "\<exists>r s'. sleeper_wake i now clk s = Some (r, s') \<and> sleeper_ran (set (now # clk)) s r s' \<and> r \<noteq> S_more"
  using sleeper_round [OF assms(1-4), of "set (now # clk)" clk] assms(5) by (auto simp: sleeper_wake_def)

section \<open>The system of goroutines\<close>

text \<open>A sleeper goroutine is about to run \<open>sleeper(id)\<close>, or it is in \<open>syscall.Sleep\<close>, with the time it
  asked to be woken at.\<close>

datatype sleeper_pc = SP_start | SP_wait int

record sys =
  ts :: timer_state
  sleepers :: "(int \<times> sleeper_pc) multiset"
  clock :: int

definition spawn :: "int option \<Rightarrow> (int \<times> sleeper_pc) multiset \<Rightarrow> (int \<times> sleeper_pc) multiset" where
  "spawn go M = (case go of None \<Rightarrow> M | Some i \<Rightarrow> add_mset (i, SP_start) M)"

definition resume :: "int \<Rightarrow> sleeper_res \<Rightarrow> (int \<times> sleeper_pc) multiset \<Rightarrow> (int \<times> sleeper_pc) multiset" where
  "resume i r M = (case r of S_sleep t dt \<Rightarrow> add_mset (i, SP_wait (t + dt)) M | _ \<Rightarrow> M)"

text \<open>\<open>after\<close> reads the clock before it takes the mutex, at most \<open>lag\<close> nanoseconds before it holds the
  mutex (time \<open>c\<close>). The readings of a sleeper are made under the mutex and do not go back. Durations
  below \<open>-2^62\<close> are left out: there \<open>e.t - t\<close> wraps around. \<open>Stop\<close> is called on a timer some call
  returned, never on the sentinel. A timer is started while there are fewer than \<open>2 ^ 28\<close> in the queue:
  \<open>2 ^ 28\<close> values of type \<open>Timer\<close>, of 20 bytes each, do not fit in the address space of 386.\<close>

inductive sys_step :: "int \<Rightarrow> sys \<Rightarrow> sys \<Rightarrow> bool" for lag where
  step_NewTimer: "0 \<le> now \<Longrightarrow> now \<le> now' \<Longrightarrow> now' \<le> c \<Longrightarrow> clock y \<le> c \<Longrightarrow> c \<le> now' + lag \<Longrightarrow> c < forever \<Longrightarrow>
    is_int64 ns \<Longrightarrow> - (2 ^ 62) \<le> ns \<Longrightarrow> length (timers (ts y)) < 2 ^ 28 \<Longrightarrow>
    NewTimer ns now now' (ts y) = Some (e, go, s') \<Longrightarrow>
    sys_step lag y \<lparr>ts = s', sleepers = spawn go (sleepers y), clock = c\<rparr>"
| step_AfterFunc: "0 \<le> now \<Longrightarrow> now \<le> now' \<Longrightarrow> now' \<le> c \<Longrightarrow> clock y \<le> c \<Longrightarrow> c \<le> now' + lag \<Longrightarrow> c < forever \<Longrightarrow>
    is_int64 ns \<Longrightarrow> - (2 ^ 62) \<le> ns \<Longrightarrow> length (timers (ts y)) < 2 ^ 28 \<Longrightarrow>
    AfterFunc ns f now now' (ts y) = Some (e, go, s') \<Longrightarrow>
    sys_step lag y \<lparr>ts = s', sleepers = spawn go (sleepers y), clock = c\<rparr>"
| step_Stop: "e \<noteq> 0 \<Longrightarrow> e < nextTimer (ts y) \<Longrightarrow> Stop e (ts y) = Some (b, s') \<Longrightarrow>
    sys_step lag y (y\<lparr>ts := s'\<rparr>)"
| step_start: "sleepers y = add_mset (i, SP_start) M \<Longrightarrow> sorted (clock y # t # clk) \<Longrightarrow>
    \<forall>c \<in> set (t # clk). c < forever \<Longrightarrow> sleeper_start t clk (ts y) = Some (r, s') \<Longrightarrow> r \<noteq> S_more \<Longrightarrow>
    sys_step lag y \<lparr>ts = s', sleepers = resume i r M, clock = last (t # clk)\<rparr>"
| step_wake: "sleepers y = add_mset (i, SP_wait w) M \<Longrightarrow> sorted (clock y # now # clk) \<Longrightarrow>
    \<forall>c \<in> set (now # clk). c < forever \<Longrightarrow> sleeper_wake i now clk (ts y) = Some (r, s') \<Longrightarrow> r \<noteq> S_more \<Longrightarrow>
    sys_step lag y \<lparr>ts = s', sleepers = resume i r M, clock = last (now # clk)\<rparr>"

inductive sys_reach :: "int \<Rightarrow> sys \<Rightarrow> sys \<Rightarrow> bool" for lag where
  reach_refl: "sys_reach lag y y"
| reach_step: "sys_reach lag y z \<Longrightarrow> sys_step lag z z' \<Longrightarrow> sys_reach lag y z'"

definition sys_init :: "int \<Rightarrow> sys option" where
  "sys_init c = do { s \<leftarrow> time_init zero_state; Some \<lparr>ts = s, sleepers = {#}, clock = c\<rparr> }"

text \<open>The sleeper that answers for the first event: it is about to run, or it wakes up no later than \<open>lag\<close>
  after the event's time.\<close>

definition guarded :: "int \<Rightarrow> sys \<Rightarrow> bool" where
  "guarded lag y \<longleftrightarrow> (currentSleeper (ts y), SP_start) \<in># sleepers y \<or>
     (\<exists>w. (currentSleeper (ts y), SP_wait w) \<in># sleepers y \<and> w \<le> first_t (ts y) + lag)"

definition sys_inv :: "int \<Rightarrow> sys \<Rightarrow> bool" where
  "sys_inv lag y \<longleftrightarrow> timers_ok (ts y) \<and> times_low (ts y) \<and> calls_ok (ts y) \<and> 0 \<le> clock y \<and> clock y < forever \<and>
     (first_t (ts y) \<noteq> forever \<longrightarrow> guarded lag y) \<and>
     (\<forall>i w. (i, SP_wait w) \<in># sleepers y \<longrightarrow> w \<le> clock y + maxSleepTime)"

lemma sys_init_inv:
  assumes "0 \<le> c" "c < forever" "sys_init c = Some y"
  shows "sys_inv lag y"
proof -
  have y: "timers (ts y) = [0]" "nextTimer (ts y) = 1" "t_t (store (ts y) 0) = forever"
    "t_i (store (ts y) 0) = 0" "calls (ts y) = []" "sleepers y = {#}" "clock y = c"
    using assms(3) by (auto simp: sys_init_def time_init_def zero_state_def new_Timer_def timerHeap_Push_def
        set_index_def Let_def)
  then show ?thesis
    using assms(1,2)
    by (simp add: sys_inv_def timers_ok_def queue_ok_def index_ok_def is_heap_def okp_def timer_elems_def
        times_low_def calls_ok_def fired_def first_t_def forever_def)
qed

lemma after_time:
  assumes "0 \<le> now" "now \<le> now'" "now' < forever" "is_int64 ns" "- (2 ^ 62) \<le> ns" "\<not> (ns > 0 \<and> int64 (now' + ns) < now)"
  shows "int64 (now' + ns) = now' + ns"
proof (cases "now' + ns < 2 ^ 63")
  case True
  then show ?thesis using assms by (intro int64_id) (simp add: is_int64_def)
next
  case False
  then have "int64 (now' + ns) < 0" "ns > 0"
    using assms(3,4) int64_wrap [of "now' + ns"] by (auto simp: forever_def is_int64_def)
  then show ?thesis using assms(1,6) by linarith
qed

text \<open>What starting a timer for the time \<open>t\<close> does.\<close>

definition started :: "int \<Rightarrow> int \<Rightarrow> timer_state \<Rightarrow> int option \<Rightarrow> timer_state \<Rightarrow> bool" where
  "started t ns s go s' \<longleftrightarrow> timers_ok s' \<and> first_t s' = min (first_t s) t \<and> evolves s s' \<and>
     calls_ok s' \<and> times_low s' \<and> (if starts_sleeper (first_t s) t ns
       then go = Some (currentSleeper s') else go = None \<and> currentSleeper s' = currentSleeper s)"

lemma after_started:
  assumes s: "timers_ok s" "calls_ok s" "times_low s" "length (timers s) < 2 ^ 28"
    and ns: "0 \<le> now" "now \<le> now'" "now' < forever" "is_int64 ns" "- (2 ^ 62) \<le> ns"
    and r: "after ns f now now' s = Some (e, go, s')"
  shows "started (now' + ns) ns s go s'"
proof -
  have no: "\<not> (ns > 0 \<and> int64 (now' + ns) < now)"
    using r by (auto simp: after_def Let_def split: if_splits)
  have t: "int64 (now' + ns) = now' + ns" by (rule after_time [OF ns no])
  obtain s1 where s1: "after ns f now now' s = Some (nextTimer s,
      (if starts_sleeper (first_t s) (now' + ns) ns then Some (currentSleeper s1) else None), s1)"
    "timers_ok s1" "first_t s1 = min (first_t s) (now' + ns)" "calls s1 = calls s"
    "nextTimer s1 = Suc (nextTimer s)" "mset (timers s1) = add_mset (nextTimer s) (mset (timers s))"
    "currentSleeper s1 = (if starts_sleeper (first_t s) (now' + ns) ns then int64 (currentSleeper s + 1) else currentSleeper s)"
    "t_t (store s1 (nextTimer s)) = now' + ns"
    and old: "\<And>p. p \<noteq> nextTimer s \<Longrightarrow> t_t (store s1 p) = t_t (store s p) \<and> t_f (store s1 p) = t_f (store s p)"
    using after_spec [OF s(1) t [symmetric]] no t s(4) by metis
  have "p \<noteq> nextTimer s" if "p < nextTimer s" for p using that by simp
  then have ev: "evolves s s1" using s1(4,5) old by (simp add: evolves_def fired_def)
  then have co: "calls_ok s1"
    using s(2) s1(4,5) by (fastforce simp: calls_ok_def fired_def evolves_def)
  have "set (timers s1) = insert (nextTimer s) (set (timers s))"
    using arg_cong [OF s1(6), of set_mset] by simp
  moreover have "t_t (store s1 p) = t_t (store s p)" if "p \<in> set (timers s)" for p
    using old [of p] timers_ok_bound [OF s(1) that] by simp
  ultimately have "times_low s1"
    using s(3) s1(8) ns(1,2,5) by (simp add: times_low_def)
  with ev co s1(2,3,7) show ?thesis using r s1(1) by (simp add: started_def split: if_splits)
qed

lemma NewTimer_started:
  assumes s: "timers_ok s" "calls_ok s" "times_low s" "length (timers s) < 2 ^ 28"
    and ns: "0 \<le> now" "now \<le> now'" "now' < forever" "is_int64 ns" "- (2 ^ 62) \<le> ns"
    and r: "NewTimer ns now now' s = Some (e, go, s')"
  shows "started (now' + ns) ns s go s'"
proof -
  let ?s0 = "s\<lparr>nextChan := nextChan s + 1\<rparr>"
  obtain s1 where s1: "after ns (Send_on (nextChan s)) now now' ?s0 = Some (e, go, s1)"
    "s' = s1\<lparr>store := (store s1)(e := (store s1 e)\<lparr>tC := Some (nextChan s)\<rparr>)\<rparr>"
    using r by (auto simp: NewTimer_def Let_def bind_eq_Some_iff)
  have c0: "timers_ok ?s0 = timers_ok s" "first_t ?s0 = first_t s" by (rule timers_ok_cong; simp)+
  have "started (now' + ns) ns ?s0 go s1"
    using s s1(1) c0(1) by (intro after_started [OF _ _ _ _ ns]) (auto simp: calls_ok_def fired_def times_low_def)
  moreover have f: "timers s' = timers s1" "calls s' = calls s1" "nextTimer s' = nextTimer s1"
    "currentSleeper s' = currentSleeper s1" "t_t (store s' p) = t_t (store s1 p)"
    "t_f (store s' p) = t_f (store s1 p)" "t_i (store s' p) = t_i (store s1 p)" for p
    by (simp_all add: s1(2))
  moreover have "timers_ok s' = timers_ok s1" "first_t s' = first_t s1"
    by (rule timers_ok_cong; simp add: f)+
  moreover have "calls_ok s' = calls_ok s1" "times_low s' = times_low s1" "evolves ?s0 s1 = evolves s s'"
    by (simp_all add: f calls_ok_def fired_def times_low_def evolves_def)
  ultimately show ?thesis using c0(2) by (simp add: started_def)
qed

lemma step_started:
  assumes "sys_inv lag y" "started (now' + ns) ns (ts y) go s'" "clock y \<le> c" "c \<le> now' + lag" "c < forever" "0 \<le> lag"
  shows "sys_inv lag \<lparr>ts = s', sleepers = spawn go (sleepers y), clock = c\<rparr>"
proof -
  let ?y = "\<lparr>ts = s', sleepers = spawn go (sleepers y), clock = c\<rparr>" and ?s = "ts y"
  have wait: "w \<le> c + maxSleepTime" if "(i, SP_wait w) \<in># sleepers y" for i w
    using assms(1,3) that by (fastforce simp: sys_inv_def)
  have "guarded lag ?y" if "first_t s' \<noteq> forever"
  proof (cases "starts_sleeper (first_t ?s) (now' + ns) ns")
    case True
    then have "go = Some (currentSleeper s')" using assms(2) by (simp add: started_def)
    then show ?thesis by (simp add: guarded_def spawn_def)
  next
    case False
    then have go: "go = None" "currentSleeper s' = currentSleeper ?s" using assms(2) by (simp_all add: started_def)
    have ft: "first_t s' = min (first_t ?s) (now' + ns)" using assms(2) by (simp add: started_def)
    have nf: "first_t ?s \<noteq> forever"
      using False ft that first_t_forever [of s'] assms(2) by (auto simp: starts_sleeper_def started_def min_def split: if_splits)
    then have "guarded lag y" using assms(1) by (simp add: sys_inv_def)
    moreover have "w \<le> first_t s' + lag" if w: "(i, SP_wait w) \<in># sleepers y" "w \<le> first_t ?s + lag" for i w
    proof (cases "first_t ?s \<le> now' + ns")
      case True
      then show ?thesis using w(2) ft by simp
    next
      case less: False
      then have "maxSleepTime \<le> ns" using False nf by (auto simp: starts_sleeper_def)
      then show ?thesis using wait [OF w(1)] assms(4) ft less by simp
    qed
    ultimately show ?thesis using go by (auto simp: guarded_def spawn_def)
  qed
  then show ?thesis
    using assms wait by (auto simp: sys_inv_def started_def spawn_def split: option.splits)
qed

lemma step_ran:
  assumes "sys_inv lag y" "sleepers y = add_mset (i, pc) M" "sleeper_ran C (ts y) r s'" "r \<noteq> S_more"
    "clock y \<le> c" "c < forever" "\<forall>t \<in> C. t \<le> c" "0 \<le> lag"
  shows "sys_inv lag \<lparr>ts = s', sleepers = resume i r M, clock = c\<rparr>"
proof -
  let ?y = "\<lparr>ts = s', sleepers = resume i r M, clock = c\<rparr>" and ?s = "ts y"
  note ran = assms(3) [unfolded sleeper_ran_def]
  have sub: "x \<in># resume i r M" if "x \<in># M" for x
    using that by (simp add: resume_def split: sleeper_res.split)
  have wait: "w \<le> c + maxSleepTime" if w: "(j, SP_wait w) \<in># resume i r M" for j w
  proof -
    consider "(j, SP_wait w) \<in># sleepers y" | t dt where "r = S_sleep t dt" "w = t + dt"
      using w assms(2) by (auto simp: resume_def split: sleeper_res.splits)
    then show ?thesis
    proof cases
      case 1
      then show ?thesis using assms(1,5) by (fastforce simp: sys_inv_def)
    next
      case (2 t dt)
      then show ?thesis using ran assms(7) by fastforce
    qed
  qed
  have "guarded lag ?y" if nf: "first_t s' \<noteq> forever"
  proof (cases "i = currentSleeper ?s")
    case True
    obtain t dt where "r = S_sleep t dt" using ran assms(4) nf by (cases r) auto
    then show ?thesis using True ran assms(8) by (auto simp: guarded_def resume_def)
  next
    case False
    have "first_t ?s \<noteq> forever" using nf ran first_t_forever [of s'] by auto
    then have "guarded lag y" using assms(1) by (simp add: sys_inv_def)
    then show ?thesis using False assms(2) sub ran by (fastforce simp: guarded_def)
  qed
  then show ?thesis using assms(1,5,6) ran wait by (auto simp: sys_inv_def)
qed

lemma step_defunct:
  assumes "sys_inv lag y" "sleepers y = add_mset (i, pc) M" "currentSleeper (ts y) \<noteq> i"
    "clock y \<le> c" "c < forever"
  shows "sys_inv lag \<lparr>ts = ts y, sleepers = M, clock = c\<rparr>"
  using assms by (fastforce simp: sys_inv_def guarded_def)

lemma sorted_last_clock:
  "sorted (a # t # clk) \<Longrightarrow> \<forall>c \<in> set (t # clk). (a :: int) \<le> c \<and> c \<le> last (t # clk)"
proof (induction clk arbitrary: a t)
  case (Cons x clk)
  then have "\<forall>c \<in> set (x # clk). t \<le> c \<and> c \<le> last (x # clk)" "a \<le> t" by auto
  then show ?case by auto
qed auto

lemma Stop_inv:
  assumes "sys_inv lag y" "e < nextTimer (ts y)" "e \<noteq> 0" "Stop e (ts y) = Some (b, s')"
  shows "sys_inv lag (y\<lparr>ts := s'\<rparr>)" "evolves (ts y) s'"
proof -
  have ok: "timers_ok (ts y)" using assms(1) by (simp add: sys_inv_def)
  obtain s1 where s1: "Stop e (ts y) = Some (t_f (store (ts y) e) \<noteq> None, s1)" "timers_ok s1"
    "first_t s1 = first_t (ts y)" "currentSleeper s1 = currentSleeper (ts y)" "evolves (ts y) s1"
    "calls_ok (ts y) \<Longrightarrow> calls_ok s1" "set (timers s1) \<subseteq> set (timers (ts y))"
    by (rule Stop_spec [OF ok assms(2,3)]) blast
  have "times_low s1"
    using s1(5,7) assms(1) timers_ok_bound [OF ok] by (fastforce simp: sys_inv_def times_low_def evolves_def)
  then show "sys_inv lag (y\<lparr>ts := s'\<rparr>)" "evolves (ts y) s'"
    using s1 assms by (auto simp: sys_inv_def guarded_def)
qed

lemma sleeper_start_ran:
  assumes s: "timers_ok s" "times_low s" and clk: "\<forall>c \<in> set (t # clk). 0 \<le> c \<and> c < forever"
    and r: "sleeper_start t clk s = Some (r, s')" "r \<noteq> S_more"
  shows "sleeper_ran (set (t # clk)) s r s'"
proof (cases "clk = []")
  case False
  from sleeper_start_spec [OF s clk False] show ?thesis using r by auto
next
  case True
  then have t: "0 \<le> t" "t < forever" using clk by auto
  have "t < first_t s \<or> first_t s = forever"
    using r True timers_ok_index0 [OF s(1)] sleeper_dt [OF s t]
    by (auto simp: sleeper_start_def sleeper_loop.simps first_t_def [symmetric] Let_def split: if_splits)
  from sleeper_loop_future [OF s t this, of "set (t # clk)" clk] show ?thesis
    using r timers_ok_index0 [OF s(1)] by (auto simp: sleeper_start_def)
qed

lemma start_inv:
  assumes "sys_inv lag y" "sleepers y = add_mset (i, pc) M" "sorted (clock y # t # clk)"
    "\<forall>c \<in> set (t # clk). c < forever" "r \<noteq> S_more" "0 \<le> lag" "sleeper_start t clk (ts y) = Some (r, s')"
  shows "sys_inv lag \<lparr>ts = s', sleepers = resume i r M, clock = last (t # clk)\<rparr> \<and> evolves (ts y) s'"
proof -
  note cl = sorted_last_clock [OF assms(3)]
  have s: "timers_ok (ts y)" "times_low (ts y)" "0 \<le> clock y" using assms(1) by (simp_all add: sys_inv_def)
  have "\<forall>c \<in> set (t # clk). 0 \<le> c \<and> c < forever" using cl s(3) assms(4) by fastforce
  from sleeper_start_ran [OF s(1,2) this assms(7,5)] have ran: "sleeper_ran (set (t # clk)) (ts y) r s'" .
  have b: "clock y \<le> last (t # clk)" "last (t # clk) < forever" "\<forall>x \<in> set (t # clk). x \<le> last (t # clk)"
    using cl assms(4) last_in_set [of "t # clk"] by blast+
  from step_ran [OF assms(1,2) ran assms(5) b assms(6)] ran show ?thesis by (simp add: sleeper_ran_def)
qed

lemma wake_inv:
  assumes "sys_inv lag y" "sleepers y = add_mset (i, pc) M" "sorted (clock y # now # clk)"
    "\<forall>c \<in> set (now # clk). c < forever" "r \<noteq> S_more" "0 \<le> lag" "sleeper_wake i now clk (ts y) = Some (r, s')"
  shows "sys_inv lag \<lparr>ts = s', sleepers = resume i r M, clock = last (now # clk)\<rparr> \<and> evolves (ts y) s'"
proof -
  note cl = sorted_last_clock [OF assms(3)]
  have s: "timers_ok (ts y)" "times_low (ts y)" "0 \<le> clock y" using assms(1) by (simp_all add: sys_inv_def)
  have b: "clock y \<le> last (now # clk)" "last (now # clk) < forever" "\<forall>x \<in> set (now # clk). x \<le> last (now # clk)"
    using cl assms(4) last_in_set [of "now # clk"] by blast+
  show ?thesis
  proof (cases "currentSleeper (ts y) = i")
    case True
    have "0 \<le> now" "now < forever" using cl s(3) assms(4) by auto
    from sleeper_wake_spec [OF s(1,2) this True, of clk] have ran: "sleeper_ran (set (now # clk)) (ts y) r s'"
      using assms(7) by auto
    from step_ran [OF assms(1,2) ran assms(5) b assms(6)] ran show ?thesis by (simp add: sleeper_ran_def)
  next
    case False
    then have "r = S_exit" "s' = ts y" using assms(7) by (auto simp: sleeper_wake_def)
    then show ?thesis
      using step_defunct [OF assms(1,2) False b(1,2)] by (simp add: resume_def)
  qed
qed

lemma sys_step_inv:
  assumes "sys_step lag y y'" "sys_inv lag y" "0 \<le> lag"
  shows "sys_inv lag y' \<and> evolves (ts y) (ts y')"
  using assms(1)
proof cases
  case (step_NewTimer now now' c ns e go s')
  have "started (now' + ns) ns (ts y) go s'"
    using assms(2) step_NewTimer by (intro NewTimer_started) (auto simp: sys_inv_def)
  then show ?thesis
    using step_started [OF assms(2) _ _ _ _ assms(3)] step_NewTimer by (auto simp: started_def)
next
  case (step_AfterFunc now now' c ns f e go s')
  have "started (now' + ns) ns (ts y) go s'"
    using assms(2) step_AfterFunc by (intro after_started) (auto simp: sys_inv_def AfterFunc_def)
  then show ?thesis
    using step_started [OF assms(2) _ _ _ _ assms(3)] step_AfterFunc by (auto simp: started_def)
next
  case (step_Stop e b s')
  then show ?thesis using Stop_inv [OF assms(2)] by simp
next
  case (step_start i M t clk r s')
  then show ?thesis using start_inv [OF assms(2) step_start(2-4,6) assms(3) step_start(5)] by simp
next
  case (step_wake i w M now clk r s')
  then show ?thesis using wake_inv [OF assms(2) step_wake(2-4,6) assms(3) step_wake(5)] by simp
qed

lemma sys_reach_inv:
  assumes "sys_reach lag y z" "sys_inv lag y" "0 \<le> lag"
  shows "sys_inv lag z \<and> evolves (ts y) (ts z)"
  using assms(1,2)
proof induction
  case (reach_step y z z')
  then show ?case using sys_step_inv [OF reach_step(2) _ assms(3)] evolves_trans by blast
qed simp

section \<open>Properties of the timer system\<close>

lemma sys_run_inv:
  "sys_init c = Some y \<Longrightarrow> 0 \<le> c \<Longrightarrow> c < forever \<Longrightarrow> 0 \<le> lag \<Longrightarrow> sys_reach lag y z \<Longrightarrow> sys_inv lag z"
  using sys_init_inv sys_reach_inv by blast

text \<open>A concrete run for the witnesses: at time 0 a timer of 5000 ns is started.\<close>

definition sample_init :: sys where
  "sample_init = \<lparr>ts = zero_state\<lparr>timers := [0], nextTimer := 1,
       store := (store zero_state)(0 := \<lparr>tC = None, t_t = forever, t_f = None, t_i = 0\<rparr>)\<rparr>,
     sleepers = {#}, clock = 0\<rparr>"

definition sample_started :: sys where
  "sample_started = \<lparr>ts = zero_state\<lparr>timers := [1, 0], nextTimer := 2, currentSleeper := 1,
       store := (store zero_state)(0 := \<lparr>tC = None, t_t = forever, t_f = None, t_i = 1\<rparr>,
         1 := \<lparr>tC = None, t_t = 5000, t_f = Some (Go_func 7), t_i = 0\<rparr>)\<rparr>,
     sleepers = {#(1, SP_start)#}, clock = 0\<rparr>"

lemma sample_init_eq: "sys_init 0 = Some sample_init"
  by (simp add: sys_init_def time_init_def zero_state_def new_Timer_def timerHeap_Push_def set_index_def
      sample_init_def Let_def)

lemma sample_after: "AfterFunc 5000 7 0 0 (ts sample_init) = Some (1, Some 1, ts sample_started)"
  by (simp add: AfterFunc_def after_def sample_init_def sample_started_def zero_state_def new_Timer_def
      timerHeap_def timerHeap_Push_def timerHeap_Less_def timerHeap_Swap_def set_index_def go_index_def
      heap_Push_def up.simps forever_def maxSleepTime_def is_int64_def Let_def fun_upd_twist)

lemma sample_reach: "sys_reach 0 sample_init sample_started"
proof -
  have "sys_step 0 sample_init \<lparr>ts = ts sample_started, sleepers = spawn (Some 1) (sleepers sample_init), clock = 0\<rparr>"
    by (rule step_AfterFunc [OF _ _ _ _ _ _ _ _ _ sample_after])
      (simp_all add: sample_init_def forever_def is_int64_def)
  then show ?thesis
    using reach_step [OF reach_refl] by (simp add: spawn_def sample_init_def sample_started_def)
qed



text \<open>C4: A timer fires at most once and never before its time.\<close>

theorem fires_once_in_time:
  assumes "sys_init c = Some y" "0 \<le> c" "c < forever" "0 \<le> lag" "sys_reach lag y z"
  shows "distinct (map fst (calls (ts z))) \<and>
    list_all (\<lambda>(p, f, t). t_t (store (ts z) p) \<le> t) (calls (ts z))"
  using sys_run_inv [OF assms] by (auto simp: sys_inv_def calls_ok_def list_all_iff)

theorem fires_once_in_time_witness:
  "sys_init 0 = Some sample_init \<and> sys_reach 0 sample_init sample_started \<and>
   distinct (map fst (calls (ts sample_started))) \<and>
   list_all (\<lambda>(p, f, t). t_t (store (ts sample_started) p) \<le> t) (calls (ts sample_started))"
  using fires_once_in_time [OF sample_init_eq _ _ _ sample_reach] sample_init_eq sample_reach
  by (simp add: forever_def)

text \<open>C3: \<open>Stop\<close> prevents the timer from firing: when it returns true, the timer has not fired and does
  not fire in any later state.\<close>

theorem Stop_prevents:
  assumes "sys_init c = Some y" "0 \<le> c" "c < forever" "0 \<le> lag" "sys_reach lag y z"
    and "e \<noteq> 0" "e < nextTimer (ts z)" "Stop e (ts z) = Some (True, s')" "sys_reach lag (z\<lparr>ts := s'\<rparr>) z'"
  shows "e \<notin> fst ` set (calls (ts z'))"
proof -
  have inv: "sys_inv lag z" by (rule sys_run_inv [OF assms(1-5)])
  then have ok: "timers_ok (ts z)" by (simp add: sys_inv_def)
  obtain s1 where s1: "Stop e (ts z) = Some (t_f (store (ts z) e) \<noteq> None, s1)" "t_f (store s1 e) = None"
    "calls s1 = calls (ts z)" "nextTimer s1 = nextTimer (ts z)"
    by (rule Stop_spec [OF ok assms(7,6)]) blast
  then have "e \<notin> fired s'" using inv assms(8) by (auto simp: sys_inv_def calls_ok_def fired_def)
  moreover have "evolves s' (ts z')"
    using sys_reach_inv [OF assms(9) Stop_inv(1) [OF inv assms(7,6,8)] assms(4)] by simp
  ultimately show ?thesis
    using s1 assms(7,8) by (auto simp: evolves_def fired_def)
qed

lemma sample_Stop: "Stop 1 (ts sample_started) = Some (True, clear_f 1 (ts sample_started))"
  by (simp add: Stop_def sample_started_def)

theorem Stop_prevents_witness:
  "Stop 1 (ts sample_started) = Some (True, clear_f 1 (ts sample_started)) \<and>
   1 \<notin> fst ` set (calls (ts (sample_started\<lparr>ts := clear_f 1 (ts sample_started)\<rparr>)))"
  using Stop_prevents [OF sample_init_eq _ _ _ sample_reach _ _ sample_Stop reach_refl] sample_Stop
  by (simp add: forever_def sample_started_def)

text \<open>C5: Nothing panics under the mutex: in every reachable state \<open>Stop\<close> of a timer of the program, the
  start of a sleeper and its wake-up all return (with at most two readings of the clock), and
  \<open>AfterFunc\<close> returns unless the time overflows.\<close>

theorem timers_never_panic:
  assumes "sys_init c = Some y" "0 \<le> c" "c < forever" "0 \<le> lag" "sys_reach lag y z"
    and "0 \<le> t" "t < forever" "0 \<le> t'" "t' < forever" "e \<noteq> 0" "e < nextTimer (ts z)"
  shows "Stop e (ts z) \<noteq> None \<and>
    (\<exists>r s'. sleeper_start t [t'] (ts z) = Some (r, s') \<and> r \<noteq> S_more) \<and>
    (\<exists>r s'. sleeper_wake i t [] (ts z) = Some (r, s') \<and> r \<noteq> S_more) \<and>
    (AfterFunc ns f t t' (ts z) = None \<longleftrightarrow> ns > 0 \<and> int64 (t' + ns) < t)"
proof (intro conjI)
  have "sys_inv lag z" by (rule sys_run_inv [OF assms(1-5)])
  then have s: "timers_ok (ts z)" "times_low (ts z)" by (simp_all add: sys_inv_def)
  show "Stop e (ts z) \<noteq> None" by (rule Stop_spec [OF s(1) assms(11,10)]) simp
  show "\<exists>r s'. sleeper_start t [t'] (ts z) = Some (r, s') \<and> r \<noteq> S_more"
    using sleeper_start_spec [OF s, of t "[t']"] assms(6-9) by auto
  show "\<exists>r s'. sleeper_wake i t [] (ts z) = Some (r, s') \<and> r \<noteq> S_more"
  proof (cases "currentSleeper (ts z) = i")
    case True
    from sleeper_wake_spec [OF s assms(6,7) True, of "[]"] show ?thesis by blast
  qed (simp add: sleeper_wake_def)
  show "AfterFunc ns f t t' (ts z) = None \<longleftrightarrow> ns > 0 \<and> int64 (t' + ns) < t"
  proof (cases "ns > 0 \<and> int64 (t' + ns) < t")
    case False
    show ?thesis
      by (rule after_spec [OF s(1) refl False, of "Go_func f"]) (use False in \<open>simp add: AfterFunc_def\<close>)
  qed (simp add: AfterFunc_def after_def)
qed

theorem timers_never_panic_witness:
  "sys_reach 0 sample_init sample_started \<and> Stop 1 (ts sample_started) \<noteq> None \<and>
   (\<exists>r s'. sleeper_start 10 [20] (ts sample_started) = Some (r, s') \<and> r \<noteq> S_more) \<and>
   (\<exists>r s'. sleeper_wake 1 10 [] (ts sample_started) = Some (r, s') \<and> r \<noteq> S_more) \<and>
   (AfterFunc 3 4 10 20 (ts sample_started) = None \<longleftrightarrow> 3 > (0 :: int) \<and> int64 (20 + 3) < 10)"
  using timers_never_panic [OF sample_init_eq _ _ _ sample_reach, of 10 20 1 1 3 4] sample_reach
  by (simp add: forever_def sample_started_def)

text \<open>C6: The inner loop of \<open>sleeper\<close> fires exactly the timers that are due: it ends, the timers left are
  those whose time is after \<open>now\<close>, the queue stays a heap with right indices and its sentinel, and each
  due timer that was not stopped is called with the time.\<close>

theorem drain_exact:
  assumes "timers_ok s" "now < forever"
  shows "\<exists>s'. drain now (hd (timers s)) s = Some (hd (timers s'), s') \<and> timers_ok s' \<and>
    set (timers s') = {p \<in> set (timers s). now < t_t (store s p)} \<and>
    {(p, g, now) |p g. p \<in> set (timers s) \<and> t_t (store s p) \<le> now \<and> t_f (store s p) = Some g} \<subseteq> set (calls s')"
proof -
  obtain s' where s': "drain now (hd (timers s)) s = Some (hd (timers s'), s')" "drained now s s'"
    using drain_spec [OF assms] by blast
  then show ?thesis by (auto simp: drained_def)
qed

lemma sample_timers_ok: "timers_ok (ts sample_started)"
  by (auto simp: sample_started_def timers_ok_def queue_ok_def index_ok_def is_heap_def okp_def timer_elems_def
      timer_lt_def forever_def par_def less_Suc_eq zero_state_def)

theorem drain_exact_witness:
  "\<exists>s'. drain 6000 1 (ts sample_started) = Some (hd (timers s'), s') \<and> timers_ok s' \<and>
    set (timers s') = {p \<in> set (timers (ts sample_started)). 6000 < t_t (store (ts sample_started) p)} \<and>
    {(p, g, 6000) |p g. p \<in> set (timers (ts sample_started)) \<and> t_t (store (ts sample_started) p) \<le> 6000 \<and>
       t_f (store (ts sample_started) p) = Some g} \<subseteq> set (calls s')"
proof -
  have "hd (timers (ts sample_started)) = 1" by (simp add: sample_started_def)
  then show ?thesis using drain_exact [OF sample_timers_ok, of 6000] by (simp add: forever_def)
qed

section \<open>Properties of \<open>container/heap\<close>\<close>

text \<open>C11: \<open>heap.Push\<close>, \<open>heap.Pop\<close> and \<open>heap.Remove\<close> implement a priority queue on every implementation of
  \<open>heap.Interface\<close>. On a collection of at most \<open>2 ^ 30\<close> elements, where the index \<open>2*i + 1\<close> in \<open>down\<close> is an \<open>int\<close>, they return without a panic and keep the heap invariant; \<open>Push\<close> adds its element,
  \<open>Pop\<close> takes away an element with none below it, and \<open>Remove(i)\<close> takes away the element at index \<open>i\<close>.\<close>

theorem heap_priority_queue:
  assumes "heap_interface I elems ok lt Inv fresh val" "Inv h" "list_all ok (elems h)" "is_heap lt (elems h)"
    and "fresh h x" "ok (val h x)" "i < length (elems h)" "length (elems h) \<le> 2 ^ 30"
  shows "(\<exists>h'. heap_Push I h x = Some h' \<and> Inv h' \<and> is_heap lt (elems h') \<and>
       mset (elems h') = add_mset (val h x) (mset (elems h))) \<and>
     (\<exists>m h'. heap_Pop I h = Some (m, h') \<and> Inv h' \<and> is_heap lt (elems h') \<and>
       mset (elems h) = add_mset (val h m) (mset (elems h')) \<and> list_all (\<lambda>y. \<not> lt y (val h m)) (elems h)) \<and>
     (\<exists>r h'. heap_Remove I h i = Some (r, h') \<and> Inv h' \<and> is_heap lt (elems h') \<and>
       val h r = elems h ! i \<and> mset (elems h) = add_mset (elems h ! i) (mset (elems h')))"
proof -
  have ok: "\<forall>y \<in> set (elems h). ok y" and ne: "elems h \<noteq> []" using assms(3,7) by (auto simp: list_all_iff)
  show ?thesis
  proof (intro conjI)
    from heap_interface.Push_spec [OF assms(1,2,5) ok assms(6,4)]
    show "\<exists>h'. heap_Push I h x = Some h' \<and> Inv h' \<and> is_heap lt (elems h') \<and>
       mset (elems h') = add_mset (val h x) (mset (elems h))" by blast
    from heap_interface.Pop_spec [OF assms(1,2) ok assms(4) ne assms(8)]
    show "\<exists>m h'. heap_Pop I h = Some (m, h') \<and> Inv h' \<and> is_heap lt (elems h') \<and>
       mset (elems h) = add_mset (val h m) (mset (elems h')) \<and> list_all (\<lambda>y. \<not> lt y (val h m)) (elems h)"
      unfolding list_all_iff by blast
    from heap_interface.Remove_spec [OF assms(1,2) ok assms(4,7,8)]
    obtain r h' where "heap_Remove I h i = Some (r, h')" "Inv h'" "is_heap lt (elems h')"
      "val h r = elems h ! i" "mset (elems h) = add_mset (val h r) (mset (elems h'))" by blast
    then show "\<exists>r h'. heap_Remove I h i = Some (r, h') \<and> Inv h' \<and> is_heap lt (elems h') \<and>
       val h r = elems h ! i \<and> mset (elems h) = add_mset (elems h ! i) (mset (elems h'))" by simp
  qed
qed

theorem heap_priority_queue_witness:
  "\<exists>s. queue_ok s \<and> fresh_timer s 2 \<and> length (timers s) = 2 \<and>
    (\<exists>h'. heap_Push timerHeap s 2 = Some h' \<and> index_ok h' \<and> is_heap timer_lt (timer_elems h') \<and>
      mset (timer_elems h') = add_mset (2, t_t (store s 2)) (mset (timer_elems s)))"
proof -
  obtain e s where n: "new_Timer None 9 None (-1) (ts sample_started) = (e, s)" by (metis surj_pair)
  note q = new_Timer_queue [OF sample_timers_ok n]
  have e: "e = 2" "length (timers s) = 2" using q(3,5) by (simp_all add: sample_started_def)
  then have "heap_interface timerHeap timer_elems (\<lambda>_. True) timer_lt index_ok fresh_timer (\<lambda>s p. (p, t_t (store s p)))"
    "index_ok s" "list_all (\<lambda>_. True) (timer_elems s)" "is_heap timer_lt (timer_elems s)" "fresh_timer s 2"
    "0 < length (timer_elems s)" "length (timer_elems s) \<le> 2 ^ 30"
    using q(1,2) th.heap_interface_axioms by (auto simp: queue_ok_def list_all_iff timer_elems_def)
  from heap_priority_queue [OF this(1-5) TrueI this(6,7)] show ?thesis using q(1,2) e by blast
qed

text \<open>C12: \<open>heap.Init\<close> makes a heap of any collection of at most \<open>2 ^ 30\<close> elements, with the same elements.\<close>

theorem heap_Init_correct:
  assumes "heap_interface I elems ok lt Inv fresh val" "Inv h" "list_all ok (elems h)" "length (elems h) \<le> 2 ^ 30"
  shows "\<exists>h'. heap_Init I h = Some h' \<and> Inv h' \<and> mset (elems h') = mset (elems h) \<and> is_heap lt (elems h')"
  using heap_interface.Init_spec [OF assms(1,2)] assms(3,4) by (simp add: list_all_iff)

theorem heap_Init_correct_witness:
  "\<exists>h'. heap_Init timerHeap (ts sample_started) = Some h' \<and> index_ok h' \<and>
     mset (timer_elems h') = mset (timer_elems (ts sample_started)) \<and> is_heap timer_lt (timer_elems h')"
  by (rule heap_Init_correct [OF th.heap_interface_axioms])
    (use sample_timers_ok in \<open>auto simp: timers_ok_def queue_ok_def list_all_iff timer_elems_length\<close>)

end
