(* ===== verification/Time_Calendar.thy ===== *)
theory Time_Calendar
  imports Go_Prelude "HOL-Library.Signed_Division"
begin

text \<open>
  Package time: the conversions between seconds since 1970 and dates (\<open>time.go\<close>). An \<open>int64\<close> and an \<open>int\<close> are HOL
  integers, wrapped at every operation. The specification of the calendar is the number of days before a year
  (\<open>year_start\<close>), by the rule of leap years, and the day that follows a given one (\<open>next_day\<close>).
\<close>

section \<open>The definitions\<close>

record Time =
  Year :: int
  Month :: int
  Day :: int
  Hour :: int
  Minute :: int
  Second :: int
  Weekday :: int
  ZoneOffset :: int
  Zone :: gostring

definition nonleapyear :: "int list" where
  "nonleapyear = [31, 28, 31, 30, 31, 30, 31, 31, 30, 31, 30, 31]"

definition leapyear :: "int list" where
  "leapyear = [31, 29, 31, 30, 31, 30, 31, 31, 30, 31, 30, 31]"

definition months :: "int \<Rightarrow> int list" where
  "months year = (if year smod 4 = 0 \<and> (year smod 100 \<noteq> 0 \<or> year smod 400 = 0) then leapyear else nonleapyear)"

definition secondsPerDay :: int where "secondsPerDay = 24 * 60 * 60"
definition daysPer400Years :: int where "daysPer400Years = 365 * 400 + 97"
definition daysPer100Years :: int where "daysPer100Years = 365 * 100 + 24"
definition daysPer4Years :: int where "daysPer4Years = 365 * 4 + 1"
definition days1970To2001 :: int where "days1970To2001 = 31 * 365 + 8"

lemmas time_consts = secondsPerDay_def daysPer400Years_def daysPer100Years_def daysPer4Years_def days1970To2001_def

lemma time_values: "secondsPerDay = 86400" "daysPer400Years = 146097" "daysPer100Years = 36524" "daysPer4Years = 1461" "days1970To2001 = 11323"
  by (simp_all add: time_consts)

text \<open>\<open>SecondsToUTC\<close>: the split into days and seconds, the weekday, the year with the day of the year, and the loop over
  the months.\<close>

definition split_day :: "int \<Rightarrow> int \<times> int" where
  "split_day sec = (let day = sec sdiv secondsPerDay; sec = int64 (sec - int64 (day * secondsPerDay)) in
     if sec < 0 then (int64 (day - 1), int64 (sec + secondsPerDay)) else (day, sec))"

definition weekday :: "int \<Rightarrow> int" where
  "weekday day = (let w = int64 (day + 4) smod 7 in if w < 0 then w + 7 else w)"

definition year_day :: "int \<Rightarrow> int \<times> int" where
  "year_day day =
     (let day = int64 (day - days1970To2001);
          (year, day) = (if day < 0
            then let n = int64 (- day) sdiv daysPer400Years + 1
                 in (int64 (2001 - int64 (400 * n)), int64 (day + int64 (daysPer400Years * n)))
            else (2001, day));
          n = day sdiv daysPer400Years;
          year = int64 (year + 400 * n); day = int64 (day - daysPer400Years * n);
          n = day sdiv daysPer100Years;
          n = (if n > 3 then 3 else n);
          year = int64 (year + 100 * n); day = int64 (day - daysPer100Years * n);
          n = day sdiv daysPer4Years;
          n = (if n > 24 then 24 else n);
          year = int64 (year + 4 * n); day = int64 (day - daysPer4Years * n);
          n = day sdiv 365;
          n = (if n > 3 then 3 else n)
      in (int64 (year + n), int64 (day - 365 * n)))"

fun month_loop :: "int list \<Rightarrow> int \<Rightarrow> int \<Rightarrow> int \<times> int" where
  "month_loop [] m yday = (m, yday)"
| "month_loop (d # ms) m yday = (if yday \<ge> d then month_loop ms (m + 1) (yday - d) else (m, yday))"

definition SecondsToUTC :: "int \<Rightarrow> Time" where
  "SecondsToUTC sec =
     (let (day, sec) = split_day sec; (year, yday) = year_day day; (m, yday) = month_loop (months year) 0 (int32 yday)
      in \<lparr>Year = year, Month = m + 1, Day = yday + 1, Hour = sec sdiv 3600, Minute = (sec sdiv 60) smod 60, Second = sec smod 60,
          Weekday = weekday day, ZoneOffset = 0, Zone = bs ''UTC''\<rparr>)"

text \<open>\<open>SecondsToLocalTime\<close> over \<open>lookupTimezone\<close>, which reads the zone files.\<close>

definition SecondsToLocalTime :: "(int \<Rightarrow> gostring \<times> int) \<Rightarrow> int \<Rightarrow> Time" where
  "SecondsToLocalTime lookupTimezone sec = (let (z, offset) = lookupTimezone sec
     in (SecondsToUTC (int64 (sec + offset)))\<lparr>Zone := z, ZoneOffset := offset\<rparr>)"

text \<open>\<open>Seconds\<close>: the days before the year, the loop over the months before the month, and the sum.\<close>

definition year_days :: "int \<Rightarrow> int" where
  "year_days year =
     (let (day, year) = (if year < 2001
            then let n = int64 (2001 - year) sdiv 400 + 1 in (int64 (- int64 (daysPer400Years * n)), int64 (year + int64 (400 * n)))
            else (0, year));
          n = int64 (year - 2001) sdiv 400;
          year = int64 (year - int64 (400 * n)); day = int64 (day + int64 (daysPer400Years * n));
          n = int64 (year - 2001) sdiv 100;
          year = int64 (year - int64 (100 * n)); day = int64 (day + int64 (daysPer100Years * n));
          n = int64 (year - 2001) sdiv 4;
          year = int64 (year - int64 (4 * n)); day = int64 (day + int64 (daysPer4Years * n));
          n = int64 (year - 2001)
      in int64 (day + int64 (365 * n)))"

fun add_months :: "int list \<Rightarrow> nat \<Rightarrow> int \<Rightarrow> int option" where
  "add_months ms 0 day = Some day"
| "add_months [] (Suc k) day = None"
| "add_months (d # ms) (Suc k) day = add_months ms k (int64 (day + d))"

definition Time_Seconds :: "Time \<Rightarrow> int option" where
  "Time_Seconds t = do {
     day \<leftarrow> add_months (months (Year t)) (nat (int32 (Month t - 1))) (year_days (Year t));
     let day = int64 (day + int32 (Day t - 1));
     let sec = int64 (day * secondsPerDay);
     let sec = int64 (sec + int64 (Hour t * 3600));
     let sec = int64 (sec + int64 (Minute t * 60));
     let sec = int64 (sec + Second t);
     let sec = int64 (sec + days1970To2001 * secondsPerDay);
     Some (int64 (sec - ZoneOffset t))
   }"

section \<open>The calendar\<close>

definition leap :: "int \<Rightarrow> bool" where
  "leap y \<longleftrightarrow> y mod 4 = 0 \<and> (y mod 100 \<noteq> 0 \<or> y mod 400 = 0)"

definition year_length :: "int \<Rightarrow> int" where
  "year_length y = (if leap y then 366 else 365)"

text \<open>The number of days from the first of January 2001 to the first of January of the year \<open>y\<close>.\<close>

definition year_start :: "int \<Rightarrow> int" where
  "year_start y = 365 * (y - 2001) + (y - 2001) div 4 - (y - 2001) div 100 + (y - 2001) div 400"

lemma smod_0_iff: "(a :: int) smod n = 0 \<longleftrightarrow> n dvd a"
  by (auto simp: signed_modulo_int_def sgn_0_0 mod_eq_0_iff_dvd)

lemma sdiv_nonneg: "0 \<le> (a :: int) \<Longrightarrow> 0 < n \<Longrightarrow> a sdiv n = a div n"
  by (simp add: signed_divide_int_def sgn_mult zsgn_def)

lemma smod_nonneg: "0 \<le> (a :: int) \<Longrightarrow> 0 < n \<Longrightarrow> a smod n = a mod n"
  by (simp add: signed_modulo_int_def sgn_mult zsgn_def)

lemma months_leap: "months y = (if leap y then leapyear else nonleapyear)"
  by (simp add: months_def leap_def smod_0_iff mod_eq_0_iff_dvd)

lemma sum_months: "sum_list (months y) = year_length y"
  by (simp add: months_leap year_length_def leapyear_def nonleapyear_def)

lemma length_months [simp]: "length (months y) = 12"
  by (simp add: months_leap leapyear_def nonleapyear_def)

text \<open>A year in terms of the cycles of 400, 100 and 4 years.\<close>

lemma year_cycles:
  assumes "0 \<le> a" "a \<le> 3" "0 \<le> b" "b \<le> 24" "0 \<le> c" "c \<le> (3 :: int)"
  shows "year_start (2001 + 400 * q + 100 * a + 4 * b + c) = 146097 * q + 36524 * a + 1461 * b + 365 * c"
    and "leap (2001 + 400 * q + 100 * a + 4 * b + c) \<longleftrightarrow> c = 3 \<and> (b \<noteq> 24 \<or> a = 3)"
proof -
  let ?x = "400 * q + 100 * a + 4 * b + c"
  have "?x div 4 = 100 * q + 25 * a + b" by (rule int_div_pos_eq [of _ _ _ c]) (use assms in simp_all)
  moreover have "?x div 100 = 4 * q + a" by (rule int_div_pos_eq [of _ _ _ "4 * b + c"]) (use assms in simp_all)
  moreover have "?x div 400 = q" by (rule int_div_pos_eq [of _ _ _ "100 * a + 4 * b + c"]) (use assms in simp_all)
  ultimately show "year_start (2001 + 400 * q + 100 * a + 4 * b + c) = 146097 * q + 36524 * a + 1461 * b + 365 * c"
    by (simp add: year_start_def add.assoc)
  have "(2001 + ?x) mod 4 = (if c = 3 then 0 else c + 1)"
    by (rule int_mod_pos_eq [of _ _ "500 + 100 * q + 25 * a + b + (if c = 3 then 1 else 0)"]) (use assms in auto)
  moreover have "(2001 + ?x) mod 100 = (if b = 24 \<and> c = 3 then 0 else 4 * b + c + 1)"
    by (rule int_mod_pos_eq [of _ _ "20 + 4 * q + a + (if b = 24 \<and> c = 3 then 1 else 0)"]) (use assms in auto)
  moreover have "(2001 + ?x) mod 400 = (if a = 3 \<and> b = 24 \<and> c = 3 then 0 else 100 * a + 4 * b + c + 1)"
    by (rule int_mod_pos_eq [of _ _ "5 + q + (if a = 3 \<and> b = 24 \<and> c = 3 then 1 else 0)"]) (use assms in auto)
  ultimately show "leap (2001 + 400 * q + 100 * a + 4 * b + c) \<longleftrightarrow> c = 3 \<and> (b \<noteq> 24 \<or> a = 3)"
    using assms by (auto simp: leap_def add.assoc split: if_splits)
qed

section \<open>\<open>SecondsToUTC\<close>\<close>

lemma sdiv_neg: "(a :: int) \<le> 0 \<Longrightarrow> 0 < n \<Longrightarrow> a sdiv n = - ((- a) div n)"
  by (cases "a = 0") (simp_all add: signed_divide_int_def sgn_mult zsgn_def)

lemma split_day_eq:
  assumes "is_int64 sec"
  shows "split_day sec = (sec div 86400, sec mod 86400)"
proof (cases "sec \<ge> 0")
  case True
  then have "is_int64 (sec div 86400 * 86400)" "is_int64 (sec mod 86400)" using assms
    by (auto simp: is_int64_def minus_mod_eq_div_mult [symmetric] intro: order_less_trans [OF pos_mod_bound])
  then show ?thesis using True
    by (simp add: split_day_def secondsPerDay_def sdiv_nonneg Let_def minus_div_mult_eq_mod)
next
  case False
  define d r where "d = (- sec) div 86400" and "r = (- sec) mod 86400"
  have "86400 * d + r = - sec" by (simp only: d_def r_def mult_div_mod_eq)
  moreover have "0 \<le> r" "r < 86400" "d \<ge> 0" using False by (simp_all add: d_def r_def pos_imp_zdiv_nonneg_iff)
  ultimately have r: "0 \<le> r" "r < 86400" "sec = - (86400 * d) - r" "d \<ge> 0" by linarith+
  then have i: "is_int64 (- d * 86400)" "is_int64 (- r)" "is_int64 (- d - 1)" "is_int64 (- r + 86400)" using assms by (auto simp: is_int64_def)
  have s: "sec sdiv 86400 = - d" using False by (simp add: sdiv_neg d_def)
  have t: "sec - (- d * 86400) = - r" using r(3) by simp
  have sp: "split_day sec = (if - r < 0 then (- d - 1, - r + 86400) else (- d, - r))"
    by (simp only: split_day_def time_values Let_def s int64_id [OF i(1)] t int64_id [OF i(2)] int64_id [OF i(3)] int64_id [OF i(4)])
  show ?thesis
  proof (cases "r = 0")
    case True
    then show ?thesis using sp r by simp
  next
    case False
    then have "sec div 86400 = - d - 1" "sec mod 86400 = 86400 - r"
      using r int_div_pos_eq [of sec 86400 "- d - 1" "86400 - r"] int_mod_pos_eq [of sec 86400 "- d - 1" "86400 - r"] by simp_all
    then show ?thesis using sp False r by simp
  qed
qed

text \<open>The cycles of a day count from the beginning of 2001 or of a cycle of 400 years before it.\<close>

lemma cycles:
  assumes "0 \<le> (d :: int)"
  defines "q \<equiv> d div 146097" and "r \<equiv> d mod 146097"
  defines "a \<equiv> (if r div 36524 > 3 then 3 else r div 36524)"
  defines "r1 \<equiv> r - 36524 * a"
  defines "b \<equiv> (if r1 div 1461 > 24 then 24 else r1 div 1461)"
  defines "r2 \<equiv> r1 - 1461 * b"
  defines "c \<equiv> (if r2 div 365 > 3 then 3 else r2 div 365)"
  defines "r3 \<equiv> r2 - 365 * c"
  shows "0 \<le> a \<and> a \<le> 3" "0 \<le> b \<and> b \<le> 24" "0 \<le> c \<and> c \<le> 3" "d = 146097 * q + 36524 * a + 1461 * b + 365 * c + r3"
    "0 \<le> r \<and> r < 146097" "0 \<le> r1 \<and> r1 \<le> 36524" "0 \<le> r2 \<and> r2 \<le> 1460" "0 \<le> r3" "r3 \<le> (if c = 3 \<and> (b \<noteq> 24 \<or> a = 3) then 365 else 364)"
proof -
  have r: "0 \<le> r" "r < 146097" "d = 146097 * q + r" by (simp_all add: q_def r_def)
  have a: "0 \<le> a" "a \<le> 3" using r by (auto simp: a_def pos_imp_zdiv_nonneg_iff)
  have "36524 * (r div 36524) \<le> r" "r < 36524 * (r div 36524) + 36524"
    using mult_div_mod_eq [of 36524 r] pos_mod_bound [of 36524 r] pos_mod_sign [of 36524 r] by linarith+
  then have r1: "0 \<le> r1" "r1 \<le> 36524" "a < 3 \<Longrightarrow> r1 < 36524" using r by (auto simp: r1_def a_def split: if_splits)
  have b: "0 \<le> b" "b \<le> 24" using r1 by (auto simp: b_def pos_imp_zdiv_nonneg_iff)
  have "1461 * (r1 div 1461) \<le> r1" "r1 < 1461 * (r1 div 1461) + 1461"
    using mult_div_mod_eq [of 1461 r1] pos_mod_bound [of 1461 r1] pos_mod_sign [of 1461 r1] by linarith+
  then have r2: "0 \<le> r2" "r2 \<le> 1460" "b = 24 \<Longrightarrow> a < 3 \<Longrightarrow> r2 < 1460" using r1 by (auto simp: r2_def b_def split: if_splits)
  have c: "0 \<le> c" "c \<le> 3" using r2 by (auto simp: c_def pos_imp_zdiv_nonneg_iff)
  have "365 * (r2 div 365) \<le> r2" "r2 < 365 * (r2 div 365) + 365"
    using mult_div_mod_eq [of 365 r2] pos_mod_bound [of 365 r2] pos_mod_sign [of 365 r2] by linarith+
  then have r3: "0 \<le> r3" "r3 \<le> 365" "c < 3 \<Longrightarrow> r3 < 365" "c = 3 \<Longrightarrow> b = 24 \<Longrightarrow> a < 3 \<Longrightarrow> r3 < 365"
    using r2 by (auto simp: r3_def c_def split: if_splits)
  show "0 \<le> a \<and> a \<le> 3" "0 \<le> b \<and> b \<le> 24" "0 \<le> c \<and> c \<le> 3" "0 \<le> r \<and> r < 146097" "0 \<le> r1 \<and> r1 \<le> 36524" "0 \<le> r2 \<and> r2 \<le> 1460" "0 \<le> r3"
    using a b c r r1 r2 r3 by auto
  show "d = 146097 * q + 36524 * a + 1461 * b + 365 * c + r3" using r(3) by (simp add: r1_def r2_def r3_def)
  show "r3 \<le> (if c = 3 \<and> (b \<noteq> 24 \<or> a = 3) then 365 else 364)" using r3 a c by (cases "c = 3") auto
qed


lemma int64_bound: "\<bar>x\<bar> \<le> 2 ^ 62 \<Longrightarrow> int64 x = x"
  by (rule int64_id) (auto simp: is_int64_def)

lemma year_day_spec:
  assumes "\<bar>day\<bar> \<le> 2 ^ 50" "year_day day = (y, yd)"
  shows "year_start y + yd = day - 11323 \<and> 0 \<le> yd \<and> yd < year_length y \<and> \<bar>y\<bar> \<le> 2 ^ 52"
proof -
  define D where "D = day - 11323"
  define k where "k = (if D < 0 then (- D) div 146097 + 1 else 0)"
  define d where "d = D + 146097 * k"
  define q where "q = d div 146097"
  define r where "r = d mod 146097"
  define a where "a = (if r div 36524 > 3 then 3 else r div 36524)"
  define r1 where "r1 = r - 36524 * a"
  define b where "b = (if r1 div 1461 > 24 then 24 else r1 div 1461)"
  define r2 where "r2 = r1 - 1461 * b"
  define c where "c = (if r2 div 365 > 3 then 3 else r2 div 365)"
  define r3 where "r3 = r2 - 365 * c"
  have D: "\<bar>D\<bar> \<le> 2 ^ 51" using assms(1) by (simp add: D_def)
  have k: "0 \<le> k" "k \<le> 2 ^ 35" "0 \<le> d" "d \<le> 2 ^ 51 + 146097"
  proof -
    have "146097 * ((- D) div 146097) \<le> - D" "- D < 146097 * ((- D) div 146097) + 146097"
      using mult_div_mod_eq [of 146097 "- D"] pos_mod_bound [of 146097 "- D"] pos_mod_sign [of 146097 "- D"] by linarith+
    then show "0 \<le> k" "k \<le> 2 ^ 35" "0 \<le> d" "d \<le> 2 ^ 51 + 146097" using D by (auto simp: k_def d_def)
  qed
  note cyc = cycles [OF k(3), folded q_def, folded r_def, folded a_def, folded r1_def, folded b_def, folded r2_def, folded c_def, folded r3_def]
  have qr: "d - 146097 * q = r" by (simp add: q_def r_def minus_mult_div_eq_mod)
  then have q: "0 \<le> q" "q \<le> 2 ^ 35" using k cyc(5) by (simp_all add: q_def pos_imp_zdiv_nonneg_iff)
  have "year_day day = (2001 - 400 * k + 400 * q + 100 * a + 4 * b + c, r3)"
  proof -
    have 1: "(if D < 0 then (let n = int64 (- D) sdiv 146097 + 1 in (int64 (2001 - int64 (400 * n)), int64 (D + int64 (146097 * n)))) else (2001, D)) =
        (2001 - 400 * k, d)"
    proof (cases "D < 0")
      case True
      have "int64 (- D) = - D" using D by (intro int64_bound) simp
      then have n: "int64 (- D) sdiv 146097 + 1 = k" using True by (simp add: k_def sdiv_neg)
      have "146097 * k \<le> 2 ^ 53" using k(4) D True by (simp add: d_def)
      then have "int64 (400 * k) = 400 * k" "int64 (146097 * k) = 146097 * k" "int64 (D + 146097 * k) = d" "int64 (2001 - 400 * k) = 2001 - 400 * k"
        using k D by (auto simp: d_def intro!: int64_bound)
      then show ?thesis using True by (simp add: Let_def n)
    next
      case False
      then show ?thesis by (simp add: k_def d_def)
    qed
    have 2: "int64 (day - 11323) = D" "d sdiv 146097 = q" "r sdiv 36524 = r div 36524" "r1 sdiv 1461 = r1 div 1461" "r2 sdiv 365 = r2 div 365"
      using int64_bound [of D] D k(3) cyc(5-7) by (simp_all add: D_def [symmetric] q_def sdiv_nonneg)
    have y: "\<bar>2001 - 400 * k + 400 * q\<bar> \<le> 2 ^ 62" "\<bar>2001 - 400 * k + 400 * q + 100 * a\<bar> \<le> 2 ^ 62"
      "\<bar>2001 - 400 * k + 400 * q + 100 * a + 4 * b\<bar> \<le> 2 ^ 62" "\<bar>2001 - 400 * k + 400 * q + 100 * a + 4 * b + c\<bar> \<le> 2 ^ 62"
      using k(1,2) q cyc(1-3) by (simp_all add: abs_le_iff)
    have z: "int64 (d - 146097 * q) = r" "int64 (r - 36524 * a) = r1" "int64 (r1 - 1461 * b) = r2" "int64 (r2 - 365 * c) = r3"
      unfolding qr r1_def [symmetric] r2_def [symmetric] r3_def [symmetric] using cyc(5-9)
      by (auto intro!: int64_bound simp: abs_le_iff split: if_splits)
    note 3 = y [THEN int64_bound] z
    show ?thesis
      by (simp only: year_day_def time_values Let_def 1 [unfolded Let_def] 2 3 prod.case a_def [symmetric] b_def [symmetric] c_def [symmetric])
  qed
  then have y: "y = 2001 + 400 * (q - k) + 100 * a + 4 * b + c" "yd = r3" using assms(2) by auto
  have "year_start y = 146097 * (q - k) + 36524 * a + 1461 * b + 365 * c" "leap y \<longleftrightarrow> c = 3 \<and> (b \<noteq> 24 \<or> a = 3)"
    unfolding y(1) using year_cycles [of a b c "q - k"] cyc(1-3) by blast+
  moreover have "D = d - 146097 * k" by (simp add: d_def)
  moreover have "\<bar>y\<bar> \<le> 2 ^ 52" unfolding y(1) using cyc(1-3) k(1,2) q by (simp add: abs_le_iff)
  ultimately show ?thesis using cyc(4,8,9) y(2) unfolding D_def [symmetric] by (auto simp: year_length_def split: if_splits)
qed


text \<open>The loop over the months.\<close>

lemma month_loop_spec:
  assumes "month_loop ms m yday = (m', d)" "0 \<le> yday" "yday < sum_list ms"
  shows "\<exists>k. k < length ms \<and> m' = m + int k \<and> yday = sum_list (take k ms) + d \<and> 0 \<le> d \<and> d < ms ! k"
  using assms
proof (induction ms m yday rule: month_loop.induct)
  case (2 x ms m yday)
  show ?case
  proof (cases "yday \<ge> x")
    case True
    then obtain k where "k < length ms" "m' = m + 1 + int k" "yday - x = sum_list (take k ms) + d" "0 \<le> d" "d < ms ! k"
      using 2 by auto
    then show ?thesis by (intro exI [of _ "Suc k"]) simp
  next
    case False
    then show ?thesis using 2 by (intro exI [of _ 0]) auto
  qed
qed simp

text \<open>What a date stands for: the day number since 2001, and when a date is one of the calendar.\<close>

definition date_days :: "Time \<Rightarrow> int" where
  "date_days t = year_start (Year t) + sum_list (take (nat (Month t - 1)) (months (Year t))) + Day t - 1"

definition valid_date :: "Time \<Rightarrow> bool" where
  "valid_date t \<longleftrightarrow> 1 \<le> Month t \<and> Month t \<le> 12 \<and> 1 \<le> Day t \<and> Day t \<le> months (Year t) ! nat (Month t - 1)"

definition valid_time :: "Time \<Rightarrow> bool" where
  "valid_time t \<longleftrightarrow> valid_date t \<and> 0 \<le> Hour t \<and> Hour t < 24 \<and> 0 \<le> Minute t \<and> Minute t < 60 \<and> 0 \<le> Second t \<and> Second t < 60 \<and>
     Weekday t = (date_days t + 1) mod 7"

lemma weekday_eq: "\<bar>day\<bar> \<le> 2 ^ 50 \<Longrightarrow> weekday day = (day + 4) mod 7"
proof -
  assume d: "\<bar>day\<bar> \<le> 2 ^ 50"
  then have i: "int64 (day + 4) = day + 4" by (intro int64_bound) (simp add: abs_le_iff)
  show ?thesis
  proof (cases "day + 4 \<ge> 0")
    case True
    then show ?thesis using pos_mod_sign [of 7 "day + 4"] by (simp add: weekday_def i smod_nonneg Let_def not_less)
  next
    case False
    then have "(day + 4) smod 7 = - ((- (day + 4)) mod 7)" by (simp add: signed_modulo_int_def)
    then have w: "weekday day = (if (- (day + 4)) mod 7 > 0 then 7 - (- (day + 4)) mod 7 else 0)"
      using pos_mod_sign [of 7 "- (day + 4)"] by (auto simp: weekday_def i Let_def)
    have "(day + 4) mod 7 = (if (- (day + 4)) mod 7 = 0 then 0 else 7 - (- (day + 4)) mod 7)"
      using zmod_zminus1_eq_if [of "- (day + 4)" 7] unfolding minus_minus by simp
    then show ?thesis using w pos_mod_sign [of 7 "- (day + 4)"] by (auto simp: not_less)
  qed
qed

text \<open>\<open>SecondsToUTC\<close> gives a date of the calendar, whose day number and time of day are those of the argument.\<close>

lemma SecondsToUTC_spec:
  assumes "is_int64 s"
  shows "valid_time (SecondsToUTC s)" "date_days (SecondsToUTC s) = s div 86400 - 11323"
    "Hour (SecondsToUTC s) * 3600 + Minute (SecondsToUTC s) * 60 + Second (SecondsToUTC s) = s mod 86400"
    "ZoneOffset (SecondsToUTC s) = 0" "Zone (SecondsToUTC s) = bs ''UTC''" "\<bar>Year (SecondsToUTC s)\<bar> \<le> 2 ^ 52"
proof -
  define day t where "day = s div 86400" and "t = s mod 86400"
  have t: "0 \<le> t" "t < 86400" by (simp_all add: t_def)
  have "86400 * day + t = s" by (simp add: day_def t_def)
  then have d: "\<bar>day\<bar> \<le> 2 ^ 50" using t assms by (auto simp: is_int64_def)
  obtain y yd where y: "year_day day = (y, yd)" by force
  note ys = year_day_spec [OF d y]
  then have yd: "int32 yd = yd" by (intro int32_id) (auto simp: is_int32_def year_length_def split: if_splits)
  obtain m d' where m: "month_loop (months y) 0 yd = (m, d')" by force
  obtain k where k: "k < 12" "m = int k" "yd = sum_list (take k (months y)) + d'" "0 \<le> d'" "d' < months y ! k"
    using month_loop_spec [OF m] ys by (auto simp: sum_months)
  have S: "SecondsToUTC s = \<lparr>Year = y, Month = m + 1, Day = d' + 1, Hour = t div 3600, Minute = (t div 60) mod 60, Second = t mod 60,
      Weekday = (day + 4) mod 7, ZoneOffset = 0, Zone = bs ''UTC''\<rparr>"
    using t by (simp add: SecondsToUTC_def split_day_eq [OF assms] day_def [symmetric] t_def [symmetric] y yd m weekday_eq [OF d]
      sdiv_nonneg smod_nonneg pos_imp_zdiv_nonneg_iff)
  have "sum_list (take (nat (m + 1 - 1)) (months y)) = sum_list (take k (months y))" using k(2) by simp
  then have dd: "date_days (SecondsToUTC s) = day - 11323" using ys k(3) by (simp add: date_days_def S)
  then show "date_days (SecondsToUTC s) = s div 86400 - 11323" by (simp add: day_def)
  have "(day + 4) mod 7 = (day - 11323 + 1) mod 7" using mod_add_self2 [of "day - 11322" 7] mod_mult_self1 [of "day - 11322" 1618 7] by (simp add: add.commute)
  moreover have "valid_date (SecondsToUTC s)" using k by (simp add: valid_date_def S)
  moreover have "0 \<le> t div 3600" "t div 3600 < 24" using t by linarith+
  moreover have "0 \<le> t div 60 mod 60" "t div 60 mod 60 < 60" "0 \<le> t mod 60" "t mod 60 < 60" by simp_all
  ultimately show "valid_time (SecondsToUTC s)" unfolding valid_time_def dd by (simp only: S Time.select_convs simp_thms)
  have "t div 3600 = t div 60 div 60" by (simp add: zdiv_zmult2_eq [symmetric])
  moreover have "60 * (t div 60 div 60) + t div 60 mod 60 = t div 60" "60 * (t div 60) + t mod 60 = t" by (rule mult_div_mod_eq)+
  ultimately have "t div 3600 * 3600 + t div 60 mod 60 * 60 + t mod 60 = t" by linarith
  then show "Hour (SecondsToUTC s) * 3600 + Minute (SecondsToUTC s) * 60 + Second (SecondsToUTC s) = s mod 86400"
    by (simp only: S Time.select_convs t_def [symmetric])
  show "ZoneOffset (SecondsToUTC s) = 0" "Zone (SecondsToUTC s) = bs ''UTC''" "\<bar>Year (SecondsToUTC s)\<bar> \<le> 2 ^ 52" using ys by (simp_all add: S)
qed


section \<open>\<open>Seconds\<close>\<close>

lemma int64_add_left [simp]: "int64 (int64 a + b) = int64 (a + b)"
  using signed_take_bit_add [of 63 "signed_take_bit 63 a" b] signed_take_bit_add [of 63 a b] by (simp add: int64_def)

lemma int64_add_right [simp]: "int64 (a + int64 b) = int64 (a + b)"
  using int64_add_left [of b a] by (simp add: add.commute)

lemma int64_minus [simp]: "int64 (- int64 a) = int64 (- a)"
  using signed_take_bit_minus [of 63 a] by (simp add: int64_def)

lemma int64_diff_left [simp]: "int64 (int64 a - b) = int64 (a - b)"
  using int64_add_left [of a "- b"] by simp

lemma int64_diff_right [simp]: "int64 (a - int64 b) = int64 (a - b)"
  using int64_add_right [of a "- int64 b"] int64_add_right [of a "- b"] int64_minus [of b] by simp

lemma int64_mult_left [simp]: "int64 (int64 a * b) = int64 (a * b)"
  using signed_take_bit_mult [of 63 "signed_take_bit 63 a" b] signed_take_bit_mult [of 63 a b] by (simp add: int64_def)

lemma int64_mult_add: "int64 (int64 a * b + c) = int64 (a * b + c)"
  using int64_add_left [of "int64 a * b" c] int64_add_left [of "a * b" c] by (simp only: int64_mult_left)

lemma int64_add_mult_add: "int64 ((int64 a + d) * b + c) = int64 ((a + d) * b + c)"
  using int64_mult_add [of "int64 a + d" b c] int64_mult_add [of "a + d" b c] by (simp only: int64_add_left)

text \<open>The cycles of a year, and the days before it.\<close>

lemma year_days_eq:
  assumes "\<bar>y\<bar> \<le> 2 ^ 52"
  shows "year_days y = int64 (year_start y)"
proof -
  define k where "k = (if y < 2001 then (2001 - y) div 400 + 1 else 0)"
  define x where "x = y + 400 * k - 2001"
  define q where "q = x div 400"
  define a where "a = (x - 400 * q) div 100"
  define b where "b = (x - 400 * q - 100 * a) div 4"
  define c where "c = x - 400 * q - 100 * a - 4 * b"
  have k: "0 \<le> k" "k \<le> 2 ^ 52" "0 \<le> x" "x \<le> 2 ^ 53"
  proof -
    have "400 * ((2001 - y) div 400) \<le> 2001 - y" "2001 - y < 400 * ((2001 - y) div 400) + 400"
      using mult_div_mod_eq [of 400 "2001 - y"] pos_mod_bound [of 400 "2001 - y"] pos_mod_sign [of 400 "2001 - y"] by linarith+
    then show "0 \<le> k" "k \<le> 2 ^ 52" "0 \<le> x" "x \<le> 2 ^ 53" using assms by (auto simp: k_def x_def abs_le_iff)
  qed
  have q: "x - 400 * q = x mod 400" "0 \<le> q" "q \<le> 2 ^ 53" using k by (auto simp: q_def minus_mult_div_eq_mod pos_imp_zdiv_nonneg_iff)
  have m: "0 \<le> x mod 400" "x mod 400 < 400" by simp_all
  have a: "x - 400 * q - 100 * a = (x mod 400) mod 100" by (simp add: q(1) a_def minus_mult_div_eq_mod)
  have "0 \<le> a" "a \<le> 3" using m by (auto simp: a_def q(1) pos_imp_zdiv_nonneg_iff)
  moreover have m2: "0 \<le> (x mod 400) mod 100" "(x mod 400) mod 100 < 100" by simp_all
  have "0 \<le> b" "b \<le> 24" using m2 by (auto simp: b_def a pos_imp_zdiv_nonneg_iff)
  moreover have "c = (x mod 400) mod 100 mod 4" unfolding c_def a b_def by (rule minus_mult_div_eq_mod)
  then have "0 \<le> c" "c \<le> 3" using pos_mod_bound [of 4 "(x mod 400) mod 100"] pos_mod_sign [of 4 "(x mod 400) mod 100"] by linarith+
  ultimately have abc: "0 \<le> a" "a \<le> 3" "0 \<le> b" "b \<le> 24" "0 \<le> c" "c \<le> 3" by auto
  have y: "y = 2001 + 400 * (q - k) + 100 * a + 4 * b + c" by (simp add: c_def x_def)
  have 1: "(if y < 2001 then (let n = int64 (2001 - y) sdiv 400 + 1 in (int64 (- int64 (146097 * n)), int64 (y + int64 (400 * n)))) else (0, y)) =
      (int64 (- (146097 * k)), x + 2001)"
  proof (cases "y < 2001")
    case True
    have "int64 (2001 - y) = 2001 - y" using assms by (intro int64_bound) (simp add: abs_le_iff)
    then have "int64 (2001 - y) sdiv 400 + 1 = k" using True by (simp add: k_def sdiv_nonneg)
    moreover have "int64 (y + 400 * k) = x + 2001" using k by (simp add: x_def int64_bound abs_le_iff)
    moreover have "int64 (- int64 (146097 * k)) = int64 (- (146097 * k))" using int64_mult_left [of "146097 * k" "- 1"] by simp
    ultimately show ?thesis using True by (simp add: Let_def)
  next
    case False
    then show ?thesis by (simp add: k_def x_def int64_bound)
  qed
  have p: "0 \<le> x - 400 * q" "x - 400 * q \<le> 399" "0 \<le> x - 400 * q - 100 * a" "x - 400 * q - 100 * a \<le> 99"
    unfolding a using q(1) m m2 by linarith+
  then have 2: "x sdiv 400 = q" "(x - 400 * q) sdiv 100 = a" "(x - 400 * q - 100 * a) sdiv 4 = b"
    using k(3) by (simp_all only: q_def [symmetric] a_def [symmetric] b_def [symmetric] sdiv_nonneg zero_less_numeral)
  have small: "int64 t = u" if "0 \<le> t" "t \<le> 2 ^ 60" "t = u" for t u using that by (simp add: int64_bound)
  have 3: "int64 x = x" "int64 (x + 2001 - 400 * q) = x - 400 * q + 2001" "int64 (x - 400 * q) = x - 400 * q"
    "int64 (x - 400 * q + 2001 - 100 * a) = x - 400 * q - 100 * a + 2001" "int64 (x - 400 * q - 100 * a) = x - 400 * q - 100 * a"
    "int64 (x - 400 * q - 100 * a + 2001 - 4 * b) = c + 2001" "int64 c = c"
    by (rule small; use k(3,4) p abc in \<open>simp add: c_def\<close>)+
  have "year_days y = int64 (- (146097 * k) + 146097 * q + 36524 * a + 1461 * b + 365 * c)"
    unfolding year_days_def time_values Let_def 1 [unfolded Let_def] prod.case
    by (simp only: add_diff_cancel_right' int64_add_left int64_add_right int64_diff_right 2 3)
  also have "\<dots> = int64 (146097 * (q - k) + 36524 * a + 1461 * b + 365 * c)" by (simp add: algebra_simps)
  finally have "year_days y = int64 (146097 * (q - k) + 36524 * a + 1461 * b + 365 * c)" .
  then show ?thesis using year_cycles(1) [OF abc, of "q - k"] y by simp
qed


lemma add_months_eq:
  "k \<le> length ms \<Longrightarrow> add_months ms k (int64 d) = Some (int64 (d + sum_list (take k ms)))"
  by (induction ms k "int64 d" arbitrary: d rule: add_months.induct) (simp_all add: add.assoc)

lemma Time_Seconds_eq:
  assumes "\<bar>Year t\<bar> \<le> 2 ^ 52" "1 \<le> Month t" "Month t \<le> 12" "1 \<le> Day t" "Day t \<le> 31"
  shows "Time_Seconds t = Some (int64 ((date_days t + 11323) * 86400 + Hour t * 3600 + Minute t * 60 + Second t - ZoneOffset t))"
proof -
  have m: "int32 (Month t - 1) = Month t - 1" "int32 (Day t - 1) = Day t - 1" using assms by (auto simp: is_int32_def intro!: int32_id)
  have a: "add_months (months (Year t)) (nat (Month t - 1)) (year_days (Year t)) =
      Some (int64 (year_start (Year t) + sum_list (take (nat (Month t - 1)) (months (Year t)))))"
    unfolding year_days_eq [OF assms(1)] using assms(2,3) by (intro add_months_eq) simp
  have "Time_Seconds t = Some (int64 ((year_start (Year t) + sum_list (take (nat (Month t - 1)) (months (Year t))) + (Day t - 1)) * 86400 +
      Hour t * 3600 + Minute t * 60 + Second t + 11323 * 86400 - ZoneOffset t))"
    unfolding Time_Seconds_def m a by (simp only: bind.bind_lunit Let_def time_values diff_conv_add_uminus add.assoc
        int64_add_left int64_add_right int64_mult_left int64_mult_add int64_add_mult_add)
  then show ?thesis by (simp add: date_days_def algebra_simps)
qed

section \<open>A day number has one date\<close>

lemma div_Suc: "0 < (n :: int) \<Longrightarrow> (x + 1) div n = x div n + (if n dvd x + 1 then 1 else 0)"
proof -
  assume n: "0 < n"
  define q r where "q = x div n" and "r = x mod n"
  have r: "x = n * q + r" "0 \<le> r" "r < n" using n by (simp_all add: q_def r_def)
  show ?thesis
  proof (cases "r + 1 = n")
    case True
    then have x: "x + 1 = n * (q + 1)" using r(1) by (simp add: distrib_left)
    then have "(x + 1) div n = q + 1" "n dvd x + 1" using n by simp_all
    then show ?thesis by (simp add: q_def)
  next
    case False
    then have "(x + 1) div n = q" "(x + 1) mod n = r + 1"
      using r n int_div_pos_eq [of "x + 1" n q "r + 1"] int_mod_pos_eq [of "x + 1" n q "r + 1"] by auto
    then show ?thesis using r(2) by (simp add: dvd_eq_mod_eq_0 q_def)
  qed
qed

lemma year_start_Suc: "year_start (y + 1) = year_start y + year_length y"
proof -
  have d: "n dvd y - 2000 \<longleftrightarrow> n dvd y" if "n dvd 2000" for n :: int using that by (metis diff_add_cancel dvd_add dvd_diff)
  have s: "(y + 1 - 2001) div n = (y - 2001) div n + (if n dvd y then 1 else 0)" if "0 < n" "n dvd 2000" for n
    using div_Suc [OF that(1), of "y - 2001"] d [OF that(2)] by simp
  have e: "(y + 1 - 2001) div 4 = (y - 2001) div 4 + (if 4 dvd y then 1 else 0)" "(y + 1 - 2001) div 100 = (y - 2001) div 100 + (if 100 dvd y then 1 else 0)"
    "(y + 1 - 2001) div 400 = (y - 2001) div 400 + (if 400 dvd y then 1 else 0)" by (rule s; simp)+
  have l: "365 * (y + 1 - 2001) + (A + a) - (B + b) + (C + c) = 365 * (y - 2001) + A - B + C + (365 + a - b + c)" for A B C a b c by simp
  have "400 dvd y \<Longrightarrow> 100 dvd y" "100 dvd y \<Longrightarrow> 4 dvd y" using dvd_trans [of 100 400 y] dvd_trans [of 4 100 y] by simp_all
  moreover have "(if P \<and> (\<not> Q \<or> R) then 366 else 365) = (365 :: int) + (if P then 1 else 0) - (if Q then 1 else 0) + (if R then 1 else 0)"
    if "R \<Longrightarrow> Q" "Q \<Longrightarrow> P" for P Q R using that by (cases P; cases Q; cases R) simp_all
  ultimately have "year_length y = 365 + (if 4 dvd y then 1 else 0) - (if 100 dvd y then 1 else 0) + (if 400 dvd y then 1 else 0)"
    unfolding year_length_def leap_def mod_eq_0_iff_dvd by blast
  then show ?thesis by (simp only: year_start_def e l)
qed

lemma year_start_mono: "x < y \<Longrightarrow> year_start x + year_length x \<le> year_start y"
proof -
  assume "x < y"
  have "year_start x + year_length x \<le> year_start (x + 1 + int n)" for n
  proof (induction n)
    case 0
    then show ?case by (simp add: year_start_Suc)
  next
    case (Suc n)
    then show ?case using year_start_Suc [of "x + 1 + int n"] by (simp add: year_length_def add.assoc add.commute split: if_splits)
  qed
  from this [of "nat (y - x - 1)"] show ?thesis using \<open>x < y\<close> by simp
qed

lemma year_start_bound:
  assumes "\<bar>y\<bar> \<le> 10 ^ 11"
  shows "\<bar>year_start y\<bar> \<le> 10 ^ 14"
proof -
  have y: "- 100000000000 \<le> y" "y \<le> 100000000000" using assms by simp_all
  define A B C where "A = (y - 2001) div 4" and "B = (y - 2001) div 100" and "C = (y - 2001) div 400"
  have "- 1000000000000 \<le> A" "A \<le> 1000000000000" using y unfolding A_def by linarith+
  moreover have "- 1000000000000 \<le> B" "B \<le> 1000000000000" using y unfolding B_def by linarith+
  moreover have "- 1000000000000 \<le> C" "C \<le> 1000000000000" using y unfolding C_def by linarith+
  ultimately have "- 100000000000000 \<le> 365 * (y - 2001) + A - B + C \<and> 365 * (y - 2001) + A - B + C \<le> 100000000000000"
    using y by (simp add: right_diff_distrib)
  then show ?thesis by (simp add: year_start_def A_def B_def C_def abs_le_iff)
qed

lemma months_pos: "d \<in> set (months y) \<Longrightarrow> 28 \<le> d \<and> d \<le> 31"
  by (auto simp: months_leap leapyear_def nonleapyear_def split: if_splits)

lemma prefix_mono:
  fixes ms :: "int list"
  assumes "\<forall>d \<in> set ms. 0 \<le> d" "i < j" "j \<le> length ms"
  shows "sum_list (take i ms) + ms ! i \<le> sum_list (take j ms)"
proof -
  have "take j ms = take i ms @ ms ! i # drop (Suc i) (take j ms)" using assms(2,3) id_take_nth_drop [of i "take j ms"] by simp
  then have "sum_list (take j ms) = sum_list (take i ms) + ms ! i + sum_list (drop (Suc i) (take j ms))" by (metis sum_list.append sum_list.Cons add.assoc)
  moreover have "0 \<le> sum_list (drop (Suc i) (take j ms))" using assms(1) by (intro sum_list_nonneg) (meson in_set_dropD in_set_takeD)
  ultimately show ?thesis by simp
qed

lemma valid_date_day:
  assumes "valid_date t"
  shows "year_start (Year t) \<le> date_days t" "date_days t < year_start (Year t) + year_length (Year t)" "Day t \<le> 31"
proof -
  define i where "i = nat (Month t - 1)"
  have i: "i < 12" "1 \<le> Day t" "Day t \<le> months (Year t) ! i" using assms by (auto simp: valid_date_def i_def)
  have nn: "\<forall>d \<in> set (months (Year t)). 0 \<le> d" using months_pos by fastforce
  have "sum_list (take i (months (Year t))) + months (Year t) ! i \<le> year_length (Year t)"
    using prefix_mono [OF nn i(1)] by (simp add: sum_months)
  moreover have "0 \<le> sum_list (take i (months (Year t)))" using nn by (intro sum_list_nonneg) (meson in_set_takeD)
  ultimately show "year_start (Year t) \<le> date_days t" "date_days t < year_start (Year t) + year_length (Year t)"
    using i by (simp_all add: date_days_def i_def [symmetric])
  show "Day t \<le> 31" using i months_pos [of "months (Year t) ! i"] by (metis length_months nth_mem order_trans)
qed

lemma date_unique:
  assumes "valid_date t" "valid_date u" "date_days t = date_days u"
  shows "Year t = Year u \<and> Month t = Month u \<and> Day t = Day u"
proof -
  have y: "Year t = Year u"
    using valid_date_day [OF assms(1)] valid_date_day [OF assms(2)] assms(3) year_start_mono [of "Year t" "Year u"] year_start_mono [of "Year u" "Year t"]
    by linarith
  define i j where "i = nat (Month t - 1)" and "j = nat (Month u - 1)"
  have ij: "i < 12" "1 \<le> Day t" "Day t \<le> months (Year t) ! i" "j < 12" "1 \<le> Day u" "Day u \<le> months (Year t) ! j"
    using assms(1,2) y by (auto simp: valid_date_def i_def j_def)
  have nn: "\<forall>d \<in> set (months (Year t)). 0 \<le> d" using months_pos by fastforce
  have d: "sum_list (take i (months (Year t))) + Day t = sum_list (take j (months (Year t))) + Day u"
    using assms(3) y by (simp add: date_days_def i_def j_def)
  have "i = j"
    using ij d prefix_mono [OF nn, of i j] prefix_mono [OF nn, of j i] by (cases i j rule: linorder_cases) auto
  then show ?thesis using y d assms(1,2) by (auto simp: valid_date_def i_def j_def)
qed


section \<open>The following day\<close>

definition next_day :: "Time \<Rightarrow> Time" where
  "next_day t = (let t' = t\<lparr>Weekday := (Weekday t + 1) mod 7\<rparr> in
     if Day t < months (Year t) ! nat (Month t - 1) then t'\<lparr>Day := Day t + 1\<rparr>
     else if Month t < 12 then t'\<lparr>Month := Month t + 1, Day := 1\<rparr>
     else t'\<lparr>Year := Year t + 1, Month := 1, Day := 1\<rparr>)"

lemma next_day_keeps:
  "Hour (next_day t) = Hour t" "Minute (next_day t) = Minute t" "Second (next_day t) = Second t"
  "Weekday (next_day t) = (Weekday t + 1) mod 7" "ZoneOffset (next_day t) = ZoneOffset t" "Zone (next_day t) = Zone t"
  by (simp_all add: next_day_def Let_def)

lemma next_day_date:
  assumes "valid_date t"
  shows "valid_date (next_day t) \<and> date_days (next_day t) = date_days t + 1"
proof -
  define i ms where "i = nat (Month t - 1)" and "ms = months (Year t)"
  have i: "i < 12" "1 \<le> Day t" "Day t \<le> ms ! i" "Month t = int i + 1" using assms by (auto simp: valid_date_def i_def ms_def)
  have pos: "1 \<le> months y ! j" if "j < 12" for y j using months_pos [of "months y ! j" y] that by fastforce
  consider "Day t < ms ! i" | "Day t = ms ! i" "Month t < 12" | "Day t = ms ! i" "Month t = 12" using i by linarith
  then show ?thesis
  proof cases
    case 1
    then show ?thesis using i by (simp add: next_day_def Let_def valid_date_def date_days_def i_def [symmetric] ms_def [symmetric])
  next
    case 2
    then have "nat (1 + int i) = Suc i" "Suc i < 12" using i by auto
    moreover have "sum_list (take (Suc i) ms) = sum_list (take i ms) + ms ! i" using i by (simp add: take_Suc_conv_app_nth ms_def)
    ultimately show ?thesis using 2 i pos [of "Suc i" "Year t"]
      by (simp add: next_day_def Let_def valid_date_def date_days_def i_def [symmetric] ms_def [symmetric])
  next
    case 3
    then have "i = 11" using i by simp
    moreover have "sum_list (take 11 ms) + ms ! 11 = year_length (Year t)"
      unfolding sum_months [symmetric] ms_def by (simp add: months_leap leapyear_def nonleapyear_def)
    ultimately show ?thesis using 3 pos [of 0 "Year t + 1"] year_start_Suc [of "Year t"]
      by (simp add: next_day_def Let_def valid_date_def date_days_def i_def [symmetric] ms_def [symmetric])
  qed
qed

lemma next_day_valid:
  assumes "valid_time t"
  shows "valid_time (next_day t)"
proof -
  have "Weekday (next_day t) = (date_days t + 1 + 1) mod 7" using assms by (simp add: next_day_keeps(4) valid_time_def mod_add_left_eq)
  then show ?thesis using assms next_day_date [of t] by (simp add: valid_time_def next_day_keeps)
qed

lemma time_unique:
  assumes "valid_time t" "valid_time u" "date_days t = date_days u"
    "Hour t * 3600 + Minute t * 60 + Second t = Hour u * 3600 + Minute u * 60 + Second u" "ZoneOffset t = ZoneOffset u" "Zone t = Zone u"
  shows "t = u"
proof -
  have "Year t = Year u" "Month t = Month u" "Day t = Day u" "Weekday t = Weekday u"
    using date_unique [of t u] assms by (auto simp: valid_time_def)
  moreover have h: "Hour t = Hour u" using assms(1,2,4) unfolding valid_time_def by linarith
  moreover have m: "Minute t = Minute u" using assms(1,2,4) h unfolding valid_time_def by linarith
  moreover have "Second t = Second u" using assms(4) h m by linarith
  ultimately show ?thesis using assms(5,6) by simp
qed

section \<open>Properties\<close>

text \<open>C13: \<open>SecondsToUTC\<close> follows the calendar. Second 0 is midnight of Thursday the first of January 1970; a day later than
  any second is the next day of the calendar, with its lengths of months and its leap years, at the same time of day; and the
  time of day counts the seconds since midnight. With the first two the date of every \<open>int64\<close> is determined.\<close>

theorem SecondsToUTC_calendar:
  "SecondsToUTC 0 = \<lparr>Year = 1970, Month = 1, Day = 1, Hour = 0, Minute = 0, Second = 0, Weekday = 4, ZoneOffset = 0, Zone = bs ''UTC''\<rparr> \<and>
   (is_int64 s \<and> is_int64 (s + 86400) \<longrightarrow> SecondsToUTC (s + 86400) = next_day (SecondsToUTC s)) \<and>
   (is_int64 s \<longrightarrow> valid_time (SecondsToUTC s) \<and>
      Hour (SecondsToUTC s) * 3600 + Minute (SecondsToUTC s) * 60 + Second (SecondsToUTC s) = s mod 86400)"
proof (intro conjI impI)
  show "SecondsToUTC 0 = \<lparr>Year = 1970, Month = 1, Day = 1, Hour = 0, Minute = 0, Second = 0, Weekday = 4, ZoneOffset = 0, Zone = bs ''UTC''\<rparr>"
    (is "_ = ?t")
  proof (rule time_unique)
    have z: "is_int64 0" by (simp add: is_int64_def)
    show "valid_time (SecondsToUTC 0)" using SecondsToUTC_spec(1) [OF z] .
    show "valid_time ?t" by code_simp
    have "date_days ?t = - 11323" by code_simp
    then show "date_days (SecondsToUTC 0) = date_days ?t" using SecondsToUTC_spec(2) [OF z] by simp
  qed (use SecondsToUTC_spec(3-5) [of 0] in \<open>simp_all add: is_int64_def\<close>)
next
  assume s: "is_int64 s \<and> is_int64 (s + 86400)"
  note a = SecondsToUTC_spec [OF conjunct1 [OF s]] and b = SecondsToUTC_spec [OF conjunct2 [OF s]]
  have "valid_date (SecondsToUTC s)" using a(1) by (simp add: valid_time_def)
  note n = next_day_date [OF this]
  have "(s + 86400) div 86400 = s div 86400 + 1" "(s + 86400) mod 86400 = s mod 86400" by simp_all
  note b' = b(2,3) [unfolded this]
  show "SecondsToUTC (s + 86400) = next_day (SecondsToUTC s)"
  proof (rule time_unique [OF b(1) next_day_valid [OF a(1)]])
    show "date_days (SecondsToUTC (s + 86400)) = date_days (next_day (SecondsToUTC s))" using conjunct2 [OF n] a(2) b'(1) by linarith
  qed (simp_all only: next_day_keeps a(3-5) b(4,5) b'(2))
next
  assume "is_int64 s"
  then show "valid_time (SecondsToUTC s)" "Hour (SecondsToUTC s) * 3600 + Minute (SecondsToUTC s) * 60 + Second (SecondsToUTC s) = s mod 86400"
    using SecondsToUTC_spec by blast+
qed

theorem SecondsToUTC_calendar_witness:
  "SecondsToUTC 86400 = next_day (SecondsToUTC 0) \<and> Day (SecondsToUTC 86400) = 2"
proof -
  have "SecondsToUTC 86400 = next_day (SecondsToUTC 0)" using SecondsToUTC_calendar [of 0] by (simp add: is_int64_def)
  then show ?thesis using SecondsToUTC_calendar [of 0] by (simp add: next_day_def months_leap leap_def nonleapyear_def Let_def)
qed

text \<open>C14: \<open>Seconds\<close> inverts \<open>SecondsToUTC\<close> on every \<open>int64\<close>, although its intermediate values may overflow, and
  \<open>SecondsToLocalTime\<close> for every table of zones; and \<open>SecondsToUTC\<close> inverts \<open>Seconds\<close> on every time in UTC with a date of the
  calendar in the years up to \<open>10 ^ 11\<close> before and after.\<close>

theorem Seconds_SecondsToUTC:
  "(is_int64 s \<longrightarrow> Time_Seconds (SecondsToUTC s) = Some s \<and> Time_Seconds (SecondsToLocalTime zones s) = Some s) \<and>
   (valid_time t \<and> ZoneOffset t = 0 \<and> Zone t = bs ''UTC'' \<and> \<bar>Year t\<bar> \<le> 10 ^ 11 \<longrightarrow>
     (\<exists>s. is_int64 s \<and> Time_Seconds t = Some s \<and> SecondsToUTC s = t))"
proof (intro conjI impI)
  have sec: "Time_Seconds ((SecondsToUTC s)\<lparr>Zone := z, ZoneOffset := off\<rparr>) = Some (int64 (s - off))" if s: "is_int64 s" for s z off
  proof -
    note a = SecondsToUTC_spec [OF s]
    let ?t = "(SecondsToUTC s)\<lparr>Zone := z, ZoneOffset := off\<rparr>"
    have v: "valid_date (SecondsToUTC s)" using a(1) by (simp add: valid_time_def)
    have "date_days ?t = date_days (SecondsToUTC s)" by (simp add: date_days_def)
    moreover have "Time_Seconds ?t = Some (int64 ((date_days ?t + 11323) * 86400 + Hour ?t * 3600 + Minute ?t * 60 + Second ?t - ZoneOffset ?t))"
      using v valid_date_day(3) [OF v] a(6) by (intro Time_Seconds_eq) (auto simp: valid_date_def)
    moreover have "(s div 86400) * 86400 + s mod 86400 = s" by (rule div_mult_mod_eq)
    ultimately show ?thesis using a(2,3) by (simp add: add.assoc)
  qed
  assume s: "is_int64 s"
  have "(SecondsToUTC s)\<lparr>Zone := bs ''UTC'', ZoneOffset := 0\<rparr> = SecondsToUTC s" using SecondsToUTC_spec(4,5) [OF s] by simp
  then show "Time_Seconds (SecondsToUTC s) = Some s" using sec [OF s, of 0 "bs ''UTC''"] s by simp
  obtain z off where z: "zones s = (z, off)" by force
  show "Time_Seconds (SecondsToLocalTime zones s) = Some s" using sec [of "int64 (s + off)" off z] s by (simp add: SecondsToLocalTime_def z)
next
  assume t: "valid_time t \<and> ZoneOffset t = 0 \<and> Zone t = bs ''UTC'' \<and> \<bar>Year t\<bar> \<le> 10 ^ 11"
  define tod where "tod = Hour t * 3600 + Minute t * 60 + Second t"
  define s where "s = (date_days t + 11323) * 86400 + tod"
  have v: "valid_date t" using t by (simp add: valid_time_def)
  have tod: "0 \<le> tod" "tod < 86400" using t by (auto simp: valid_time_def tod_def)
  have s: "is_int64 s" using year_start_bound [of "Year t"] valid_date_day [OF v] t tod
    by (auto simp: s_def is_int64_def year_length_def split: if_splits)
  have "Time_Seconds t = Some (int64 s)"
    using Time_Seconds_eq [of t] v valid_date_day(3) [OF v] t by (simp add: valid_date_def s_def tod_def add.assoc)
  moreover have "s div 86400 = date_days t + 11323" by (rule int_div_pos_eq [of _ _ _ tod]) (use tod in \<open>simp_all add: s_def\<close>)
  moreover have "s mod 86400 = tod" by (rule int_mod_pos_eq [of _ _ "date_days t + 11323"]) (use tod in \<open>simp_all add: s_def\<close>)
  ultimately have "SecondsToUTC s = t \<and> Time_Seconds t = Some s" using SecondsToUTC_spec [OF s] t s by (auto simp: tod_def intro!: time_unique)
  then show "\<exists>s. is_int64 s \<and> Time_Seconds t = Some s \<and> SecondsToUTC s = t" using s by auto
qed

theorem Seconds_SecondsToUTC_witness:
  "Time_Seconds (SecondsToUTC (- (2 ^ 63))) = Some (- (2 ^ 63)) \<and>
   (\<exists>s. Time_Seconds \<lparr>Year = 2000, Month = 2, Day = 29, Hour = 23, Minute = 59, Second = 59, Weekday = 2, ZoneOffset = 0, Zone = bs ''UTC''\<rparr> = Some s)"
proof -
  let ?t = "\<lparr>Year = 2000, Month = 2, Day = 29, Hour = 23, Minute = 59, Second = 59, Weekday = 2, ZoneOffset = 0, Zone = bs ''UTC''\<rparr>"
  have "valid_time ?t" by (simp add: valid_time_def valid_date_def date_days_def year_start_def months_leap leap_def leapyear_def)
  then show ?thesis using Seconds_SecondsToUTC [of "- (2 ^ 63)" _ ?t] by (auto simp: is_int64_def)
qed

end
