(* ===== verification/UTF8.thy ===== *)
theory UTF8
  imports Go_Prelude
begin

text \<open>
  Package \<open>utf8\<close>: \<open>utf8.go\<close> and \<open>string.go\<close>, with the decoder \<open>charntorune\<close> of \<open>runtime/rune.c\<close>,
  which the \<open>range\<close> clause over a string calls.

  A rune is a Go \<open>int\<close>. A byte slice and a string are both lists of bytes; the two copies of the decoder
  are two definitions, shown equal. \<open>EncodeRune\<close> writes into a slice and panics if it is too short.
  \<open>utf8.String\<close> is a record with its cached position; its methods return the updated record.
\<close>

section \<open>Decoding\<close>

definition RuneError :: int where "RuneError = 0xFFFD"
definition MaxRune :: int where "MaxRune = 0x10FFFF"
definition RuneSelf :: byte where "RuneSelf = 0x80"
definition UTFMax :: int where "UTFMax = 4"

definition cont_bad :: "byte \<Rightarrow> bool" where
  "cont_bad c \<longleftrightarrow> c < 0x80 \<or> 0xC0 \<le> c"

definition decodeRuneInternal :: "gostring \<Rightarrow> int \<times> nat \<times> bool" where
  "decodeRuneInternal p = (let n = length p in
     if n < 1 then (RuneError, 0, True) else
     let c0 = p ! 0 in
     if c0 < 0x80 then (uint c0, 1, False) else
     if c0 < 0xC0 then (RuneError, 1, False) else
     if n < 2 then (RuneError, 1, True) else
     let c1 = p ! 1 in
     if cont_bad c1 then (RuneError, 1, False) else
     if c0 < 0xE0 then
       (let rune = push_bit 6 (uint (c0 AND 0x1F)) OR uint (c1 AND 0x3F) in
        if rune \<le> 0x7F then (RuneError, 1, False) else (rune, 2, False)) else
     if n < 3 then (RuneError, 1, True) else
     let c2 = p ! 2 in
     if cont_bad c2 then (RuneError, 1, False) else
     if c0 < 0xF0 then
       (let rune = push_bit 12 (uint (c0 AND 0x0F)) OR push_bit 6 (uint (c1 AND 0x3F)) OR uint (c2 AND 0x3F) in
        if rune \<le> 0x7FF then (RuneError, 1, False) else (rune, 3, False)) else
     if n < 4 then (RuneError, 1, True) else
     let c3 = p ! 3 in
     if cont_bad c3 then (RuneError, 1, False) else
     if c0 < 0xF8 then
       (let rune = push_bit 18 (uint (c0 AND 0x07)) OR push_bit 12 (uint (c1 AND 0x3F)) OR
          push_bit 6 (uint (c2 AND 0x3F)) OR uint (c3 AND 0x3F) in
        if rune \<le> 0xFFFF then (RuneError, 1, False) else (rune, 4, False)) else
     (RuneError, 1, False))"

definition decodeRuneInStringInternal :: "gostring \<Rightarrow> int \<times> nat \<times> bool" where
  "decodeRuneInStringInternal s = (let n = length s in
     if n < 1 then (RuneError, 0, True) else
     let c0 = s ! 0 in
     if c0 < 0x80 then (uint c0, 1, False) else
     if c0 < 0xC0 then (RuneError, 1, False) else
     if n < 2 then (RuneError, 1, True) else
     let c1 = s ! 1 in
     if cont_bad c1 then (RuneError, 1, False) else
     if c0 < 0xE0 then
       (let rune = push_bit 6 (uint (c0 AND 0x1F)) OR uint (c1 AND 0x3F) in
        if rune \<le> 0x7F then (RuneError, 1, False) else (rune, 2, False)) else
     if n < 3 then (RuneError, 1, True) else
     let c2 = s ! 2 in
     if cont_bad c2 then (RuneError, 1, False) else
     if c0 < 0xF0 then
       (let rune = push_bit 12 (uint (c0 AND 0x0F)) OR push_bit 6 (uint (c1 AND 0x3F)) OR uint (c2 AND 0x3F) in
        if rune \<le> 0x7FF then (RuneError, 1, False) else (rune, 3, False)) else
     if n < 4 then (RuneError, 1, True) else
     let c3 = s ! 3 in
     if cont_bad c3 then (RuneError, 1, False) else
     if c0 < 0xF8 then
       (let rune = push_bit 18 (uint (c0 AND 0x07)) OR push_bit 12 (uint (c1 AND 0x3F)) OR
          push_bit 6 (uint (c2 AND 0x3F)) OR uint (c3 AND 0x3F) in
        if rune \<le> 0xFFFF then (RuneError, 1, False) else (rune, 4, False)) else
     (RuneError, 1, False))"

definition FullRune :: "gostring \<Rightarrow> bool" where
  "FullRune p = (let (_, _, short) = decodeRuneInternal p in \<not> short)"

definition FullRuneInString :: "gostring \<Rightarrow> bool" where
  "FullRuneInString s = (let (_, _, short) = decodeRuneInStringInternal s in \<not> short)"

definition DecodeRune :: "gostring \<Rightarrow> int \<times> nat" where
  "DecodeRune p = (let (rune, size, _) = decodeRuneInternal p in (rune, size))"

definition DecodeRuneInString :: "gostring \<Rightarrow> int \<times> nat" where
  "DecodeRuneInString s = (let (rune, size, _) = decodeRuneInStringInternal s in (rune, size))"

definition RuneStart :: "byte \<Rightarrow> bool" where
  "RuneStart b \<longleftrightarrow> b AND 0xC0 \<noteq> 0x80"

text \<open>The loop \<open>for start--; start >= lim; start--\<close> of \<open>DecodeLastRune\<close>, entered with \<open>start\<close> already
  decremented.\<close>

function lastStart :: "gostring \<Rightarrow> int \<Rightarrow> int \<Rightarrow> int option" where
  "lastStart p lim start =
     (if start \<ge> lim then do {
        b \<leftarrow> go_index p start;
        if RuneStart b then Some start else lastStart p lim (start - 1)
      } else Some start)"
  by pat_completeness auto
termination
  by (relation "measure (\<lambda>(p, lim, start). nat (start - lim + 1))") auto

declare lastStart.simps [simp del]

definition DecodeLastRune :: "gostring \<Rightarrow> (int \<times> nat) option" where
  "DecodeLastRune p = (let end = int (length p) in
     if end = 0 then Some (RuneError, 0)
     else let start = end - 1 in do {
       b \<leftarrow> go_index p start;
       if b < RuneSelf then Some (uint b, 1)
       else do {
         let lim = (if end - UTFMax < 0 then 0 else end - UTFMax);
         start \<leftarrow> lastStart p lim (start - 1);
         let start = (if start < 0 then 0 else start);
         q \<leftarrow> go_slice p start end;
         let (rune, size) = DecodeRune q;
         if start + int size \<noteq> end then Some (RuneError, 1) else Some (rune, size)
       }
     })"

definition DecodeLastRuneInString :: "gostring \<Rightarrow> (int \<times> nat) option" where
  "DecodeLastRuneInString s = (let end = int (length s) in
     if end = 0 then Some (RuneError, 0)
     else let start = end - 1 in do {
       b \<leftarrow> go_index s start;
       if b < RuneSelf then Some (uint b, 1)
       else do {
         let lim = (if end - UTFMax < 0 then 0 else end - UTFMax);
         start \<leftarrow> lastStart s lim (start - 1);
         let start = (if start < 0 then 0 else start);
         q \<leftarrow> go_slice s start end;
         let (rune, size) = DecodeRuneInString q;
         if start + int size \<noteq> end then Some (RuneError, 1) else Some (rune, size)
       }
     })"

section \<open>Encoding\<close>

definition RuneLen :: "int \<Rightarrow> int" where
  "RuneLen rune =
     (if rune \<le> 0x7F then 1
      else if rune \<le> 0x7FF then 2
      else if rune \<le> 0xFFFF then 3
      else if rune \<le> 0x1FFFFF then 4
      else -1)"

definition go_byte :: "int \<Rightarrow> byte" where
  "go_byte r = word_of_int r"

definition EncodeRune :: "gostring \<Rightarrow> int \<Rightarrow> (gostring \<times> nat) option" where
  "EncodeRune p rune = (let r = rune mod 2 ^ 32 in
     if r \<le> 0x7F then do { p \<leftarrow> go_set p 0 (go_byte r); Some (p, 1) }
     else if r \<le> 0x7FF then do {
       p \<leftarrow> go_set p 0 (0xC0 OR go_byte (drop_bit 6 r));
       p \<leftarrow> go_set p 1 (0x80 OR (go_byte r AND 0x3F));
       Some (p, 2)
     } else let r = (if r > MaxRune then RuneError else r) in
     if r \<le> 0xFFFF then do {
       p \<leftarrow> go_set p 0 (0xE0 OR go_byte (drop_bit 12 r));
       p \<leftarrow> go_set p 1 (0x80 OR (go_byte (drop_bit 6 r) AND 0x3F));
       p \<leftarrow> go_set p 2 (0x80 OR (go_byte r AND 0x3F));
       Some (p, 3)
     } else do {
       p \<leftarrow> go_set p 0 (0xF0 OR go_byte (drop_bit 18 r));
       p \<leftarrow> go_set p 1 (0x80 OR (go_byte (drop_bit 12 r) AND 0x3F));
       p \<leftarrow> go_set p 2 (0x80 OR (go_byte (drop_bit 6 r) AND 0x3F));
       p \<leftarrow> go_set p 3 (0x80 OR (go_byte r AND 0x3F));
       Some (p, 4)
     })"

section \<open>The range clause and counting\<close>

text \<open>\<open>charntorune\<close> of the run-time system: the decoder behind \<open>for _, c := range s\<close>. Unlike \<open>DecodeRune\<close>
  it refuses a value above \<open>MaxRune\<close>.\<close>

definition charntorune :: "gostring \<Rightarrow> int \<times> nat" where
  "charntorune str = (let n = length str; bad = (RuneError, 1) in
     if n \<le> 0 then bad else
     let c = uint (str ! 0) in
     if c < 0x80 then (c, 1) else
     if n \<le> 1 then bad else
     let c1 = uint (str ! 1) XOR 0x80 in
     if c1 AND 0xC0 \<noteq> 0 then bad else
     if c < 0xE0 then
       (if c < 0xC0 then bad else
        let l = (push_bit 6 c OR c1) AND 0x7FF in if l \<le> 0x7F then bad else (l, 2)) else
     if n \<le> 2 then bad else
     let c2 = uint (str ! 2) XOR 0x80 in
     if c2 AND 0xC0 \<noteq> 0 then bad else
     if c < 0xF0 then
       (let l = (push_bit 6 (push_bit 6 c OR c1) OR c2) AND 0xFFFF in if l \<le> 0x7FF then bad else (l, 3)) else
     if n \<le> 3 then bad else
     let c3 = uint (str ! 3) XOR 0x80 in
     if c3 AND 0xC0 \<noteq> 0 then bad else
     if c < 0xF8 then
       (let l = (push_bit 6 (push_bit 6 (push_bit 6 c OR c1) OR c2) OR c3) AND 0x1FFFFF in
        if l \<le> 0xFFFF \<or> l > MaxRune then bad else (l, 4)) else
     bad)"

lemma charntorune_pos: "0 < snd (charntorune s)"
  by (simp add: charntorune_def Let_def)

text \<open>The iterations of a \<open>range\<close> clause over a string: runes with their widths.\<close>

function range_string :: "gostring \<Rightarrow> (int \<times> nat) list" where
  "range_string s = (if s = [] then [] else charntorune s # range_string (drop (snd (charntorune s)) s))"
  by pat_completeness auto
termination
  by (relation "measure length") (auto simp: charntorune_pos)

declare range_string.simps [simp del]

lemma DecodeRune_pos: "p \<noteq> [] \<Longrightarrow> 0 < snd (DecodeRune p)"
  by (simp add: DecodeRune_def decodeRuneInternal_def Let_def)

function RuneCount_loop :: "gostring \<Rightarrow> nat \<Rightarrow> nat \<Rightarrow> nat" where
  "RuneCount_loop p i n =
     (if i < length p then
        (if p ! i < RuneSelf then RuneCount_loop p (i + 1) (n + 1)
         else RuneCount_loop p (i + snd (DecodeRune (drop i p))) (n + 1))
      else n)"
  by pat_completeness auto
termination
  using DecodeRune_pos by (relation "measure (\<lambda>(p, i, n). length p - i)") (auto intro!: diff_less_mono2)

declare RuneCount_loop.simps [simp del]

definition RuneCount :: "gostring \<Rightarrow> nat" where
  "RuneCount p = RuneCount_loop p 0 0"

definition RuneCountInString :: "gostring \<Rightarrow> nat" where
  "RuneCountInString s = length (range_string s)"

section \<open>Bytes of an encoding\<close>

lemma cont_bad_iff: "cont_bad c \<longleftrightarrow> RuneStart c"
  unfolding cont_bad_def RuneStart_def by (rule byte_check [of _ c]) code_simp

lemma not_RuneStart_ge: "\<not> RuneStart c \<Longrightarrow> \<not> c < 0x80 \<and> c < 0xC0"
  by (auto simp: cont_bad_iff [symmetric] cont_bad_def)

lemma uint_and_masks:
  "uint (c AND 0x1F :: byte) = uint c mod 32" "uint (c AND 0x3F :: byte) = uint c mod 64"
  "uint (c AND 0x0F :: byte) = uint c mod 16" "uint (c AND 0x07 :: byte) = uint c mod 8"
  using uint_and_mask [of "0x1F" 5 c] uint_and_mask [of "0x3F" 6 c] uint_and_mask [of "0x0F" 4 c]
    uint_and_mask [of "0x07" 3 c]
  by (simp_all add: mask_eq_exp_minus_1)

definition rune2 :: "byte \<Rightarrow> byte \<Rightarrow> int" where
  "rune2 c0 c1 = uint c0 mod 32 * 64 + uint c1 mod 64"

definition rune3 :: "byte \<Rightarrow> byte \<Rightarrow> byte \<Rightarrow> int" where
  "rune3 c0 c1 c2 = uint c0 mod 16 * 4096 + uint c1 mod 64 * 64 + uint c2 mod 64"

definition rune4 :: "byte \<Rightarrow> byte \<Rightarrow> byte \<Rightarrow> byte \<Rightarrow> int" where
  "rune4 c0 c1 c2 c3 = uint c0 mod 8 * 262144 + uint c1 mod 64 * 4096 + uint c2 mod 64 * 64 + uint c3 mod 64"

lemma rune2_or: "push_bit 6 (uint (c0 AND 0x1F)) OR uint (c1 AND 0x3F) = rune2 c0 c1"
  by (subst or_push_bit_add) (simp_all add: uint_and_masks rune2_def)

lemma rune3_or:
  "push_bit 12 (uint (c0 AND 0x0F)) OR push_bit 6 (uint (c1 AND 0x3F)) OR uint (c2 AND 0x3F) = rune3 c0 c1 c2"
proof -
  let ?a = "uint c0 mod 16" and ?b = "uint c1 mod 64" and ?c = "uint c2 mod 64"
  have b: "0 \<le> ?b \<and> ?b < 64 \<and> 0 \<le> ?c \<and> ?c < 64" by simp
  then have "push_bit 6 ?b OR ?c = ?b * 64 + ?c" by (subst or_push_bit_add) auto
  moreover have "push_bit 12 ?a OR (?b * 64 + ?c) = ?a * 4096 + (?b * 64 + ?c)"
    using b or_push_bit_add [of "?b * 64 + ?c" 12 ?a] by auto
  ultimately show ?thesis by (simp add: uint_and_masks rune3_def)
qed

lemma rune4_or:
  "push_bit 18 (uint (c0 AND 0x07)) OR push_bit 12 (uint (c1 AND 0x3F)) OR push_bit 6 (uint (c2 AND 0x3F)) OR
     uint (c3 AND 0x3F) = rune4 c0 c1 c2 c3"
proof -
  let ?a = "uint c0 mod 8" and ?b = "uint c1 mod 64" and ?c = "uint c2 mod 64" and ?d = "uint c3 mod 64"
  have b: "0 \<le> ?b \<and> ?b < 64 \<and> 0 \<le> ?c \<and> ?c < 64 \<and> 0 \<le> ?d \<and> ?d < 64" by simp
  then have "push_bit 6 ?c OR ?d = ?c * 64 + ?d" by (subst or_push_bit_add) auto
  moreover have "push_bit 12 ?b OR (?c * 64 + ?d) = ?b * 4096 + (?c * 64 + ?d)"
    using b or_push_bit_add [of "?c * 64 + ?d" 12 ?b] by auto
  moreover have "push_bit 18 ?a OR (?b * 4096 + (?c * 64 + ?d)) = ?a * 262144 + (?b * 4096 + (?c * 64 + ?d))"
    using b or_push_bit_add [of "?b * 4096 + (?c * 64 + ?d)" 18 ?a] by auto
  ultimately show ?thesis by (simp add: uint_and_masks rune4_def)
qed

lemmas rune_or = rune2_or rune3_or rune4_or

lemma decodeRuneInString_eq: "decodeRuneInStringInternal = decodeRuneInternal"
  by (simp add: fun_eq_iff decodeRuneInStringInternal_def decodeRuneInternal_def)

lemma DecodeRuneInString_eq: "DecodeRuneInString = DecodeRune"
  by (simp add: fun_eq_iff DecodeRuneInString_def DecodeRune_def decodeRuneInString_eq)

lemma DecodeLastRuneInString_eq: "DecodeLastRuneInString = DecodeLastRune"
  unfolding fun_eq_iff DecodeLastRuneInString_def DecodeLastRune_def DecodeRuneInString_eq by simp

text \<open>The decoder by the value of the first bytes.\<close>

lemma DecodeRune_unfold:
  "DecodeRune p = (let n = length p; bad = (RuneError, 1) in
     if n = 0 then (RuneError, 0)
     else if p ! 0 < 0x80 then (uint (p ! 0), 1)
     else if p ! 0 < 0xC0 \<or> n < 2 \<or> RuneStart (p ! 1) then bad
     else if p ! 0 < 0xE0 then (if rune2 (p ! 0) (p ! 1) \<le> 0x7F then bad else (rune2 (p ! 0) (p ! 1), 2))
     else if n < 3 \<or> RuneStart (p ! 2) then bad
     else if p ! 0 < 0xF0 then
       (if rune3 (p ! 0) (p ! 1) (p ! 2) \<le> 0x7FF then bad else (rune3 (p ! 0) (p ! 1) (p ! 2), 3))
     else if n < 4 \<or> RuneStart (p ! 3) then bad
     else if p ! 0 < 0xF8 then
       (if rune4 (p ! 0) (p ! 1) (p ! 2) (p ! 3) \<le> 0xFFFF then bad
        else (rune4 (p ! 0) (p ! 1) (p ! 2) (p ! 3), 4))
     else bad)"
  unfolding DecodeRune_def decodeRuneInternal_def rune_or cont_bad_iff Let_def by simp

lemma DecodeRune_cases:
  assumes "DecodeRune p = (r, n)" "p \<noteq> []"
  obtains (ascii) "p ! 0 < 0x80" "r = uint (p ! 0)" "n = 1"
  | (bad) "\<not> p ! 0 < 0x80" "r = RuneError" "n = 1"
  | (two) "\<not> p ! 0 < 0xC0" "p ! 0 < 0xE0" "2 \<le> length p" "\<not> RuneStart (p ! 1)"
      "r = rune2 (p ! 0) (p ! 1)" "0x7F < r" "n = 2"
  | (three) "\<not> p ! 0 < 0xE0" "p ! 0 < 0xF0" "3 \<le> length p" "\<not> RuneStart (p ! 1)" "\<not> RuneStart (p ! 2)"
      "r = rune3 (p ! 0) (p ! 1) (p ! 2)" "0x7FF < r" "n = 3"
  | (four) "\<not> p ! 0 < 0xF0" "p ! 0 < 0xF8" "4 \<le> length p" "\<not> RuneStart (p ! 1)" "\<not> RuneStart (p ! 2)"
      "\<not> RuneStart (p ! 3)" "r = rune4 (p ! 0) (p ! 1) (p ! 2) (p ! 3)" "0xFFFF < r" "n = 4"
  using assms by (auto simp: DecodeRune_unfold Let_def not_less split: if_splits)

lemma byte_not_less_mono: "\<not> (c :: byte) < a \<Longrightarrow> b \<le> a \<Longrightarrow> \<not> c < b"
  by simp

lemma DecodeRune_intros:
  "p \<noteq> [] \<Longrightarrow> p ! 0 < 0x80 \<Longrightarrow> DecodeRune p = (uint (p ! 0), 1)"
  "\<not> p ! 0 < 0xC0 \<Longrightarrow> p ! 0 < 0xE0 \<Longrightarrow> 2 \<le> length p \<Longrightarrow> \<not> RuneStart (p ! 1) \<Longrightarrow>
     0x7F < rune2 (p ! 0) (p ! 1) \<Longrightarrow> DecodeRune p = (rune2 (p ! 0) (p ! 1), 2)"
  "\<not> p ! 0 < 0xE0 \<Longrightarrow> p ! 0 < 0xF0 \<Longrightarrow> 3 \<le> length p \<Longrightarrow> \<not> RuneStart (p ! 1) \<Longrightarrow> \<not> RuneStart (p ! 2) \<Longrightarrow>
     0x7FF < rune3 (p ! 0) (p ! 1) (p ! 2) \<Longrightarrow> DecodeRune p = (rune3 (p ! 0) (p ! 1) (p ! 2), 3)"
  "\<not> p ! 0 < 0xF0 \<Longrightarrow> p ! 0 < 0xF8 \<Longrightarrow> 4 \<le> length p \<Longrightarrow> \<not> RuneStart (p ! 1) \<Longrightarrow> \<not> RuneStart (p ! 2) \<Longrightarrow>
     \<not> RuneStart (p ! 3) \<Longrightarrow> 0xFFFF < rune4 (p ! 0) (p ! 1) (p ! 2) (p ! 3) \<Longrightarrow>
     DecodeRune p = (rune4 (p ! 0) (p ! 1) (p ! 2) (p ! 3), 4)"
proof -
  note m = byte_not_less_mono [of "p ! 0" "0xC0" "0x80", simplified]
    byte_not_less_mono [of "p ! 0" "0xE0" "0x80", simplified] byte_not_less_mono [of "p ! 0" "0xE0" "0xC0", simplified]
    byte_not_less_mono [of "p ! 0" "0xF0" "0x80", simplified] byte_not_less_mono [of "p ! 0" "0xF0" "0xC0", simplified]
    byte_not_less_mono [of "p ! 0" "0xF0" "0xE0", simplified]
  have ne: "p \<noteq> []" if "2 \<le> length p \<or> 3 \<le> length p \<or> 4 \<le> length p" using that by auto
  {
    assume "p \<noteq> []" "p ! 0 < 0x80"
    then show "DecodeRune p = (uint (p ! 0), 1)" by (simp add: DecodeRune_unfold)
  next
    assume "\<not> p ! 0 < 0xC0" "p ! 0 < 0xE0" "2 \<le> length p" "\<not> RuneStart (p ! 1)" "0x7F < rune2 (p ! 0) (p ! 1)"
    then show "DecodeRune p = (rune2 (p ! 0) (p ! 1), 2)"
      using m ne by (simp add: DecodeRune_unfold)
  next
    assume "\<not> p ! 0 < 0xE0" "p ! 0 < 0xF0" "3 \<le> length p" "\<not> RuneStart (p ! 1)" "\<not> RuneStart (p ! 2)"
     "0x7FF < rune3 (p ! 0) (p ! 1) (p ! 2)"
    then show "DecodeRune p = (rune3 (p ! 0) (p ! 1) (p ! 2), 3)"
      using m ne by (simp add: DecodeRune_unfold)
  next
    assume "\<not> p ! 0 < 0xF0" "p ! 0 < 0xF8" "4 \<le> length p" "\<not> RuneStart (p ! 1)" "\<not> RuneStart (p ! 2)"
     "\<not> RuneStart (p ! 3)" "0xFFFF < rune4 (p ! 0) (p ! 1) (p ! 2) (p ! 3)"
    then show "DecodeRune p = (rune4 (p ! 0) (p ! 1) (p ! 2) (p ! 3), 4)"
      using m ne by (simp add: DecodeRune_unfold)
  }
qed

lemma DecodeRune_size:
  assumes "DecodeRune p = (r, n)"
  shows "n \<le> 4" "n \<le> length p" "p \<noteq> [] \<Longrightarrow> 0 < n"
proof -
  have "p = [] \<Longrightarrow> n = 0" using assms by (simp add: DecodeRune_unfold)
  moreover have "p \<noteq> [] \<Longrightarrow> 0 < n \<and> n \<le> 4 \<and> n \<le> length p"
    using assms by (rule DecodeRune_cases [where p = p]) (auto simp: Suc_le_eq)
  ultimately show "n \<le> 4" "n \<le> length p" "p \<noteq> [] \<Longrightarrow> 0 < n" by auto
qed

lemma DecodeRune_multi:
  assumes "DecodeRune p = (r, n)" "2 \<le> n"
  shows "RuneStart (p ! 0)" "0 < k \<Longrightarrow> k < n \<Longrightarrow> \<not> RuneStart (p ! k)"
proof -
  have ne: "p \<noteq> []" using DecodeRune_size(2) [OF assms(1)] assms(2) by auto
  have "0xC0 \<le> p ! 0 \<and> (\<forall>k. 0 < k \<longrightarrow> k < n \<longrightarrow> \<not> RuneStart (p ! k))"
    using assms(1) ne
  proof (cases rule: DecodeRune_cases)
    case two
    then show ?thesis by (auto simp: less_Suc_eq numeral_2_eq_2 not_less)
  next
    case three
    then have "k = 1 \<or> k = 2" if "0 < k" "k < n" for k using that by linarith
    with three show ?thesis using order_trans [of "0xC0" "0xE0" "p ! 0"] by (auto simp: not_less)
  next
    case four
    then have "k = 1 \<or> k = 2 \<or> k = 3" if "0 < k" "k < n" for k using that by linarith
    with four show ?thesis using order_trans [of "0xC0" "0xF0" "p ! 0"] by (auto simp: not_less)
  qed (use assms(2) in auto)
  then show "RuneStart (p ! 0)" "0 < k \<Longrightarrow> k < n \<Longrightarrow> \<not> RuneStart (p ! k)"
    by (auto simp: cont_bad_iff [symmetric] cont_bad_def)
qed

lemma DecodeRune_single:
  assumes "DecodeRune p = (r, 1)"
  shows "p \<noteq> []" "r = (if p ! 0 < 0x80 then uint (p ! 0) else RuneError)"
proof -
  show "p \<noteq> []" using assms by (auto simp: DecodeRune_unfold)
  from assms this show "r = (if p ! 0 < 0x80 then uint (p ! 0) else RuneError)"
    by (rule DecodeRune_cases) auto
qed

text \<open>A multi-byte rune depends on its own bytes only.\<close>

lemma DecodeRune_local:
  assumes "DecodeRune p = (r, n)" "2 \<le> n" "n \<le> length q" "\<And>k. k < n \<Longrightarrow> q ! k = p ! k"
  shows "DecodeRune q = (r, n)"
proof -
  have ne: "p \<noteq> []" using DecodeRune_size(2) [OF assms(1)] assms(2) by auto
  from assms(1) ne show ?thesis
  proof (cases rule: DecodeRune_cases)
    case two
    then show ?thesis using DecodeRune_intros(2) [of q] assms(3) assms(4) [of 0] assms(4) [of 1] by simp
  next
    case three
    then show ?thesis
      using DecodeRune_intros(3) [of q] assms(3) assms(4) [of 0] assms(4) [of 1] assms(4) [of 2] by simp
  next
    case four
    then show ?thesis
      using DecodeRune_intros(4) [of q] assms(3) assms(4) [of 0] assms(4) [of 1] assms(4) [of 2] assms(4) [of 3]
      by simp
  qed (use assms(2) in auto)
qed

lemma DecodeRune_take:
  assumes "snd (DecodeRune p) \<le> m" "p \<noteq> []"
  shows "DecodeRune (take m p) = DecodeRune p"
proof -
  obtain r n where d: "DecodeRune p = (r, n)" by (metis surj_pair)
  obtain r' n' where d': "DecodeRune (take m p) = (r', n')" by (metis surj_pair)
  have n: "0 < n" "n \<le> m" "n \<le> length p" using DecodeRune_size [OF d] assms d by auto
  have ne: "take m p \<noteq> []" using n assms(2) by auto
  note n' = DecodeRune_size [OF d'] DecodeRune_size(3) [OF d' ne]
  show ?thesis
  proof (cases "2 \<le> n")
    case True
    then show ?thesis using DecodeRune_local [OF d True, of "take m p"] n d by simp
  next
    case False
    then have n1: "n = 1" using n by simp
    have "n' < 2"
    proof (rule ccontr)
      assume "\<not> n' < 2"
      then have "DecodeRune p = (r', n')" using DecodeRune_local [OF d', of p] n'(2) by auto
      then show False using d n1 \<open>\<not> n' < 2\<close> by simp
    qed
    then have "n' = 1" using n'(4) by simp
    then show ?thesis
      using DecodeRune_single(2) [of p r] DecodeRune_single(2) [of "take m p" r'] d d' n1 n by simp
  qed
qed

section \<open>The sequence of runes\<close>

text \<open>The specification: decode the first rune, drop its bytes, go on.\<close>

function decode_all :: "gostring \<Rightarrow> (int \<times> nat) list" where
  "decode_all p = (if p = [] then [] else DecodeRune p # decode_all (drop (snd (DecodeRune p)) p))"
  by pat_completeness auto
termination
  by (relation "measure length") (auto simp: DecodeRune_pos)

declare decode_all.simps [simp del]

lemma decode_all_Nil [simp]: "decode_all [] = []"
  by (simp add: decode_all.simps)

lemma decode_all_Cons:
  assumes "p \<noteq> []"
  obtains r n where "DecodeRune p = (r, n)" "0 < n" "n \<le> length p" "decode_all p = (r, n) # decode_all (drop n p)"
proof -
  obtain r n where d: "DecodeRune p = (r, n)" by (metis surj_pair)
  with assms DecodeRune_size [OF d] that show ?thesis by (auto simp: decode_all.simps [of p])
qed

lemma decode_all_induct [case_names Nil Rune]:
  assumes "P []"
    and "\<And>p r n. p \<noteq> [] \<Longrightarrow> DecodeRune p = (r, n) \<Longrightarrow> 0 < n \<Longrightarrow> n \<le> length p \<Longrightarrow> P (drop n p) \<Longrightarrow> P p"
  shows "P p"
proof (induction "length p" arbitrary: p rule: less_induct)
  case less
  show ?case
  proof (cases "p = []")
    case False
    then obtain r n where "DecodeRune p = (r, n)" "0 < n" "n \<le> length p" by (rule decode_all_Cons) blast
    with False show ?thesis using assms(2) [of p r n] less [of "drop n p"] by auto
  qed (use assms(1) in simp)
qed

lemma decode_all_rec:
  "p \<noteq> [] \<Longrightarrow> DecodeRune p = (r, n) \<Longrightarrow> decode_all p = (r, n) # decode_all (drop n p)"
  by (simp add: decode_all.simps [of p])

text \<open>The position of the \<open>k\<close>-th rune.\<close>

definition rune_pos :: "(int \<times> nat) list \<Rightarrow> nat \<Rightarrow> nat" where
  "rune_pos rs k = sum_list (map snd (take k rs))"

lemma rune_pos_0 [simp]: "rune_pos rs 0 = 0"
  by (simp add: rune_pos_def)

lemma rune_pos_Cons [simp]: "rune_pos (x # rs) (Suc k) = snd x + rune_pos rs k"
  by (simp add: rune_pos_def)

lemma rune_pos_Suc: "k < length rs \<Longrightarrow> rune_pos rs (Suc k) = rune_pos rs k + snd (rs ! k)"
  by (simp add: rune_pos_def take_Suc_conv_app_nth)

lemma rune_pos_length: "rune_pos (decode_all p) (length (decode_all p)) = length p"
  by (induction p rule: decode_all_induct) (auto simp: decode_all_rec)

lemma rune_pos_mono: "m \<le> j \<Longrightarrow> rune_pos rs m \<le> rune_pos rs j"
  by (auto simp: rune_pos_def take_add dest!: le_Suc_ex)

lemma rune_pos_le: "k \<le> length (decode_all p) \<Longrightarrow> rune_pos (decode_all p) k \<le> length p"
  using rune_pos_mono [of k "length (decode_all p)" "decode_all p"] rune_pos_length [of p] by simp

lemma decode_at:
  assumes "k < length (decode_all p)"
  shows "DecodeRune (drop (rune_pos (decode_all p) k) p) = decode_all p ! k"
    "rune_pos (decode_all p) k < length p"
  using assms
proof (induction p arbitrary: k rule: decode_all_induct)
  case (Rune p r n)
  {
    case 1
    with Rune show ?case by (cases k) (auto simp: decode_all_rec add.commute)
  next
    case 2
    with Rune show ?case by (cases k) (auto simp: decode_all_rec less_diff_conv add.commute)
  }
qed simp_all

lemma decode_all_drop:
  "k \<le> length (decode_all p) \<Longrightarrow> decode_all (drop (rune_pos (decode_all p) k) p) = drop k (decode_all p)"
proof (induction p arbitrary: k rule: decode_all_induct)
  case (Rune p r n)
  then show ?case by (cases k) (auto simp: decode_all_rec add.commute)
qed simp

lemma decode_all_take:
  assumes "k \<le> length (decode_all p)"
  shows "decode_all (take (rune_pos (decode_all p) k) p) = take k (decode_all p)"
  using assms
proof (induction p arbitrary: k rule: decode_all_induct)
  case (Rune p r n)
  show ?case
  proof (cases k)
    case (Suc k')
    let ?m = "rune_pos (decode_all (drop n p)) k'"
    have pos: "rune_pos (decode_all p) k = n + ?m" by (simp add: decode_all_rec [OF Rune(1,2)] Suc)
    have "DecodeRune (take (n + ?m) p) = (r, n)"
      using DecodeRune_take [of p "n + ?m"] Rune(1,2) by simp
    moreover have "take (n + ?m) p \<noteq> []" using Rune(1,3) by simp
    moreover have "decode_all (drop n (take (n + ?m) p)) = take k' (decode_all (drop n p))"
      using Rune(5) [of k'] Rune.prems Suc by (simp add: decode_all_rec [OF Rune(1,2)] drop_take)
    ultimately show ?thesis
      unfolding pos by (simp add: decode_all_rec Suc decode_all_rec [OF Rune(1,2)])
  qed simp
qed simp

text \<open>A byte that can start a rune does start one.\<close>

lemma RuneStart_boundary:
  "i < length p \<Longrightarrow> RuneStart (p ! i) \<Longrightarrow> \<exists>k < length (decode_all p). rune_pos (decode_all p) k = i"
proof (induction p arbitrary: i rule: decode_all_induct)
  case (Rune p r n)
  note rec = decode_all_rec [OF Rune(1,2)]
  show ?case
  proof (cases "i = 0")
    case True
    then show ?thesis by (intro exI [of _ 0]) (simp add: rec)
  next
    case False
    then have "n \<le> i" using DecodeRune_multi(2) [OF Rune(2), of i] Rune.prems(2) by fastforce
    then obtain k where "k < length (decode_all (drop n p))" "rune_pos (decode_all (drop n p)) k = i - n"
      using Rune(5) [of "i - n"] Rune.prems diff_less_mono [of i "length p" n] by auto
    then show ?thesis using \<open>n \<le> i\<close> by (intro exI [of _ "Suc k"]) (simp add: rec)
  qed
qed simp

text \<open>The search of \<open>DecodeLastRune\<close> stops at the nearest byte that can start a rune, or just before the
  limit.\<close>

lemma lastStart_spec:
  assumes "0 \<le> lim" "start < int (length p)"
  shows "\<exists>r. lastStart p lim start = Some r \<and> r \<le> max start (lim - 1) \<and> min start (lim - 1) \<le> r \<and>
     (\<forall>i. r < int i \<and> int i \<le> start \<longrightarrow> \<not> RuneStart (p ! i)) \<and> (lim \<le> r \<longrightarrow> RuneStart (p ! nat r))"
  using assms
proof (induction p lim start rule: lastStart.induct)
  case (1 p lim start)
  show ?case
  proof (cases "lim \<le> start")
    case False
    then show ?thesis by (subst lastStart.simps) auto
  next
    case True
    let ?b = "p ! nat start"
    have ix: "go_index p start = Some ?b" using True 1(2,3) by (simp add: go_index_def)
    show ?thesis
    proof (cases "RuneStart ?b")
      case start: True
      then show ?thesis using True ix by (subst lastStart.simps) auto
    next
      case False
      have unf: "lastStart p lim start = lastStart p lim (start - 1)"
        using True ix False by (subst lastStart.simps) simp
      obtain r where r: "lastStart p lim (start - 1) = Some r" "r \<le> max (start - 1) (lim - 1)"
        "min (start - 1) (lim - 1) \<le> r" "\<forall>i. r < int i \<and> int i \<le> start - 1 \<longrightarrow> \<not> RuneStart (p ! i)"
        "lim \<le> r \<longrightarrow> RuneStart (p ! nat r)"
        using 1(1) [OF True ix False] 1(2,3) by auto
      have "\<not> RuneStart (p ! i)" if "r < int i" "int i \<le> start" for i
        using r(4) that False by (cases "int i = start") auto
      then show ?thesis using unf r True by auto
    qed
  qed
qed

lemma last_boundary:
  assumes "k < length (decode_all p)" "rune_pos (decode_all p) k = i" "DecodeRune (drop i p) = (r, n)"
    "i + n = length p"
  shows "last (decode_all p) = (r, n)"
proof -
  have at: "decode_all p ! k = (r, n)" using decode_at(1) [OF assms(1)] assms(2,3) by simp
  have "drop (Suc k) (decode_all p) = decode_all (drop (rune_pos (decode_all p) (Suc k)) p)"
    using decode_all_drop [of "Suc k" p] assms(1) by simp
  also have "rune_pos (decode_all p) (Suc k) = length p"
    using rune_pos_Suc [OF assms(1)] at assms(2,4) by simp
  finally have "length (decode_all p) = Suc k" using assms(1) by simp
  then show ?thesis using at last_conv_nth [of "decode_all p"] by fastforce
qed

lemma DecodeLastRune_eval:
  assumes "p \<noteq> []" "\<not> last p < 0x80"
  obtains s where "DecodeLastRune p = Some (if s + snd (DecodeRune (drop s p)) = length p
      then DecodeRune (drop s p) else (RuneError, 1))" "s < length p"
    "\<forall>i. s < i \<and> i + 1 < length p \<longrightarrow> \<not> RuneStart (p ! i)"
    "RuneStart (p ! s) \<or> s = 0 \<or> s + 4 < length p"
proof -
  let ?e = "int (length p)" and ?lim = "max 0 (int (length p) - 4)"
  have lim: "(if ?e - UTFMax < 0 then 0 else ?e - UTFMax) = ?lim" by (simp add: UTFMax_def)
  obtain r where r: "lastStart p ?lim (?e - 1 - 1) = Some r" "r \<le> max (?e - 2) (?lim - 1)"
    "min (?e - 2) (?lim - 1) \<le> r" "\<forall>i. r < int i \<and> int i \<le> ?e - 2 \<longrightarrow> \<not> RuneStart (p ! i)"
    "?lim \<le> r \<longrightarrow> RuneStart (p ! nat r)"
    using lastStart_spec [of ?lim "?e - 2" p] by auto
  define s where "s = nat (max 0 r)"
  have len: "0 < length p" using assms(1) by simp
  have s: "(if r < 0 then 0 else r) = int s" "s < length p"
    using r(2,3) len by (auto simp: s_def max_def min_def split: if_splits)
  have ix: "go_index p (?e - 1) = Some (last p)"
    using assms(1) by (rule go_index_last)
  have sl: "go_slice p (int s) ?e = Some (drop s p)" using s(2) by (simp add: go_slice_def)
  have "DecodeLastRune p = Some (if s + snd (DecodeRune (drop s p)) = length p
      then DecodeRune (drop s p) else (RuneError, 1))"
    unfolding DecodeLastRune_def Let_def lim using assms ix r(1) s(1) sl
    by (auto simp: RuneSelf_def split: prod.split)
  moreover have "\<forall>i. s < i \<and> i + 1 < length p \<longrightarrow> \<not> RuneStart (p ! i)"
  proof (intro allI impI, elim conjE)
    fix i assume "s < i" "i + 1 < length p"
    then have "r < int i" "int i \<le> ?e - 2" by (auto simp: s_def)
    then show "\<not> RuneStart (p ! i)" using r(4) by blast
  qed
  moreover have "RuneStart (p ! s) \<or> s = 0 \<or> s + 4 < length p"
  proof (cases "?lim \<le> r")
    case True
    then show ?thesis using r(5) by (simp add: s_def)
  next
    case False
    then show ?thesis by (auto simp: s_def)
  qed
  ultimately show ?thesis using that s(2) by blast
qed

text \<open>Decoding backwards agrees with decoding forwards, also on invalid strings.\<close>

lemma DecodeLastRune_last:
  assumes "p \<noteq> []"
  shows "DecodeLastRune p = Some (last (decode_all p))"
proof -
  let ?rs = "decode_all p"
  have "?rs \<noteq> []" by (rule decode_all_Cons [OF assms]) simp
  then obtain k where k: "length ?rs = Suc k" by (cases ?rs) auto
  obtain r n where l: "last ?rs = (r, n)" by (metis surj_pair)
  have lk: "?rs ! k = (r, n)" using l k last_conv_nth [of ?rs] by fastforce
  define b where "b = rune_pos ?rs k"
  have db: "DecodeRune (drop b p) = (r, n)" "b < length p" using decode_at [of k p] lk k by (auto simp: b_def)
  have bn: "b + n = length p" using rune_pos_length [of p] rune_pos_Suc [of k ?rs] k lk by (simp add: b_def)
  have n: "0 < n" "n \<le> 4" using DecodeRune_size [OF db(1)] db(2) by auto
  have lp: "last p = p ! (length p - 1)" using assms by (simp add: last_conv_nth)
  show ?thesis
  proof (cases "last p < 0x80")
    case True
    have "n = 1"
    proof (rule ccontr)
      assume "n \<noteq> 1"
      then have "\<not> RuneStart (drop b p ! (n - 1))" using DecodeRune_multi(2) [OF db(1), of "n - 1"] n by simp
      moreover have "drop b p ! (n - 1) = last p" using bn n db(2) lp by (simp add: algebra_simps)
      ultimately show False using True not_RuneStart_ge by auto
    qed
    moreover have "drop b p ! 0 = last p"
      using arg_cong [OF bn, of "\<lambda>m. m - 1"] db(2) lp \<open>n = 1\<close> by simp
    ultimately have "(r, n) = (uint (last p), 1)" using DecodeRune_single(2) [of "drop b p" r] db(1) True by simp
    moreover have "go_index p (int (length p) - 1) = Some (last p)"
      using assms by (rule go_index_last)
    ultimately show ?thesis using True l assms by (simp add: DecodeLastRune_def RuneSelf_def Let_def)
  next
    case False
    obtain s where s: "DecodeLastRune p = Some (if s + snd (DecodeRune (drop s p)) = length p
      then DecodeRune (drop s p) else (RuneError, 1))" "s < length p"
      and gap: "\<forall>i. s < i \<and> i + 1 < length p \<longrightarrow> \<not> RuneStart (p ! i)"
      and st: "RuneStart (p ! s) \<or> s = 0 \<or> s + 4 < length p"
      by (rule DecodeLastRune_eval [OF assms False])
    obtain r' n' where d': "DecodeRune (drop s p) = (r', n')" by (metis surj_pair)
    note n' = DecodeRune_size [OF d']
    show ?thesis
    proof (cases "s + n' = length p")
      case True
      then have "s = 0 \<or> RuneStart (p ! s)" using st n'(1) by auto
      then obtain j where "j < length ?rs" "rune_pos ?rs j = s"
        using RuneStart_boundary [OF s(2)] k by (metis rune_pos_0 zero_less_Suc)
      from last_boundary [OF this d' True] show ?thesis using s(1) d' True by simp
    next
      case ne: False
      have "n = 1"
      proof (rule ccontr)
        assume "n \<noteq> 1"
        then have "2 \<le> n" using n by simp
        have rs: "RuneStart (p ! b)" using DecodeRune_multi(1) [OF db(1) \<open>2 \<le> n\<close>] db(2) by simp
        have cont: "\<not> RuneStart (p ! i)" if "b < i" "i < length p" for i
          using DecodeRune_multi(2) [OF db(1) \<open>2 \<le> n\<close>, of "i - b"] that bn db(2) by simp
        have "\<not> s < b" using gap rs bn \<open>2 \<le> n\<close> by auto
        moreover have "\<not> b < s" using cont [OF _ s(2)] st bn n(2) by auto
        ultimately show False using ne d' db(1) bn by simp
      qed
      moreover have "\<not> drop b p ! 0 < 0x80"
        using False arg_cong [OF bn, of "\<lambda>m. m - 1"] db(2) lp \<open>n = 1\<close> by simp
      ultimately have "(r, n) = (RuneError, 1)" using DecodeRune_single(2) [of "drop b p" r] db(1) by simp
      then show ?thesis using s(1) d' ne l by simp
    qed
  qed
qed

section \<open>Counting\<close>

lemma RuneCount_loop_eq:
  "i \<le> length p \<Longrightarrow> RuneCount_loop p i n = n + length (decode_all (drop i p))"
proof (induction p i n rule: RuneCount_loop.induct)
  case (1 p i n)
  show ?case
  proof (cases "i < length p")
    case True
    let ?d = "DecodeRune (drop i p)"
    obtain r m where d: "?d = (r, m)" by (metis surj_pair)
    have ne: "drop i p \<noteq> []" using True by simp
    have rec: "decode_all (drop i p) = (r, m) # decode_all (drop (i + m) p)"
      using decode_all_rec [OF ne d] by (simp add: add.commute)
    have m: "i + m \<le> length p" using DecodeRune_size(2) [OF d] True by simp
    show ?thesis
    proof (cases "p ! i < RuneSelf")
      case ascii: True
      then have "m = 1" using DecodeRune_intros(1) [OF ne] d True by (simp add: RuneSelf_def)
      then show ?thesis using 1(1) [OF True ascii] True ascii rec by (subst RuneCount_loop.simps) simp
    next
      case False
      then show ?thesis using 1(2) [OF True False] True rec d m by (subst RuneCount_loop.simps) simp
    qed
  qed (use 1 in \<open>simp add: RuneCount_loop.simps\<close>)
qed

lemma RuneCount_eq: "RuneCount p = length (decode_all p)"
  by (simp add: RuneCount_def RuneCount_loop_eq)

text \<open>The run-time decoder and the package's decoder agree up to \<open>MaxRune\<close>.\<close>

lemma xor_cont: "uint (c XOR 0x80 :: byte) AND 0xC0 \<noteq> 0 \<longleftrightarrow> RuneStart c"
  unfolding RuneStart_def by (rule byte_check [of _ c]) code_simp

lemma xor_cont_value: "\<not> RuneStart c \<Longrightarrow> uint (c XOR 0x80 :: byte) = uint c mod 64"
proof -
  have "RuneStart c \<or> uint (c XOR 0x80 :: byte) = uint c mod 64"
    unfolding RuneStart_def by (rule byte_check [of _ c]) code_simp
  then show "\<not> RuneStart c \<Longrightarrow> uint (c XOR 0x80 :: byte) = uint c mod 64" by blast
qed

lemma push6_or: "0 \<le> b \<Longrightarrow> b < 64 \<Longrightarrow> push_bit 6 a OR b = a * 64 + (b :: int)"
  using or_push_bit_add [of b 6 a] by simp

lemma and_mask_mod: "(x :: int) AND 0x7FF = x mod 2048" "x AND 0xFFFF = x mod 65536" "x AND 0x1FFFFF = x mod 2097152"
  using take_bit_eq_mask [of 11 x] take_bit_eq_mask [of 16 x] take_bit_eq_mask [of 21 x]
  by (simp_all add: take_bit_eq_mod mask_eq_exp_minus_1)

lemma mult_add_mod: "0 \<le> b \<Longrightarrow> b < k \<Longrightarrow> 0 < m \<Longrightarrow> (a * k + b) mod (k * m) = a mod m * k + (b :: int)"
  by (simp add: zmod_zmult2_eq)

lemma rune2_mod: "(uint c0 * 64 + uint c1 mod 64) mod 2048 = rune2 c0 c1"
  using mult_add_mod [of "uint c1 mod 64" 64 32 "uint c0"] by (simp add: rune2_def)

lemma rune3_mod: "((uint c0 * 64 + uint c1 mod 64) * 64 + uint c2 mod 64) mod 65536 = rune3 c0 c1 c2"
proof -
  have "0 \<le> uint c1 mod 64 \<and> uint c1 mod 64 < 64 \<and> 0 \<le> uint c2 mod 64 \<and> uint c2 mod 64 < 64" by simp
  then show ?thesis
    using mult_add_mod [of "uint c1 mod 64 * 64 + uint c2 mod 64" 4096 16 "uint c0"]
    by (simp add: rune3_def algebra_simps)
qed

lemma rune4_mod:
  "(((uint c0 * 64 + uint c1 mod 64) * 64 + uint c2 mod 64) * 64 + uint c3 mod 64) mod 2097152 = rune4 c0 c1 c2 c3"
proof -
  have "0 \<le> uint c1 mod 64 \<and> uint c1 mod 64 < 64 \<and> 0 \<le> uint c2 mod 64 \<and> uint c2 mod 64 < 64 \<and>
    0 \<le> uint c3 mod 64 \<and> uint c3 mod 64 < 64" by simp
  then show ?thesis
    using mult_add_mod [of "uint c1 mod 64 * 4096 + (uint c2 mod 64 * 64 + uint c3 mod 64)" 262144 8 "uint c0"]
    by (simp add: rune4_def algebra_simps)
qed

lemma byte_less_uint: "(c < 0x80) = (uint (c :: byte) < 0x80)" "(c < 0xC0) = (uint c < 0xC0)"
  "(c < 0xE0) = (uint c < 0xE0)" "(c < 0xF0) = (uint c < 0xF0)" "(c < 0xF8) = (uint c < 0xF8)"
  by (simp_all add: word_less_def)

lemma rune_bounds: "rune2 c0 c1 \<le> MaxRune" "rune3 c0 c1 c2 \<le> MaxRune" "uint (c0 :: byte) \<le> MaxRune" "RuneError \<le> MaxRune"
proof -
  have "0 \<le> uint c0 mod 32 \<and> uint c0 mod 32 < 32 \<and> 0 \<le> uint c1 mod 64 \<and> uint c1 mod 64 < 64 \<and>
    0 \<le> uint c0 mod 16 \<and> uint c0 mod 16 < 16 \<and> 0 \<le> uint c2 mod 64 \<and> uint c2 mod 64 < 64" by simp
  then show "rune2 c0 c1 \<le> MaxRune" "rune3 c0 c1 c2 \<le> MaxRune"
    by (simp_all add: rune2_def rune3_def MaxRune_def)
  show "uint (c0 :: byte) \<le> MaxRune" "RuneError \<le> MaxRune"
    using uint_byte_less [of c0] by (simp_all only: MaxRune_def RuneError_def)
qed

lemma charn_test: "(uint (c :: byte) XOR 128) AND 192 = 0 \<longleftrightarrow> \<not> RuneStart c"
  using xor_cont [of c] by (auto simp: uint_xor)

lemma charn_value: "\<not> RuneStart c \<Longrightarrow> uint (c :: byte) XOR 128 = uint c mod 64"
  using xor_cont_value [of c] by (simp add: uint_xor)

lemma charn2: "\<not> RuneStart c1 \<Longrightarrow> (push_bit 6 (uint c0) OR (uint c1 XOR 128)) AND 2047 = rune2 c0 c1"
  unfolding charn_value by (subst push6_or, simp, simp) (simp only: and_mask_mod rune2_mod)

lemma charn3: "\<not> RuneStart c1 \<Longrightarrow> \<not> RuneStart c2 \<Longrightarrow>
  (push_bit 6 (push_bit 6 (uint c0) OR (uint c1 XOR 128)) OR (uint c2 XOR 128)) AND 65535 = rune3 c0 c1 c2"
  unfolding charn_value by (subst push6_or, simp, simp)+ (simp only: and_mask_mod rune3_mod)

lemma charn4: "\<not> RuneStart c1 \<Longrightarrow> \<not> RuneStart c2 \<Longrightarrow> \<not> RuneStart c3 \<Longrightarrow>
  (push_bit 6 (push_bit 6 (push_bit 6 (uint c0) OR (uint c1 XOR 128)) OR (uint c2 XOR 128)) OR (uint c3 XOR 128))
    AND 2097151 = rune4 c0 c1 c2 c3"
  unfolding charn_value by (subst push6_or, simp, simp)+ (simp only: and_mask_mod rune4_mod)

lemma charntorune_eq:
  assumes "p \<noteq> []"
  shows "charntorune p = (if fst (DecodeRune p) > MaxRune then (RuneError, 1) else DecodeRune p)"
proof -
  note ls = leD [OF rune_bounds(1)] leD [OF rune_bounds(2)] leD [OF rune_bounds(3)] leD [OF rune_bounds(4)]
  have b: "uint c < 128 \<longleftrightarrow> c < 0x80" "uint c < 192 \<longleftrightarrow> c < 0xC0" "uint c < 224 \<longleftrightarrow> c < 0xE0"
    "uint c < 240 \<longleftrightarrow> c < 0xF0" "uint c < 248 \<longleftrightarrow> c < 0xF8" for c :: byte
    by (simp_all add: byte_less_uint)
  note [simp del] = push_bit_or push_bit_xor push_bit_push_bit
  note evals = charntorune_def DecodeRune_unfold ls b charn_test charn2 charn3 charn4
  have ord: "\<not> p ! 0 < 0xE0 \<Longrightarrow> \<not> p ! 0 < 0xC0" by (simp add: byte_less_uint)
  show ?thesis
  proof (cases "p ! 0 < 0x80")
    case c0: False
    show ?thesis
    proof (cases "length p < 2")
      case l1: False
      show ?thesis
      proof (cases "RuneStart (p ! 1)")
        case c1: False
        show ?thesis
        proof (cases "p ! 0 < 0xE0")
          case E0: False
          show ?thesis
          proof (cases "length p < 3")
            case l2: False
            show ?thesis
            proof (cases "RuneStart (p ! 2)")
              case c2: False
              show ?thesis
              proof (cases "p ! 0 < 0xF0")
                case F0: False
                show ?thesis
                proof (cases "length p < 4")
                  case l3: False
                  then show ?thesis using assms c0 c1 E0 c2 F0 l1 l2 ord
                    by (cases "RuneStart (p ! 3)"; cases "p ! 0 < 0xF8") (simp_all add: evals Let_def)
                qed (use assms c0 c1 E0 c2 F0 l1 l2 ord in \<open>simp add: evals Let_def\<close>)
              qed (use assms c0 c1 E0 c2 l1 l2 ord in \<open>simp add: evals Let_def\<close>)
            qed (use assms c0 c1 E0 l1 l2 ord in \<open>simp add: evals Let_def\<close>)
          qed (use assms c0 c1 E0 l1 ord in \<open>simp add: evals Let_def\<close>)
        qed (use assms c0 c1 l1 in \<open>simp add: evals Let_def\<close>)
      qed (use assms c0 l1 in \<open>simp add: evals Let_def\<close>)
    qed (use assms c0 in \<open>simp add: evals Let_def\<close>)
  qed (use assms in \<open>simp add: evals Let_def\<close>)
qed

text \<open>A string is in range if it holds no sequence that decodes to a value above \<open>MaxRune\<close>.\<close>

definition in_range :: "gostring \<Rightarrow> bool" where
  "in_range p \<longleftrightarrow> list_all (\<lambda>(r, n). r \<le> MaxRune) (decode_all p)"

lemma range_string_eq: "in_range p \<Longrightarrow> range_string p = decode_all p"
proof (induction p rule: decode_all_induct)
  case (Rune p r n)
  have c: "charntorune p = (r, n)" "in_range (drop n p)"
    using Rune by (auto simp: charntorune_eq in_range_def decode_all_rec [OF Rune(1,2)])
  then show ?case
    using Rune by (simp add: range_string.simps [of p] decode_all_rec [OF Rune(1,2)])
qed (simp add: range_string.simps)

section \<open>Encoding\<close>

text \<open>The bytes of a rune.\<close>

definition utf8_bytes :: "int \<Rightarrow> gostring" where
  "utf8_bytes r =
     (if r \<le> 0x7F then [go_byte r]
      else if r \<le> 0x7FF then [go_byte (0xC0 + r div 64), go_byte (0x80 + r mod 64)]
      else if r \<le> 0xFFFF then [go_byte (0xE0 + r div 4096), go_byte (0x80 + r div 64 mod 64), go_byte (0x80 + r mod 64)]
      else [go_byte (0xF0 + r div 262144), go_byte (0x80 + r div 4096 mod 64),
        go_byte (0x80 + r div 64 mod 64), go_byte (0x80 + r mod 64)])"

definition valid_rune :: "int \<Rightarrow> int" where
  "valid_rune r = (if r < 0 \<or> r > MaxRune then RuneError else r)"

lemma go_byte_mod: "go_byte x = go_byte (x mod 256)"
  by (simp add: go_byte_def word_of_int_eq_iff take_bit_eq_mod)

lemma lead_byte: "0 \<le> x \<Longrightarrow> x < 32 \<Longrightarrow> 0xC0 OR go_byte x = go_byte (0xC0 + x)"
  "0 \<le> x \<Longrightarrow> x < 16 \<Longrightarrow> 0xE0 OR go_byte x = go_byte (0xE0 + x)"
  "0 \<le> x \<Longrightarrow> x < 8 \<Longrightarrow> 0xF0 OR go_byte x = go_byte (0xF0 + x)"
proof -
  have "list_all (\<lambda>x. 0xC0 OR go_byte x = go_byte (0xC0 + x)) [0..31]"
    "list_all (\<lambda>x. 0xE0 OR go_byte x = go_byte (0xE0 + x)) [0..15]"
    "list_all (\<lambda>x. 0xF0 OR go_byte x = go_byte (0xF0 + x)) [0..7]" by code_simp+
  then show "0 \<le> x \<Longrightarrow> x < 32 \<Longrightarrow> 0xC0 OR go_byte x = go_byte (0xC0 + x)"
    "0 \<le> x \<Longrightarrow> x < 16 \<Longrightarrow> 0xE0 OR go_byte x = go_byte (0xE0 + x)"
    "0 \<le> x \<Longrightarrow> x < 8 \<Longrightarrow> 0xF0 OR go_byte x = go_byte (0xF0 + x)"
    unfolding list_all_iff set_upto by simp_all
qed

lemma cont_byte: "0x80 OR (go_byte x AND 0x3F) = go_byte (0x80 + x mod 64)"
proof -
  have "list_all (\<lambda>x. 0x80 OR (go_byte x AND 0x3F) = go_byte (0x80 + x mod 64)) [0..255]" by code_simp
  then have "0x80 OR (go_byte (x mod 256) AND 0x3F) = go_byte (0x80 + x mod 256 mod 64)"
    unfolding list_all_iff set_upto by simp
  then show ?thesis by (simp add: go_byte_mod [of x] mod_mod_cancel)
qed

lemma go_set_Cons:
  "go_set (x # xs) 0 v = Some (v # xs)" "go_set [] i v = None"
  "0 < i \<Longrightarrow> go_set (x # xs) i v = map_option ((#) x) (go_set xs (i - 1) v)"
  by (auto simp: go_set_def nat_diff_distrib Suc_nat_eq_nat_zadd1 [symmetric] split: nat.splits)

lemma go_set_chain:
  "do { p \<leftarrow> go_set p 0 a; p \<leftarrow> go_set p 1 b; Some (p, 2) } =
     (if 2 \<le> length p then Some ([a, b] @ drop 2 p, 2 :: nat) else None)"
  "do { p \<leftarrow> go_set p 0 a; p \<leftarrow> go_set p 1 b; p \<leftarrow> go_set p 2 c; Some (p, 3) } =
     (if 3 \<le> length p then Some ([a, b, c] @ drop 3 p, 3 :: nat) else None)"
  "do { p \<leftarrow> go_set p 0 a; p \<leftarrow> go_set p 1 b; p \<leftarrow> go_set p 2 c; p \<leftarrow> go_set p 3 d; Some (p, 4) } =
     (if 4 \<le> length p then Some ([a, b, c, d] @ drop 4 p, 4 :: nat) else None)"
proof -
  have "p = [] \<or> (\<exists>x. p = [x]) \<or> (\<exists>x y. p = [x, y]) \<or> (\<exists>x y z. p = [x, y, z]) \<or> (\<exists>x y z u q. p = x # y # z # u # q)"
    by (metis neq_Nil_conv)
  then show "do { p \<leftarrow> go_set p 0 a; p \<leftarrow> go_set p 1 b; Some (p, 2) } =
     (if 2 \<le> length p then Some ([a, b] @ drop 2 p, 2 :: nat) else None)"
  "do { p \<leftarrow> go_set p 0 a; p \<leftarrow> go_set p 1 b; p \<leftarrow> go_set p 2 c; Some (p, 3) } =
     (if 3 \<le> length p then Some ([a, b, c] @ drop 3 p, 3 :: nat) else None)"
  "do { p \<leftarrow> go_set p 0 a; p \<leftarrow> go_set p 1 b; p \<leftarrow> go_set p 2 c; p \<leftarrow> go_set p 3 d; Some (p, 4) } =
     (if 4 \<le> length p then Some ([a, b, c, d] @ drop 4 p, 4 :: nat) else None)"
    by (auto simp: go_set_Cons)
qed

lemma EncodeRune_eq:
  assumes "is_int32 rune"
  defines "r \<equiv> valid_rune rune"
  shows "EncodeRune p rune = (if length (utf8_bytes r) \<le> length p
     then Some (utf8_bytes r @ drop (length (utf8_bytes r)) p, length (utf8_bytes r)) else None)"
proof -
  let ?u = "rune mod 2 ^ 32"
  have "?u = rune + 2 ^ 32" if "rune < 0"
  proof -
    have "?u = (rune + 2 ^ 32) mod 2 ^ 32" by simp
    also have "\<dots> = rune + 2 ^ 32" by (rule mod_pos_pos_trivial) (use that assms(1) in \<open>simp_all add: is_int32_def\<close>)
    finally show ?thesis .
  qed
  moreover have "?u = rune" if "0 \<le> rune"
    by (rule mod_pos_pos_trivial) (use that assms(1) in \<open>simp_all add: is_int32_def\<close>)
  ultimately have u: "?u = (if rune < 0 then rune + 2 ^ 32 else rune)" by auto
  have r: "r = (if ?u > MaxRune then RuneError else ?u)" "0 \<le> r" "r \<le> MaxRune"
    using u assms(1) by (auto simp: r_def valid_rune_def is_int32_def MaxRune_def RuneError_def)
  have fold: "(if MaxRune < rune mod 4294967296 then RuneError else rune mod 4294967296) = r"
    using r(1) by simp
  have drops: "drop_bit 6 r = r div 64" "drop_bit 12 r = r div 4096" "drop_bit 18 r = r div 262144"
    by (simp_all add: drop_bit_eq_div)
  consider "?u \<le> 0x7F" | "0x7F < ?u" "?u \<le> 0x7FF" | "0x7FF < ?u" "r \<le> 0xFFFF" | "0x7FF < ?u" "0xFFFF < r"
    by linarith
  then show ?thesis
  proof cases
    case 1
    then have "r = ?u" using r(1) by (simp add: MaxRune_def)
    with 1 show ?thesis by (cases p) (simp_all add: EncodeRune_def utf8_bytes_def go_set_Cons)
  next
    case 2
    then have ru: "r = ?u" using r(1) by (simp add: MaxRune_def)
    have "0xC0 OR go_byte (drop_bit 6 r) = go_byte (0xC0 + r div 64)"
      unfolding drops by (rule lead_byte) (use 2 ru in auto)
    with 2 show ?thesis
      by (simp add: EncodeRune_def utf8_bytes_def go_set_chain cont_byte ru Let_def)
        (simp add: numeral_2_eq_2)
  next
    case 3
    then have r7: "0x7FF < r" using r(1) by (auto simp: RuneError_def split: if_splits)
    have "0xE0 OR go_byte (drop_bit 12 r) = go_byte (0xE0 + r div 4096)"
      unfolding drops by (rule lead_byte) (use 3 r(2) in auto)
    moreover have "utf8_bytes r = [go_byte (0xE0 + r div 4096), go_byte (0x80 + r div 64 mod 64), go_byte (0x80 + r mod 64)]"
      using 3 r7 by (simp add: utf8_bytes_def)
    ultimately show ?thesis
      using 3 by (simp add: EncodeRune_def go_set_chain cont_byte Let_def fold drops(1)) (simp add: numeral_3_eq_3)
  next
    case 4
    have "0xF0 OR go_byte (drop_bit 18 r) = go_byte (0xF0 + r div 262144)"
      unfolding drops by (rule lead_byte) (use 4 r(2,3) in \<open>auto simp: MaxRune_def\<close>)
    moreover have "utf8_bytes r = [go_byte (0xF0 + r div 262144), go_byte (0x80 + r div 4096 mod 64),
        go_byte (0x80 + r div 64 mod 64), go_byte (0x80 + r mod 64)]"
      using 4 by (simp add: utf8_bytes_def)
    ultimately show ?thesis
      using 4 by (simp add: EncodeRune_def go_set_chain cont_byte Let_def fold drops(1,2)) (simp add: eval_nat_numeral)
  qed
qed


lemma uint_byte_of_int: "0 \<le> x \<Longrightarrow> x < 256 \<Longrightarrow> uint (go_byte x) = x"
  by (simp add: go_byte_def uint_word_of_int)

lemma cont_byte_not_start: "0 \<le> x \<Longrightarrow> x < 64 \<Longrightarrow> \<not> RuneStart (go_byte (0x80 + x))"
  by (simp add: cont_bad_iff [symmetric] cont_bad_def word_less_def word_le_def uint_byte_of_int)

lemma not_start_bounds: "\<not> RuneStart c \<Longrightarrow> 128 \<le> uint c \<and> uint c < 192"
  by (auto simp: cont_bad_iff [symmetric] cont_bad_def byte_less_uint word_le_def)

lemma utf8_bytes_length: "length (utf8_bytes r) = (if r \<le> 0x7F then 1 else if r \<le> 0x7FF then 2 else if r \<le> 0xFFFF then 3 else 4)"
  by (simp add: utf8_bytes_def)

lemma div_mod_64: "(r :: int) div 4096 * 4096 + r div 64 mod 64 * 64 + r mod 64 = r"
  "(r :: int) div 262144 * 262144 + r div 4096 mod 64 * 4096 + r div 64 mod 64 * 64 + r mod 64 = r"
proof -
  have d: "r div 4096 = r div 64 div 64" "r div 262144 = r div 64 div 64 div 64"
    by (simp_all flip: zdiv_zmult2_eq)
  have s: "x div 64 * 64 + x mod 64 = x" for x :: int by simp
  show "r div 4096 * 4096 + r div 64 mod 64 * 64 + r mod 64 = r"
    unfolding d using s [of r] s [of "r div 64"] by linarith
  show "r div 262144 * 262144 + r div 4096 mod 64 * 4096 + r div 64 mod 64 * 64 + r mod 64 = r"
    unfolding d using s [of r] s [of "r div 64"] s [of "r div 64 div 64"] by linarith
qed

lemma mult_shift_mod: "0 \<le> x \<Longrightarrow> x < k \<Longrightarrow> (k * q + x) mod k = (x :: int)"
  by simp

lemma lead_mod: "0 \<le> x \<Longrightarrow> x < 32 \<Longrightarrow> (192 + x) mod 32 = (x :: int)" "0 \<le> x \<Longrightarrow> x < 16 \<Longrightarrow> (224 + x) mod 16 = x"
  "0 \<le> x \<Longrightarrow> x < 8 \<Longrightarrow> (240 + x) mod 8 = x" "0 \<le> x \<Longrightarrow> x < 64 \<Longrightarrow> (128 + x) mod 64 = x"
  using mult_shift_mod [of x 32 6] mult_shift_mod [of x 16 14] mult_shift_mod [of x 8 30] mult_shift_mod [of x 64 2]
  by (simp_all only: arith_simps)

lemma rune_bytes:
  "0 \<le> x \<Longrightarrow> x < 32 \<Longrightarrow> 0 \<le> y \<Longrightarrow> y < 64 \<Longrightarrow> rune2 (go_byte (192 + x)) (go_byte (128 + y)) = x * 64 + y"
  "0 \<le> x \<Longrightarrow> x < 16 \<Longrightarrow> 0 \<le> y \<Longrightarrow> y < 64 \<Longrightarrow> 0 \<le> z \<Longrightarrow> z < 64 \<Longrightarrow>
     rune3 (go_byte (224 + x)) (go_byte (128 + y)) (go_byte (128 + z)) = x * 4096 + y * 64 + z"
  "0 \<le> x \<Longrightarrow> x < 8 \<Longrightarrow> 0 \<le> w \<Longrightarrow> w < 64 \<Longrightarrow> 0 \<le> y \<Longrightarrow> y < 64 \<Longrightarrow> 0 \<le> z \<Longrightarrow> z < 64 \<Longrightarrow>
     rune4 (go_byte (240 + x)) (go_byte (128 + w)) (go_byte (128 + y)) (go_byte (128 + z)) =
       x * 262144 + w * 4096 + y * 64 + z"
  by (simp_all add: rune2_def rune3_def rune4_def uint_byte_of_int lead_mod)

lemma Decode_bytes:
  "0 \<le> x \<Longrightarrow> x < 32 \<Longrightarrow> 0 \<le> y \<Longrightarrow> y < 64 \<Longrightarrow> 0x7F < x * 64 + y \<Longrightarrow>
     DecodeRune (go_byte (192 + x) # go_byte (128 + y) # q) = (x * 64 + y, 2)"
  "0 \<le> x \<Longrightarrow> x < 16 \<Longrightarrow> 0 \<le> y \<Longrightarrow> y < 64 \<Longrightarrow> 0 \<le> z \<Longrightarrow> z < 64 \<Longrightarrow> 0x7FF < x * 4096 + y * 64 + z \<Longrightarrow>
     DecodeRune (go_byte (224 + x) # go_byte (128 + y) # go_byte (128 + z) # q) = (x * 4096 + y * 64 + z, 3)"
  "0 \<le> x \<Longrightarrow> x < 8 \<Longrightarrow> 0 \<le> w \<Longrightarrow> w < 64 \<Longrightarrow> 0 \<le> y \<Longrightarrow> y < 64 \<Longrightarrow> 0 \<le> z \<Longrightarrow> z < 64 \<Longrightarrow>
     0xFFFF < x * 262144 + w * 4096 + y * 64 + z \<Longrightarrow>
     DecodeRune (go_byte (240 + x) # go_byte (128 + w) # go_byte (128 + y) # go_byte (128 + z) # q) =
       (x * 262144 + w * 4096 + y * 64 + z, 4)"
proof -
  note u = byte_less_uint uint_byte_of_int cont_byte_not_start rune_bytes
  {
    assume "0 \<le> x" "x < 32" "0 \<le> y" "y < 64" "0x7F < x * 64 + y"
    then show "DecodeRune (go_byte (192 + x) # go_byte (128 + y) # q) = (x * 64 + y, 2)"
      using DecodeRune_intros(2) [of "go_byte (192 + x) # go_byte (128 + y) # q"] by (simp add: u)
  next
    assume "0 \<le> x" "x < 16" "0 \<le> y" "y < 64" "0 \<le> z" "z < 64" "0x7FF < x * 4096 + y * 64 + z"
    then show "DecodeRune (go_byte (224 + x) # go_byte (128 + y) # go_byte (128 + z) # q) = (x * 4096 + y * 64 + z, 3)"
      using DecodeRune_intros(3) [of "go_byte (224 + x) # go_byte (128 + y) # go_byte (128 + z) # q"] by (simp add: u)
  next
    assume "0 \<le> x" "x < 8" "0 \<le> w" "w < 64" "0 \<le> y" "y < 64" "0 \<le> z" "z < 64"
      "0xFFFF < x * 262144 + w * 4096 + y * 64 + z"
    then show "DecodeRune (go_byte (240 + x) # go_byte (128 + w) # go_byte (128 + y) # go_byte (128 + z) # q) =
       (x * 262144 + w * 4096 + y * 64 + z, 4)"
      using DecodeRune_intros(4) [of "go_byte (240 + x) # go_byte (128 + w) # go_byte (128 + y) # go_byte (128 + z) # q"]
      by (simp add: u)
  }
qed

lemma Decode_utf8_bytes:
  assumes "0 \<le> r" "r \<le> MaxRune"
  shows "DecodeRune (utf8_bytes r @ q) = (r, length (utf8_bytes r))"
proof -
  have m: "0 \<le> x mod 64 \<and> x mod 64 < 64" for x :: int by simp
  consider "r \<le> 0x7F" | "0x7F < r" "r \<le> 0x7FF" | "0x7FF < r" "r \<le> 0xFFFF" | "0xFFFF < r" by linarith
  then show ?thesis
  proof cases
    case 1
    then show ?thesis
      using assms(1) DecodeRune_intros(1) [of "go_byte r # q"] by (simp add: utf8_bytes_def byte_less_uint uint_byte_of_int)
  next
    case 2
    have "0 \<le> r div 64" "r div 64 < 32" using 2 by simp_all
    from Decode_bytes(1) [OF this m [THEN conjunct1] m [THEN conjunct2], of r q] show ?thesis
      using 2 by (simp add: utf8_bytes_def)
  next
    case 3
    have "0 \<le> r div 4096" "r div 4096 < 16" using 3 by simp_all
    from Decode_bytes(2) [OF this m [THEN conjunct1] m [THEN conjunct2] m [THEN conjunct1] m [THEN conjunct2],
        of "r div 64" r q] show ?thesis
      using 3 unfolding div_mod_64 by (simp add: utf8_bytes_def)
  next
    case 4
    have "0 \<le> r div 262144" "r div 262144 < 8" using 4 assms(2) by (simp_all add: MaxRune_def)
    from Decode_bytes(3) [OF this m [THEN conjunct1] m [THEN conjunct2] m [THEN conjunct1] m [THEN conjunct2]
        m [THEN conjunct1] m [THEN conjunct2], of "r div 4096" "r div 64" r q] show ?thesis
      using 4 unfolding div_mod_64 by (simp add: utf8_bytes_def)
  qed
qed

lemma go_byte_uint: "go_byte (uint c) = c"
  by (simp add: go_byte_def)

lemma utf8_bytes_range:
  "0x7FF < r \<Longrightarrow> r \<le> 0xFFFF \<Longrightarrow> utf8_bytes r = [go_byte (0xE0 + r div 4096), go_byte (0x80 + r div 64 mod 64), go_byte (0x80 + r mod 64)]"
  "0xFFFF < r \<Longrightarrow> utf8_bytes r = [go_byte (0xF0 + r div 262144), go_byte (0x80 + r div 4096 mod 64),
     go_byte (0x80 + r div 64 mod 64), go_byte (0x80 + r mod 64)]"
  by (simp_all add: utf8_bytes_def)

lemma utf8_bytes_of:
  "0 \<le> y \<Longrightarrow> y < 64 \<Longrightarrow> 0x7F < x * 64 + y \<Longrightarrow> x * 64 + y \<le> 0x7FF \<Longrightarrow>
     utf8_bytes (x * 64 + y) = [go_byte (192 + x), go_byte (128 + y)]"
  "0 \<le> y \<Longrightarrow> y < 64 \<Longrightarrow> 0 \<le> z \<Longrightarrow> z < 64 \<Longrightarrow> 0x7FF < x * 4096 + y * 64 + z \<Longrightarrow> x * 4096 + y * 64 + z \<le> 0xFFFF \<Longrightarrow>
     utf8_bytes (x * 4096 + y * 64 + z) = [go_byte (224 + x), go_byte (128 + y), go_byte (128 + z)]"
  "0 \<le> w \<Longrightarrow> w < 64 \<Longrightarrow> 0 \<le> y \<Longrightarrow> y < 64 \<Longrightarrow> 0 \<le> z \<Longrightarrow> z < 64 \<Longrightarrow> 0xFFFF < x * 262144 + w * 4096 + y * 64 + z \<Longrightarrow>
     utf8_bytes (x * 262144 + w * 4096 + y * 64 + z) = [go_byte (240 + x), go_byte (128 + w), go_byte (128 + y), go_byte (128 + z)]"
proof -
  have dm: "0 \<le> b \<Longrightarrow> b < k \<Longrightarrow> (a * k + b) div k = a" "0 \<le> b \<Longrightarrow> b < k \<Longrightarrow> (a * k + b) mod k = b" for a b k :: int
    by simp_all
  {
    assume "0 \<le> y" "y < 64" "0x7F < x * 64 + y" "x * 64 + y \<le> 0x7FF"
    then show "utf8_bytes (x * 64 + y) = [go_byte (192 + x), go_byte (128 + y)]"
      using dm [of y 64 x] by (simp add: utf8_bytes_def)
  next
    assume a: "0 \<le> y" "y < 64" "0 \<le> z" "z < 64" "0x7FF < x * 4096 + y * 64 + z" "x * 4096 + y * 64 + z \<le> 0xFFFF"
    let ?r = "x * 4096 + y * 64 + z"
    have b: "0 \<le> y * 64 + z" "y * 64 + z < 4096" using a by linarith+
    have e: "?r = x * 4096 + (y * 64 + z)" by simp
    have "?r div 4096 = x" unfolding e by (rule dm(1) [OF b])
    moreover have r64: "?r = (x * 64 + y) * 64 + z" by simp
    have "?r div 64 mod 64 = y" "?r mod 64 = z"
      unfolding r64 using dm [of z 64 "x * 64 + y", OF a(3,4)] dm(2) [of y 64 x, OF a(1,2)] by (simp_all only:)
    moreover note this
    ultimately show "utf8_bytes ?r = [go_byte (224 + x), go_byte (128 + y), go_byte (128 + z)]"
      by (simp only: utf8_bytes_range(1) [OF a(5,6)])
  next
    assume a: "0 \<le> w" "w < 64" "0 \<le> y" "y < 64" "0 \<le> z" "z < 64" "0xFFFF < x * 262144 + w * 4096 + y * 64 + z"
    let ?r = "x * 262144 + w * 4096 + y * 64 + z"
    have b: "0 \<le> w * 4096 + y * 64 + z" "w * 4096 + y * 64 + z < 262144" "0 \<le> y * 64 + z" "y * 64 + z < 4096"
      using a by linarith+
    have e: "?r = x * 262144 + (w * 4096 + y * 64 + z)" "?r = (x * 64 + w) * 4096 + (y * 64 + z)" by simp_all
    have "?r div 262144 = x" unfolding e(1) by (rule dm(1) [OF b(1,2)])
    moreover have "?r div 4096 mod 64 = w" unfolding e(2) dm(1) [OF b(3,4)] by (rule dm(2) [OF a(1,2)])
    moreover have r64: "?r = ((x * 64 + w) * 64 + y) * 64 + z" by simp
    have "?r div 64 mod 64 = y" "?r mod 64 = z"
      unfolding r64 using dm [of z 64 "(x * 64 + w) * 64 + y", OF a(5,6)] dm(2) [of y 64 "x * 64 + w", OF a(3,4)]
      by (simp_all only:)
    moreover note this
    ultimately show "utf8_bytes ?r = [go_byte (240 + x), go_byte (128 + w), go_byte (128 + y), go_byte (128 + z)]"
      by (simp only: utf8_bytes_range(2) [OF a(7)])
  }
qed


lemma take_nths: "k \<le> length p \<Longrightarrow> take k p = map ((!) p) [0..<k]"
  by (rule nth_equalityI) auto

lemma Decode_canonical:
  assumes "DecodeRune p = (r, n)" "2 \<le> n \<or> p \<noteq> [] \<and> p ! 0 < 0x80"
  shows "take n p = utf8_bytes r"
proof -
  have ne: "p \<noteq> []" using DecodeRune_size(2) [OF assms(1)] assms(2) by auto
  have c: "0 \<le> uint c - 128 \<and> uint c - 128 < 64 \<and> uint c mod 64 = uint c - 128" if "\<not> RuneStart c" for c
    using not_start_bounds [OF that] lead_mod(4) [of "uint c - 128"] by simp
  from assms(1) ne show ?thesis
  proof (cases rule: DecodeRune_cases)
    case ascii
    then show ?thesis using ne by (cases p) (simp_all add: utf8_bytes_def byte_less_uint go_byte_uint)
  next
    case bad
    then show ?thesis using assms(2) by simp
  next
    case two
    have x: "uint (p ! 0) mod 32 = uint (p ! 0) - 192"
      using two lead_mod(1) [of "uint (p ! 0) - 192"] by (simp add: byte_less_uint)
    note c1 = c [OF two(4)]
    define y where "y = uint (p ! 1) - 128"
    define z where "z = uint (p ! 0) - 192"
    have r: "r = z * 64 + y" using two(5) c1 x by (simp add: rune2_def y_def z_def)
    have zb: "z < 32" using two(2) by (simp add: byte_less_uint z_def)
    have yb: "0 \<le> y" "y < 64" using c1 by (simp_all add: y_def)
    have "utf8_bytes r = [go_byte (192 + z), go_byte (128 + y)]"
      unfolding r by (rule utf8_bytes_of(1)) (use two(6) zb r yb in simp_all)
    then have "utf8_bytes r = [p ! 0, p ! 1]" by (simp add: y_def z_def go_byte_uint)
    moreover have "take 2 p = [p ! 0, p ! 1]"
      using take_nths [OF two(3)] by (simp add: upt_rec)
    ultimately show ?thesis using two by simp
  next
    case three
    have x: "uint (p ! 0) mod 16 = uint (p ! 0) - 224"
      using three lead_mod(2) [of "uint (p ! 0) - 224"] by (simp add: byte_less_uint)
    note c1 = c [OF three(4)] and c2 = c [OF three(5)]
    define y where "y = uint (p ! 1) - 128"
    define w where "w = uint (p ! 2) - 128"
    define z where "z = uint (p ! 0) - 224"
    have r: "r = z * 4096 + y * 64 + w" using three(6) c1 c2 x by (simp add: rune3_def y_def z_def w_def)
    have zb: "z < 16" using three(2) by (simp add: byte_less_uint z_def)
    have yb: "0 \<le> y" "y < 64" "0 \<le> w" "w < 64" using c1 c2 by (simp_all add: y_def w_def)
    have "utf8_bytes r = [go_byte (224 + z), go_byte (128 + y), go_byte (128 + w)]"
      unfolding r by (rule utf8_bytes_of(2)) (use three(7) zb r yb in simp_all)
    then have "utf8_bytes r = [p ! 0, p ! 1, p ! 2]" by (simp add: y_def z_def w_def go_byte_uint)
    moreover have "take 3 p = [p ! 0, p ! 1, p ! 2]"
      using take_nths [OF three(3)] by (simp add: upt_rec numeral_2_eq_2)
    ultimately show ?thesis using three by simp
  next
    case four
    have x: "uint (p ! 0) mod 8 = uint (p ! 0) - 240"
      using four lead_mod(3) [of "uint (p ! 0) - 240"] by (simp add: byte_less_uint)
    note c1 = c [OF four(4)] and c2 = c [OF four(5)] and c3 = c [OF four(6)]
    define y where "y = uint (p ! 1) - 128"
    define w where "w = uint (p ! 2) - 128"
    define v where "v = uint (p ! 3) - 128"
    define z where "z = uint (p ! 0) - 240"
    have r: "r = z * 262144 + y * 4096 + w * 64 + v"
      using four(7) c1 c2 c3 x by (simp add: rune4_def y_def z_def w_def v_def)
    have yb: "0 \<le> y" "y < 64" "0 \<le> w" "w < 64" "0 \<le> v" "v < 64" using c1 c2 c3 by (simp_all add: y_def w_def v_def)
    have "utf8_bytes r = [go_byte (240 + z), go_byte (128 + y), go_byte (128 + w), go_byte (128 + v)]"
      unfolding r by (rule utf8_bytes_of(3))
        (use four(8) r yb in simp_all)
    then have "utf8_bytes r = [p ! 0, p ! 1, p ! 2, p ! 3]" by (simp add: y_def z_def w_def v_def go_byte_uint)
    moreover have "take 4 p = [p ! 0, p ! 1, p ! 2, p ! 3]"
      using take_nths [OF four(3)] by (simp add: upt_rec numeral_2_eq_2 numeral_3_eq_3)
    ultimately show ?thesis using four by simp
  qed
qed

lemma decodeRuneInternal_append:
  assumes "decodeRuneInternal p = (r, n, False)"
  shows "decodeRuneInternal (p @ q) = (r, n, False)"
proof -
  consider "p = []" | x where "p = [x]" | x y where "p = [x, y]" | x y z where "p = [x, y, z]"
    | x y z u s where "p = x # y # z # u # s"
    by (metis neq_Nil_conv)
  then have "decodeRuneInternal (p @ q) = decodeRuneInternal p"
  proof cases
    case (4 x y z)
    have "x < 0x80 \<or> x < 0xC0 \<or> cont_bad y \<or> x < 0xE0 \<or> cont_bad z \<or> x < 0xF0"
      by (rule ccontr) (use assms 4 in \<open>simp add: decodeRuneInternal_def Let_def\<close>)
    then show ?thesis using 4 by (elim disjE) (simp_all add: decodeRuneInternal_def Let_def)
  next
    case (3 x y)
    have "x < 0x80 \<or> x < 0xC0 \<or> cont_bad y \<or> x < 0xE0"
      by (rule ccontr) (use assms 3 in \<open>simp add: decodeRuneInternal_def Let_def\<close>)
    then show ?thesis using 3 by (elim disjE) (simp_all add: decodeRuneInternal_def Let_def)
  next
    case (2 x)
    have "x < 0x80 \<or> x < 0xC0"
      by (rule ccontr) (use assms 2 in \<open>simp add: decodeRuneInternal_def Let_def\<close>)
    then show ?thesis using 2 by (elim disjE) (simp_all add: decodeRuneInternal_def Let_def)
  next
    case 1
    then show ?thesis using assms by (simp add: decodeRuneInternal_def)
  qed (simp add: decodeRuneInternal_def Let_def)
  then show ?thesis using assms by simp
qed

section \<open>Properties\<close>

lemma decodeRuneInternal_short:
  "decodeRuneInternal p = (r, n, True) \<Longrightarrow> r = RuneError \<and> n \<le> 1"
  by (auto simp: decodeRuneInternal_def Let_def split: if_splits)

lemma DecodeRune_nonneg: "DecodeRune p = (r, n) \<Longrightarrow> 0 \<le> r"
  by (auto simp: DecodeRune_def decodeRuneInternal_def Let_def RuneError_def or_nonnegative_int_iff split: if_splits prod.splits)

lemma valid_rune_bounds: "0 \<le> valid_rune r" "valid_rune r \<le> MaxRune"
  by (simp_all add: valid_rune_def RuneError_def MaxRune_def)

lemma utf8_bytes_UTFMax: "0 < length (utf8_bytes r)" "int (length (utf8_bytes r)) \<le> UTFMax"
  by (simp_all add: utf8_bytes_def UTFMax_def)

text \<open>C15: Encoding then decoding. On a buffer of \<open>UTFMax\<close> bytes \<open>EncodeRune\<close> succeeds for every 32-bit rune,
  writes \<open>RuneLen\<close> bytes when the rune is a code point, leaves the rest of the buffer alone, and
  \<open>DecodeRune\<close> reads back the rune (the error rune for a value that is no code point) and that width.\<close>

theorem EncodeRune_DecodeRune:
  assumes "is_int32 r" "UTFMax \<le> int (length p)"
  shows "\<exists>p' n. EncodeRune p r = Some (p', n) \<and> length p' = length p \<and> drop n p' = drop n p \<and>
     DecodeRune p' = (valid_rune r, n) \<and> FullRune (take n p') \<and> RuneLen (valid_rune r) = int n"
proof -
  let ?u = "utf8_bytes (valid_rune r)"
  have u: "length ?u \<le> length p" using utf8_bytes_UTFMax(2) [of "valid_rune r"] assms(2) by linarith
  have d: "DecodeRune (?u @ q) = (valid_rune r, length ?u)" for q
    by (rule Decode_utf8_bytes [OF valid_rune_bounds])
  obtain v n b where v: "decodeRuneInternal ?u = (v, n, b)" by (metis prod_cases3)
  have "\<not> b"
  proof
    assume b
    then have "DecodeRune ?u = (RuneError, n)" "n \<le> 1"
      using v decodeRuneInternal_short [of ?u v n] by (simp_all add: DecodeRune_def)
    then have "valid_rune r = RuneError" "length ?u \<le> 1" using d [of "[]"] by simp_all
    then show False by (simp add: utf8_bytes_def RuneError_def)
  qed
  then have "FullRune ?u" using v by (simp add: FullRune_def)
  moreover have "RuneLen (valid_rune r) = int (length ?u)"
    using valid_rune_bounds [of r] by (simp add: RuneLen_def utf8_bytes_def MaxRune_def)
  ultimately show ?thesis
    using EncodeRune_eq [OF assms(1), of p] u d by auto
qed

theorem EncodeRune_DecodeRune_witness:
  "\<exists>p' n. EncodeRune [1, 2, 3, 4, 5] 0x20AC = Some (p', n) \<and> length p' = 5 \<and> drop n p' = drop n [1, 2, 3, 4, 5] \<and>
     DecodeRune p' = (0x20AC, n) \<and> FullRune (take n p') \<and> RuneLen 0x20AC = int n"
  using EncodeRune_DecodeRune [of "0x20AC" "[1, 2, 3, 4, 5]"]
  by (simp add: is_int32_def UTFMax_def valid_rune_def MaxRune_def eval_nat_numeral)

lemma DecodeRune_less:
  assumes "DecodeRune p = (r, n)"
  shows "r < 0x200000"
proof (cases "p = []")
  case False
  have m: "x mod 32 < 32" "x mod 16 < 16" "x mod 8 < 8" "x mod 64 < 64" for x :: int by simp_all
  have "uint (p ! 0) < 2 ^ LENGTH(8)" by (rule uint_lt2p)
  also have "(2 :: int) ^ LENGTH(8) < 0x200000" by simp
  finally have c: "uint (p ! 0) < 0x200000" .
  from assms False show ?thesis
  proof (cases rule: DecodeRune_cases)
    case two
    show ?thesis unfolding two(5) rune2_def using m(1) [of "uint (p ! 0)"] m(4) [of "uint (p ! 1)"] by linarith
  next
    case three
    show ?thesis unfolding three(6) rune3_def using m(2) [of "uint (p ! 0)"] m(4) [of "uint (p ! 1)"] m(4) [of "uint (p ! 2)"]
      by linarith
  next
    case four
    show ?thesis unfolding four(7) rune4_def using m(3) [of "uint (p ! 0)"] m(4) [of "uint (p ! 1)"] m(4) [of "uint (p ! 2)"] m(4) [of "uint (p ! 3)"]
      by linarith
  qed (use c in \<open>simp_all add: RuneError_def\<close>)
qed (use assms in \<open>simp add: DecodeRune_unfold RuneError_def\<close>)

text \<open>C16: Decoding then encoding. What \<open>DecodeRune\<close> accepts it accepts in one form only: for a rune up to \<open>MaxRune\<close>
  \<open>EncodeRune\<close> writes back exactly the bytes that were consumed, so overlong encodings and stray
  continuation bytes are refused. \<open>DecodeRune\<close> also accepts four-byte forms of the values from
  \<open>MaxRune + 1\<close> to \<open>0x1FFFFF\<close>; those do not come back: \<open>EncodeRune\<close> writes the three bytes of the error rune.\<close>

theorem DecodeRune_EncodeRune:
  assumes "DecodeRune p = (r, n)" "2 \<le> n \<or> p \<noteq> [] \<and> p ! 0 < 0x80"
  shows "EncodeRune (p @ q) r = (if r \<le> MaxRune then Some (p @ q, n) else Some ([0xEF, 0xBF, 0xBD] @ drop 3 (p @ q), 3))"
proof -
  have u: "take n p = utf8_bytes r" by (rule Decode_canonical [OF assms])
  have l: "n \<le> length p" using DecodeRune_size [OF assms(1)] by simp
  have r: "0 \<le> r" "r < 0x200000" using DecodeRune_nonneg [OF assms(1)] DecodeRune_less [OF assms(1)] by simp_all
  then have i: "is_int32 r" by (simp add: is_int32_def)
  have n: "length (utf8_bytes r) = n" using u l by (metis length_take min.absorb2)
  show ?thesis
  proof (cases "r \<le> MaxRune")
    case True
    then have v: "valid_rune r = r" using r by (simp add: valid_rune_def)
    have "utf8_bytes r @ drop n (p @ q) = p @ q" unfolding u [symmetric] using l by simp
    then show ?thesis using True EncodeRune_eq [OF i, of "p @ q"] v n l by simp
  next
    case False
    then have v: "valid_rune r = RuneError" and n4: "n = 4" using n by (simp_all add: valid_rune_def utf8_bytes_def MaxRune_def)
    have "utf8_bytes RuneError = [0xEF, 0xBF, 0xBD]" by code_simp
    then show ?thesis using False EncodeRune_eq [OF i, of "p @ q"] v n4 l by (simp add: eval_nat_numeral)
  qed
qed

theorem DecodeRune_EncodeRune_witness:
  "EncodeRune ([0xE2, 0x82, 0xAC] @ [0x41]) 0x20AC = Some ([0xE2, 0x82, 0xAC] @ [0x41], 3) \<and>
   EncodeRune ([0xF4, 0x90, 0x80, 0x80] @ []) 0x110000 = Some ([0xEF, 0xBF, 0xBD, 0x80], 3)"
proof -
  have d: "DecodeRune [0xE2, 0x82, 0xAC] = (0x20AC, 3)" "DecodeRune [0xF4, 0x90, 0x80, 0x80] = (0x110000, 4)" by code_simp+
  show ?thesis
    using DecodeRune_EncodeRune [OF d(1), of "[0x41]"] DecodeRune_EncodeRune [OF d(2), of "[]"]
    by (simp add: MaxRune_def)
qed

text \<open>C17: Decoding backward. On every nonempty byte string, valid or not, \<open>DecodeLastRune\<close> returns the rune and
  width that decoding forward from the start ends with, and its string version does the same.\<close>

theorem DecodeLastRune_forward:
  assumes "p \<noteq> []"
  shows "DecodeLastRune p = Some (last (decode_all p)) \<and> DecodeLastRuneInString p = Some (last (decode_all p))"
  using DecodeLastRune_last [OF assms] DecodeLastRuneInString_eq by simp

theorem DecodeLastRune_forward_witness:
  "DecodeLastRune [0xE2, 0x82, 0x41, 0x82] = Some (RuneError, 1)"
proof -
  have d: "DecodeRune [0xE2, 0x82, 0x41, 0x82] = (RuneError, 1)" "DecodeRune [0x82, 0x41, 0x82] = (RuneError, 1)"
    "DecodeRune [0x41, 0x82] = (0x41, 1)" "DecodeRune [0x82] = (RuneError, 1)" by code_simp+
  have "decode_all [0xE2, 0x82, 0x41, 0x82] = [(RuneError, 1), (RuneError, 1), (0x41, 1), (RuneError, 1)]"
    using d by (simp add: decode_all.simps)
  with DecodeLastRune_forward [of "[0xE2, 0x82, 0x41, 0x82]"] show ?thesis by simp
qed

end
