(* ===== verification/UTF8_String.thy ===== *)
theory UTF8_String
  imports UTF8
begin

text \<open>
  Package \<open>utf8\<close>: the type \<open>String\<close> of \<open>string.go\<close>.

  A \<open>String\<close> caches the position of the rune it decoded last, and \<open>At\<close> moves the cache: one step
  back or ahead, to an end of the string, or by a scan in the cheaper direction. The methods take the
  record and return it updated. The scans are loops without a bound in the source; they are partial
  functions here, and \<open>None\<close> stands for a panic or for not returning.
\<close>

record utf8_String =
  us_str :: gostring
  us_numRunes :: int
  us_width :: int
  us_bytePos :: int
  us_runePos :: int
  us_nonASCII :: int

section \<open>Methods\<close>

function Init_scan :: "gostring \<Rightarrow> nat \<Rightarrow> nat option" where
  "Init_scan contents i =
     (if i < length contents then (if \<not> contents ! i < RuneSelf then Some i else Init_scan contents (i + 1))
      else None)"
  by pat_completeness auto
termination
  by (relation "measure (\<lambda>(contents, i). length contents - i)") auto

declare Init_scan.simps [simp del]

definition String_Init :: "utf8_String \<Rightarrow> gostring \<Rightarrow> utf8_String" where
  "String_Init s contents =
     (let s = s\<lparr>us_str := contents, us_bytePos := 0, us_runePos := 0\<rparr> in
      case Init_scan contents 0 of
        Some i \<Rightarrow> s\<lparr>us_numRunes := int (RuneCountInString contents),
          us_width := int (snd (DecodeRuneInString contents)), us_nonASCII := int i\<rparr>
      | None \<Rightarrow> s\<lparr>us_numRunes := int (length contents), us_width := 0, us_nonASCII := int (length contents)\<rparr>)"

definition NewString :: "gostring \<Rightarrow> utf8_String" where
  "NewString contents = String_Init \<lparr>us_str = [], us_numRunes = 0, us_width = 0, us_bytePos = 0,
     us_runePos = 0, us_nonASCII = 0\<rparr> contents"

definition String_String :: "utf8_String \<Rightarrow> gostring" where
  "String_String s = us_str s"

definition String_RuneCount :: "utf8_String \<Rightarrow> int" where
  "String_RuneCount s = us_numRunes s"

definition String_IsASCII :: "utf8_String \<Rightarrow> bool" where
  "String_IsASCII s \<longleftrightarrow> us_width s = 0"

definition set_width :: "nat \<Rightarrow> utf8_String \<Rightarrow> utf8_String" where
  "set_width w s = s\<lparr>us_width := int w\<rparr>"

definition set_pos :: "int \<Rightarrow> int \<Rightarrow> utf8_String \<Rightarrow> utf8_String" where
  "set_pos r b s = s\<lparr>us_runePos := r, us_bytePos := b\<rparr>"

text \<open>\<open>rune, s.width = DecodeRuneInString(s.str[s.bytePos:])\<close>, and the same backwards.\<close>

definition decode_here :: "utf8_String \<Rightarrow> (int \<times> utf8_String) option" where
  "decode_here s = do {
     q \<leftarrow> go_slice (us_str s) (us_bytePos s) (int (length (us_str s)));
     let (rune, w) = DecodeRuneInString q;
     Some (rune, set_width w s)
   }"

definition decode_before :: "utf8_String \<Rightarrow> (int \<times> utf8_String) option" where
  "decode_before s = do {
     q \<leftarrow> go_slice (us_str s) 0 (us_bytePos s);
     (rune, w) \<leftarrow> DecodeLastRuneInString q;
     Some (rune, set_width w s)
   }"

partial_function (option) At_forward :: "int \<Rightarrow> utf8_String \<Rightarrow> (int \<times> utf8_String) option" where
  "At_forward i s = do {
     d \<leftarrow> decode_here s;
     if us_runePos (snd d) = i then Some d
     else At_forward i (set_pos (us_runePos (snd d) + 1) (us_bytePos (snd d) + us_width (snd d)) (snd d))
   }"

partial_function (option) At_backward :: "int \<Rightarrow> utf8_String \<Rightarrow> (int \<times> utf8_String) option" where
  "At_backward i s = do {
     d \<leftarrow> decode_before s;
     let s = set_pos (us_runePos (snd d) - 1) (us_bytePos (snd d) - us_width (snd d)) (snd d);
     if us_runePos s = i then Some (fst d, s) else At_backward i s
   }"

definition String_At :: "utf8_String \<Rightarrow> int \<Rightarrow> (int \<times> utf8_String) option" where
  "String_At s i =
     (if i < us_nonASCII s then do { b \<leftarrow> go_index (us_str s) i; Some (uint b, s) }
      else if i < 0 \<or> i \<ge> us_numRunes s then None
      else if i = us_runePos s - 1 then do {
        (rune, s) \<leftarrow> decode_before s;
        Some (rune, set_pos i (us_bytePos s - us_width s) s)
      }
      else if i = us_runePos s + 1 then decode_here (set_pos i (us_bytePos s + us_width s) s)
      else if i = us_runePos s then decode_here s
      else if i = 0 then
        (let (rune, w) = DecodeRuneInString (us_str s) in Some (rune, set_pos 0 0 (set_width w s)))
      else if i = us_numRunes s - 1 then do {
        (rune, w) \<leftarrow> DecodeLastRuneInString (us_str s);
        let s = set_width w s;
        Some (rune, set_pos i (int (length (us_str s)) - us_width s) s)
      }
      else if i < us_runePos s then
        (if i < (us_runePos s - us_nonASCII s) sdiv 2
         then At_forward i (set_pos (us_nonASCII s) (us_nonASCII s) s)
         else At_backward i s)
      else
        (if i - us_runePos s < (us_numRunes s - us_runePos s) sdiv 2
         then At_forward i s
         else At_backward i (set_pos (us_numRunes s) (int (length (us_str s))) s)))"

definition String_Slice :: "utf8_String \<Rightarrow> int \<Rightarrow> int \<Rightarrow> (gostring \<times> utf8_String) option" where
  "String_Slice s i j =
     (if j < us_nonASCII s then do { q \<leftarrow> go_slice (us_str s) i j; Some (q, s) }
      else if i < 0 \<or> j > us_numRunes s \<or> i > j then None
      else if i = j then Some ([], s)
      else do {
        (low, s) \<leftarrow> (if i < us_nonASCII s then Some (i, s)
          else if i = us_numRunes s then Some (int (length (us_str s)), s)
          else do { (_, s) \<leftarrow> String_At s i; Some (us_bytePos s, s) });
        (high, s) \<leftarrow> (if j = us_numRunes s then Some (int (length (us_str s)), s)
          else do { (_, s) \<leftarrow> String_At s j; Some (us_bytePos s, s) });
        q \<leftarrow> go_slice (us_str s) low high;
        Some (q, s)
      })"

section \<open>The cache\<close>

text \<open>The record with its cache at the \<open>k\<close>-th rune.\<close>

definition positioned :: "nat \<Rightarrow> utf8_String \<Rightarrow> utf8_String" where
  "positioned k s = s\<lparr>us_width := int (snd (decode_all (us_str s) ! k)),
     us_bytePos := int (rune_pos (decode_all (us_str s)) k), us_runePos := int k\<rparr>"

definition at_boundary :: "nat \<Rightarrow> utf8_String \<Rightarrow> bool" where
  "at_boundary k s \<longleftrightarrow> us_runePos s = int k \<and> us_bytePos s = int (rune_pos (decode_all (us_str s)) k)"

definition String_ok :: "utf8_String \<Rightarrow> bool" where
  "String_ok s \<longleftrightarrow> in_range (us_str s) \<and> us_numRunes s = int (length (decode_all (us_str s))) \<and>
     (\<exists>m. us_nonASCII s = int m \<and> m \<le> length (us_str s) \<and> (\<forall>k < m. us_str s ! k < 0x80) \<and>
        (m < length (us_str s) \<longrightarrow> \<not> us_str s ! m < 0x80 \<and>
          (\<exists>k < length (decode_all (us_str s)). s = positioned k s)))"

lemma decode_here_spec:
  assumes "at_boundary k s" "k < length (decode_all (us_str s))"
  shows "decode_here s = Some (fst (decode_all (us_str s) ! k), positioned k s)"
proof -
  let ?rs = "decode_all (us_str s)"
  have "go_slice (us_str s) (us_bytePos s) (int (length (us_str s))) = Some (drop (rune_pos ?rs k) (us_str s))"
    using assms decode_at(2) [OF assms(2)] by (simp add: go_slice_def at_boundary_def)
  moreover have "us_runePos s = int k" "us_bytePos s = int (rune_pos ?rs k)" using assms(1) by (simp_all add: at_boundary_def)
  ultimately show ?thesis
    using decode_at(1) [OF assms(2)]
    by (simp add: decode_here_def DecodeRuneInString_eq positioned_def set_width_def split: prod.split)
qed

lemma decode_before_spec:
  assumes "us_bytePos s = int (rune_pos (decode_all (us_str s)) (Suc k))" "k < length (decode_all (us_str s))"
  shows "decode_before s = Some (fst (decode_all (us_str s) ! k), set_width (snd (decode_all (us_str s) ! k)) s)"
proof -
  let ?rs = "decode_all (us_str s)" and ?q = "take (rune_pos (decode_all (us_str s)) (Suc k)) (us_str s)"
  have le: "rune_pos ?rs (Suc k) \<le> length (us_str s)" using rune_pos_le [of "Suc k"] assms(2) by simp
  have q: "decode_all ?q = take (Suc k) ?rs" by (rule decode_all_take) (use assms(2) in simp)
  then have ne: "?q \<noteq> []" using assms(2) by (metis decode_all_Nil length_0_conv length_take min.absorb2 nat.distinct(1) Suc_leI)
  have "last (take (Suc k) ?rs) = ?rs ! k" using assms(2) by (simp add: take_Suc_conv_app_nth)
  then have "DecodeLastRuneInString ?q = Some (?rs ! k)"
    using DecodeLastRune_last [OF ne] q by (simp add: DecodeLastRuneInString_eq)
  moreover have "go_slice (us_str s) 0 (us_bytePos s) = Some ?q" using le assms(1) by (simp add: go_slice_def)
  ultimately show ?thesis by (simp add: decode_before_def split: prod.split)
qed

lemma positioned_simps [simp]:
  "us_str (positioned k s) = us_str s" "us_numRunes (positioned k s) = us_numRunes s"
  "us_nonASCII (positioned k s) = us_nonASCII s" "us_runePos (positioned k s) = int k"
  "us_bytePos (positioned k s) = int (rune_pos (decode_all (us_str s)) k)"
  "us_width (positioned k s) = int (snd (decode_all (us_str s) ! k))"
  "positioned i (positioned k s) = positioned i s"
  by (simp_all add: positioned_def)

lemma at_boundary_positioned [simp]: "at_boundary k (positioned k s)"
  by (simp add: at_boundary_def)

lemma set_pos_positioned:
  "k < length (decode_all (us_str s)) \<Longrightarrow>
     set_pos (int k + 1) (int (rune_pos (decode_all (us_str s)) k) + int (snd (decode_all (us_str s) ! k))) s =
     s\<lparr>us_bytePos := int (rune_pos (decode_all (us_str s)) (Suc k)), us_runePos := int (Suc k)\<rparr>"
  by (simp add: set_pos_def rune_pos_Suc)

lemma positioned_eq_setI:
  "positioned k (set_pos r b s) = positioned k s" "positioned k (set_width w s) = positioned k s"
  "us_str (set_pos r b s) = us_str s" "us_str (set_width w s) = us_str s"
  by (simp_all add: positioned_def set_pos_def set_width_def)

lemma At_forward_spec:
  assumes "at_boundary k s" "k \<le> i" "i < length (decode_all (us_str s))"
  shows "At_forward (int i) s = Some (fst (decode_all (us_str s) ! i), positioned i s)"
  using assms
proof (induction "i - k" arbitrary: k s)
  case 0
  then have "k = i" by simp
  with decode_here_spec [OF 0(2)] 0 show ?case by (subst At_forward.simps) simp
next
  case (Suc n)
  have k: "k < length (decode_all (us_str s))" "k < i" using Suc by linarith+
  let ?s = "set_pos (int k + 1) (int (rune_pos (decode_all (us_str s)) k) + int (snd (decode_all (us_str s) ! k))) (positioned k s)"
  have "at_boundary (Suc k) ?s"
    using k rune_pos_Suc [OF k(1)] by (simp add: at_boundary_def set_pos_def)
  from Suc(1) [OF _ this] have "At_forward (int i) ?s = Some (fst (decode_all (us_str s) ! i), positioned i s)"
    using Suc k by (simp add: positioned_eq_setI)
  with decode_here_spec [OF Suc(3) k(1)] k(2) show ?case by (subst At_forward.simps) simp
qed

lemma At_backward_spec:
  assumes "at_boundary k s" "i < k" "k \<le> length (decode_all (us_str s))"
  shows "At_backward (int i) s = Some (fst (decode_all (us_str s) ! i), positioned i s)"
  using assms
proof (induction k arbitrary: s)
  case (Suc k)
  have k: "k < length (decode_all (us_str s))" using Suc by linarith
  let ?rs = "decode_all (us_str s)"
  have b: "us_bytePos s = int (rune_pos ?rs (Suc k))" "us_runePos s = int (Suc k)" using Suc(2) by (simp_all add: at_boundary_def)
  have pos: "set_pos (us_runePos s - 1) (us_bytePos s - int (snd (?rs ! k))) (set_width (snd (?rs ! k)) s) = positioned k s"
    using b rune_pos_Suc [OF k] by (simp add: set_pos_def set_width_def positioned_def)
  have unf: "At_backward (int i) s = (if k = i then Some (fst (?rs ! k), positioned k s) else At_backward (int i) (positioned k s))"
    using decode_before_spec [OF b(1) k] pos by (subst At_backward.simps) (auto simp: set_width_def Let_def)
  show ?case
  proof (cases "k = i")
    case False
    then show ?thesis using Suc(1) [of "positioned k s"] Suc.prems k unf by simp
  qed (use unf in simp)
qed simp
lemma ascii_prefix:
  "m \<le> length p \<Longrightarrow> (\<forall>k < m. p ! k < 0x80) \<Longrightarrow>
     m \<le> length (decode_all p) \<and> rune_pos (decode_all p) m = m \<and> (\<forall>k < m. decode_all p ! k = (uint (p ! k), 1))"
proof (induction m arbitrary: p)
  case (Suc m)
  have ne: "p \<noteq> []" using Suc.prems(1) by auto
  have d: "DecodeRune p = (uint (p ! 0), 1)" using DecodeRune_intros(1) [OF ne] Suc.prems(2) by simp
  have rec: "decode_all p = (uint (p ! 0), 1) # decode_all (drop 1 p)" by (rule decode_all_rec [OF ne d])
  have "m \<le> length (decode_all (drop 1 p)) \<and> rune_pos (decode_all (drop 1 p)) m = m \<and>
    (\<forall>k < m. decode_all (drop 1 p) ! k = (uint (drop 1 p ! k), 1))"
    by (rule Suc.IH) (use Suc.prems in auto)
  then show ?case using rec Suc.prems(1) by (auto simp: less_Suc_eq_0_disj)
qed simp

lemma Init_scan_spec:
  "i \<le> length p \<Longrightarrow> (\<forall>k < i. p ! k < 0x80) \<Longrightarrow>
     (case Init_scan p i of
        Some m \<Rightarrow> m < length p \<and> (\<forall>k < m. p ! k < 0x80) \<and> \<not> p ! m < 0x80
      | None \<Rightarrow> \<forall>k < length p. p ! k < 0x80)"
proof (induction p i rule: Init_scan.induct)
  case (1 p i)
  show ?case
  proof (cases "i < length p \<and> p ! i < 0x80")
    case True
    then have "\<forall>k < i + 1. p ! k < 0x80" using 1(3) by (auto simp: less_Suc_eq)
    with True 1(1) show ?thesis by (subst Init_scan.simps) (simp add: RuneSelf_def)
  next
    case False
    then show ?thesis using 1(2,3) by (subst Init_scan.simps) (auto simp: RuneSelf_def)
  qed
qed

lemma String_Init_ok:
  assumes "in_range contents"
  shows "String_ok (String_Init s contents) \<and> us_str (String_Init s contents) = contents"
proof -
  let ?rs = "decode_all contents" and ?s = "String_Init s contents"
  note scan = Init_scan_spec [of 0 contents]
  show ?thesis
  proof (cases "Init_scan contents 0")
    case None
    then have "\<forall>k < length contents. contents ! k < 0x80" using scan by simp
    note pre = ascii_prefix [OF order_refl this]
    have "\<not> length contents < length ?rs" using decode_at(2) [of "length contents" contents] pre by auto
    then have "length ?rs = length contents" using pre by simp
    with None scan assms show ?thesis
      by (auto simp: String_Init_def String_ok_def Let_def intro!: exI [of _ "length contents"])
  next
    case (Some m)
    then have m: "m < length contents" "\<forall>k < m. contents ! k < 0x80" "\<not> contents ! m < 0x80" using scan by auto
    then have ne: "contents \<noteq> []" by auto
    have len: "0 < length ?rs" using ne by (rule decode_all_Cons) simp
    have s: "us_str ?s = contents" "us_numRunes ?s = int (length ?rs)" "us_nonASCII ?s = int m"
      using Some by (simp_all add: String_Init_def Let_def RuneCountInString_def range_string_eq [OF assms])
    moreover have "?s = positioned 0 ?s"
      using Some decode_at(1) [OF len] by (simp add: positioned_def String_Init_def Let_def DecodeRuneInString_eq)
    ultimately show ?thesis using m len assms unfolding String_ok_def by (intro conjI exI [of _ m]) auto
  qed
qed

lemma String_ok_positioned: "String_ok s \<Longrightarrow> k < length (decode_all (us_str s)) \<Longrightarrow> String_ok (positioned k s)"
  unfolding String_ok_def by (auto intro: exI [of _ k])

lemma String_At_cached:
  assumes k: "k < length (decode_all (us_str s))" "s = positioned k s" and j0: "j < length (decode_all (us_str s))"
    and m: "us_nonASCII s = int m"
    and pre: "m \<le> length (decode_all (us_str s)) \<and> rune_pos (decode_all (us_str s)) m = m \<and>
      (\<forall>k < m. decode_all (us_str s) ! k = (uint (us_str s ! k), 1))"
    and n: "us_numRunes s = int (length (decode_all (us_str s)))" and mj: "m \<le> j"
  shows "String_At s (int j) = Some (fst (decode_all (us_str s) ! j), positioned j s)"
proof -
  let ?rs = "decode_all (us_str s)"
  define i where "i = int j"
  note j = i_def j0
  have f: "us_runePos s = int k" "us_bytePos s = int (rune_pos ?rs k)" "us_width s = int (snd (?rs ! k))"
    using k(2) positioned_simps(4,5,6) [of k s] by metis+
  have nu: "\<not> i < us_nonASCII s" "\<not> (i < 0 \<or> i \<ge> us_numRunes s)" using mj m n j by auto
  have bnd: "at_boundary k s" using f by (simp add: at_boundary_def)
  have mb: "at_boundary m (set_pos (us_nonASCII s) (us_nonASCII s) s)" using pre m by (simp add: at_boundary_def set_pos_def)
  have eb: "at_boundary (length ?rs) (set_pos (us_numRunes s) (int (length (us_str s))) s)"
    using n rune_pos_length [of "us_str s"] by (simp add: at_boundary_def set_pos_def)
  have "String_At s i = Some (fst (?rs ! j), positioned j s)"
  proof -
    consider (prev) "k = Suc j" | (ahead) "j = Suc k" | (here) "j = k" | (start) "j = 0" "k \<noteq> Suc j" "j \<noteq> Suc k" "j \<noteq> k"
      | (tail) "Suc j = length ?rs" "j \<noteq> 0" "k \<noteq> Suc j" "j \<noteq> Suc k" "j \<noteq> k"
      | (scan) "Suc j \<noteq> length ?rs" "j \<noteq> 0" "k \<noteq> Suc j" "j \<noteq> Suc k" "j \<noteq> k" by blast
    then show ?thesis
    proof cases
      case prev
      have "decode_before s = Some (fst (?rs ! j), set_width (snd (?rs ! j)) s)"
        using decode_before_spec [of s j] f(2) prev j(2) by simp
      then show ?thesis
        using prev nu f j rune_pos_Suc [OF j(2)] by (simp add: String_At_def set_pos_def set_width_def positioned_def)
    next
      case ahead
      have "at_boundary j (set_pos (int j) (us_bytePos s + us_width s) s)"
        using ahead f rune_pos_Suc [OF k(1)] by (simp add: at_boundary_def set_pos_def)
      from decode_here_spec [OF this] show ?thesis
        using ahead nu f j by (simp add: String_At_def positioned_eq_setI)
    next
      case here
      then show ?thesis using decode_here_spec [OF bnd k(1)] nu f j by (simp add: String_At_def)
    next
      case start
      have "DecodeRune (us_str s) = ?rs ! 0" using decode_at(1) [of 0 "us_str s"] j start by simp
      then show ?thesis
        using start nu f j by (simp add: String_At_def DecodeRuneInString_eq set_pos_def set_width_def positioned_def
          split: prod.split)
    next
      case tail
      have "DecodeLastRune (us_str s) = Some (?rs ! j)"
      proof -
        have "?rs \<noteq> []" "length ?rs - 1 = j" using tail(1) by auto
        then have "last ?rs = ?rs ! j" by (simp add: last_conv_nth)
        then show ?thesis using DecodeLastRune_last [of "us_str s"] tail(1) by (cases "us_str s = []") auto
      qed
      moreover have "int (length (us_str s)) = int (rune_pos ?rs j) + int (snd (?rs ! j))"
        using rune_pos_Suc [OF j(2)] rune_pos_length [of "us_str s"] tail(1) by simp
      ultimately show ?thesis
        using tail nu f j n by (auto simp: String_At_def DecodeLastRuneInString_eq set_pos_def set_width_def positioned_def
          split: prod.split)
    next
      case scan
      have "At_forward (int j) (set_pos (us_nonASCII s) (us_nonASCII s) s) = Some (fst (?rs ! j), positioned j s)"
        using At_forward_spec [OF mb] mj j by (simp add: positioned_eq_setI)
      moreover have "At_backward (int j) s = Some (fst (?rs ! j), positioned j s)" if "j < k"
        using At_backward_spec [OF bnd that] k(1) by simp
      moreover have "At_forward (int j) s = Some (fst (?rs ! j), positioned j s)" if "\<not> j < k"
        using At_forward_spec [OF bnd] that j(2) by simp
      moreover have "At_backward (int j) (set_pos (us_numRunes s) (int (length (us_str s))) s) = Some (fst (?rs ! j), positioned j s)"
        using At_backward_spec [OF eb] j(2) by (simp add: positioned_eq_setI)
      ultimately show ?thesis using scan nu f j n by (simp add: String_At_def)
    qed
  qed
  then show ?thesis by (simp add: i_def)
qed

lemma String_At_spec:
  assumes ok: "String_ok s" and i: "0 \<le> i" "i < us_numRunes s"
  shows "\<exists>s'. String_At s i = Some (fst (decode_all (us_str s) ! nat i), s') \<and> String_ok s' \<and> us_str s' = us_str s \<and>
     us_numRunes s' = us_numRunes s \<and> us_nonASCII s' = us_nonASCII s \<and>
     (us_nonASCII s \<le> i \<longrightarrow> s' = positioned (nat i) s)"
proof -
  let ?rs = "decode_all (us_str s)"
  obtain m where m: "us_nonASCII s = int m" "m \<le> length (us_str s)" "\<forall>k < m. us_str s ! k < 0x80"
    and cache: "m < length (us_str s) \<Longrightarrow> \<exists>k < length ?rs. s = positioned k s"
    and n: "us_numRunes s = int (length ?rs)"
    using ok by (auto simp: String_ok_def)
  note pre = ascii_prefix [OF m(2,3)]
  define j where "j = nat i"
  have j: "i = int j" "j < length ?rs" using i n by (simp_all add: j_def)
  show ?thesis
  proof (cases "i < int m")
    case True
    then have "go_index (us_str s) i = Some (us_str s ! j)" using m(2) j by (simp add: go_index_def)
    with True m(1) pre ok j show ?thesis by (auto simp: String_At_def)
  next
    case False
    have "m < length (us_str s)"
    proof (rule ccontr)
      assume "\<not> m < length (us_str s)"
      then have "rune_pos ?rs m = length (us_str s)" using pre m(2) by simp
      moreover have "rune_pos ?rs m \<le> rune_pos ?rs j"
        by (rule rune_pos_mono) (use False j in simp)
      ultimately show False using decode_at(2) [OF j(2)] by simp
    qed
    then obtain k where k: "k < length ?rs" "s = positioned k s" using cache by blast
    have "String_At s i = Some (fst (?rs ! j), positioned j s)"
      unfolding j(1) by (rule String_At_cached [OF k j(2) m(1) pre n]) (use False j in simp)
    then show ?thesis
      using String_ok_positioned [OF ok j(2)] j by auto
  qed
qed

lemma String_At_None: "String_ok s \<Longrightarrow> \<not> (0 \<le> i \<and> i < us_numRunes s) \<Longrightarrow> String_At s i = None"
proof -
  assume ok: "String_ok s" and i: "\<not> (0 \<le> i \<and> i < us_numRunes s)"
  obtain m where m: "us_nonASCII s = int m" "m \<le> length (us_str s)" "\<forall>k < m. us_str s ! k < 0x80"
    and n: "us_numRunes s = int (length (decode_all (us_str s)))"
    using ok by (auto simp: String_ok_def)
  have "m \<le> length (decode_all (us_str s))" using ascii_prefix [OF m(2,3)] by simp
  then have "i < int m \<Longrightarrow> go_index (us_str s) i = None" "\<not> i < int m \<Longrightarrow> i < 0 \<or> us_numRunes s \<le> i"
    using i n by (auto simp: go_index_def)
  then show "String_At s i = None" by (cases "i < int m") (simp_all add: String_At_def m(1))
qed

lemma String_Slice_spec:
  assumes ok: "String_ok s" and ij: "i \<le> j" "int j \<le> us_numRunes s"
  shows "\<exists>s'. String_Slice s (int i) (int j) =
      Some (slice (rune_pos (decode_all (us_str s)) i) (rune_pos (decode_all (us_str s)) j) (us_str s), s') \<and>
     String_ok s' \<and> us_str s' = us_str s"
proof -
  let ?rs = "decode_all (us_str s)"
  obtain m where m: "us_nonASCII s = int m" "m \<le> length (us_str s)" "\<forall>k < m. us_str s ! k < 0x80"
    and n: "us_numRunes s = int (length ?rs)"
    using ok by (auto simp: String_ok_def)
  have pre: "rune_pos ?rs k = k" if "k \<le> m" for k using ascii_prefix [of k "us_str s"] m that by auto
  have slice: "go_slice (us_str s) (int a) (int b) = Some (slice a b (us_str s))" if "a \<le> b" "b \<le> length (us_str s)" for a b
    using that by (simp add: go_slice_def slice_def)
  have le: "rune_pos ?rs i \<le> rune_pos ?rs j" "rune_pos ?rs j \<le> length (us_str s)"
    using rune_pos_mono [OF ij(1)] rune_pos_le [of j "us_str s"] ij(2) n by auto
  show ?thesis
  proof (cases "j < m")
    case True
    then have "rune_pos ?rs i = i" "rune_pos ?rs j = j" using pre ij by simp_all
    then show ?thesis using True m(1) slice [of i j] ij le ok by (simp add: String_Slice_def)
  next
    case False
    show ?thesis
    proof (cases "i = j")
      case True
      then show ?thesis using False m(1) ij ok by (simp add: String_Slice_def slice_def)
    next
      case ne: False
      have at: "\<exists>t. do { (_, t) \<leftarrow> String_At u (int k); Some (us_bytePos t, t) } = Some (int (rune_pos ?rs k), t) \<and>
          String_ok t \<and> us_str t = us_str s \<and> us_numRunes t = us_numRunes s \<and> us_nonASCII t = us_nonASCII s"
        if "String_ok u" "us_str u = us_str s" "us_numRunes u = us_numRunes s" "us_nonASCII u = us_nonASCII s"
          "m \<le> k" "k < length ?rs" for u k
        using String_At_spec [OF that(1), of "int k"] that m(1) n by auto
      obtain s1 where s1: "(if int i < us_nonASCII s then Some (int i, s)
          else if int i = us_numRunes s then Some (int (length (us_str s)), s)
          else do { (_, s) \<leftarrow> String_At s (int i); Some (us_bytePos s, s) }) = Some (int (rune_pos ?rs i), s1)"
        "String_ok s1" "us_str s1 = us_str s" "us_numRunes s1 = us_numRunes s" "us_nonASCII s1 = us_nonASCII s"
        using at [OF ok refl refl refl, of i] ok m(1) n ne ij pre [of i] by (cases "i < m") auto
      obtain s2 where s2: "(if int j = us_numRunes s1 then Some (int (length (us_str s1)), s1)
          else do { (_, s) \<leftarrow> String_At s1 (int j); Some (us_bytePos s, s) }) = Some (int (rune_pos ?rs j), s2)"
        "String_ok s2" "us_str s2 = us_str s"
        using at [OF s1(2-5), of j] s1 n ij False rune_pos_length [of "us_str s"] by (cases "j = length ?rs") auto
      show ?thesis
        using False ne ij m(1) s1(1) s2 slice [OF le] by (simp add: String_Slice_def del: go_slice_nat)
    qed
  qed
qed

section \<open>Properties\<close>

fun At_all :: "utf8_String \<Rightarrow> int list \<Rightarrow> (int list \<times> utf8_String) option" where
  "At_all s [] = Some ([], s)"
| "At_all s (i # is) = do { (r, s) \<leftarrow> String_At s i; (rs, s) \<leftarrow> At_all s is; Some (r # rs, s) }"

lemma At_all_spec:
  "String_ok s \<Longrightarrow> list_all (\<lambda>i. 0 \<le> i \<and> i < us_numRunes s) is \<Longrightarrow>
     \<exists>s'. At_all s is = Some (map (\<lambda>i. fst (decode_all (us_str s) ! nat i)) is, s') \<and> String_ok s' \<and>
       us_str s' = us_str s \<and> us_numRunes s' = us_numRunes s"
proof (induction "is" arbitrary: s)
  case (Cons i "is")
  obtain s1 where s1: "String_At s i = Some (fst (decode_all (us_str s) ! nat i), s1)" "String_ok s1"
    "us_str s1 = us_str s" "us_numRunes s1 = us_numRunes s"
    using String_At_spec [of s i] Cons.prems by auto
  obtain s' where "At_all s1 is = Some (map (\<lambda>i. fst (decode_all (us_str s) ! nat i)) is, s')" "String_ok s'"
    "us_str s' = us_str s" "us_numRunes s' = us_numRunes s"
    using Cons.IH [OF s1(2)] Cons.prems s1(3,4) by auto
  with s1(1) show ?case by simp
qed simp

text \<open>C18: \<open>String.At\<close> is indexing into the runes of the string. For a string without a
  four-byte encoding of a value above \<open>MaxRune\<close> (there the \<open>range\<close> clause of \<open>Init\<close> and \<open>DecodeRuneInString\<close> of
  \<open>At\<close> disagree), after \<open>NewString\<close> and any sequence of calls, on every valid index it returns the rune that a decoding of the whole string gives there, whichever of
  its cached and scanning paths it takes, and it stays usable; on any other index it panics.\<close>

theorem String_At_runes:
  assumes "in_range contents" "list_all (\<lambda>i. 0 \<le> i \<and> i < int (RuneCount contents)) is"
  shows "\<exists>s. At_all (NewString contents) is = Some (map (\<lambda>i. fst (decode_all contents ! nat i)) is, s) \<and>
    String_String s = contents \<and> String_RuneCount s = int (RuneCount contents) \<and>
    (String_At s i = None \<longleftrightarrow> i < 0 \<or> int (RuneCount contents) \<le> i)"
proof -
  have ok: "String_ok (NewString contents)" "us_str (NewString contents) = contents"
    using String_Init_ok [OF assms(1)] by (simp_all add: NewString_def)
  then have n: "us_numRunes (NewString contents) = int (RuneCount contents)"
    by (simp add: String_ok_def RuneCount_eq)
  obtain s where s: "At_all (NewString contents) is = Some (map (\<lambda>i. fst (decode_all contents ! nat i)) is, s)"
    "String_ok s" "us_str s = contents" "us_numRunes s = int (RuneCount contents)"
    using At_all_spec [OF ok(1), of "is"] ok(2) n assms(2) by auto
  have "String_At s i = None \<longleftrightarrow> i < 0 \<or> int (RuneCount contents) \<le> i"
  proof (cases "0 \<le> i \<and> i < us_numRunes s")
    case True
    with String_At_spec [OF s(2), of i] s(4) show ?thesis by fastforce
  next
    case False
    with String_At_None [OF s(2), of i] s(4) show ?thesis by simp linarith
  qed
  with s show ?thesis by (auto simp: String_String_def String_RuneCount_def)
qed

text \<open>A string with a two-byte rune, an invalid byte and a three-byte rune.\<close>

definition sample_str :: gostring where
  "sample_str = [0x61, 0xC3, 0xA9, 0xFF, 0xE2, 0x82, 0xAC, 0x62]"

lemma sample_decode:
  "decode_all sample_str = [(0x61, 1), (0xE9, 2), (RuneError, 1), (0x20AC, 3), (0x62, 1)]"
proof -
  have d: "DecodeRune sample_str = (0x61, 1)" "DecodeRune [0xC3, 0xA9, 0xFF, 0xE2, 0x82, 0xAC, 0x62] = (0xE9, 2)"
    "DecodeRune [0xFF, 0xE2, 0x82, 0xAC, 0x62] = (RuneError, 1)" "DecodeRune [0xE2, 0x82, 0xAC, 0x62] = (0x20AC, 3)"
    "DecodeRune [0x62] = (0x62, 1)" by code_simp+
  then show ?thesis unfolding sample_str_def by (simp add: decode_all.simps)
qed

lemma sample_in_range: "in_range sample_str" "RuneCount sample_str = 5"
  by (simp_all add: in_range_def RuneCount_eq sample_decode RuneError_def MaxRune_def)

theorem String_At_runes_witness:
  "\<exists>s. At_all (NewString sample_str) [4, 3, 1, 0, 2] = Some ([0x62, 0x20AC, 0xE9, 0x61, RuneError], s) \<and>
    String_String s = sample_str \<and> String_RuneCount s = int (RuneCount sample_str) \<and>
    (String_At s 7 = None \<longleftrightarrow> 7 < (0 :: int) \<or> int (RuneCount sample_str) \<le> 7)"
  using String_At_runes [OF sample_in_range(1), of "[4, 3, 1, 0, 2]" 7]
  by (simp add: sample_in_range(2) sample_decode numeral_nat)

text \<open>\<open>String.Slice(i, j)\<close> is the concatenation of the bytes of the runes \<open>i\<close> to \<open>j - 1\<close>.\<close>

theorem String_Slice_runes:
  assumes "in_range contents" "i \<le> j" "j \<le> RuneCount contents"
  shows "\<exists>s. String_Slice (NewString contents) (int i) (int j) =
     Some (slice (rune_pos (decode_all contents) i) (rune_pos (decode_all contents) j) contents, s)"
proof -
  have ok: "String_ok (NewString contents)" "us_str (NewString contents) = contents"
    using String_Init_ok [OF assms(1)] by (simp_all add: NewString_def)
  with String_Slice_spec [OF ok(1) assms(2)] assms(3) show ?thesis
    by (auto simp: String_ok_def RuneCount_eq)
qed

theorem String_Slice_runes_witness:
  "\<exists>s. String_Slice (NewString sample_str) 1 4 = Some ([0xC3, 0xA9, 0xFF, 0xE2, 0x82, 0xAC], s)"
proof -
  have p: "rune_pos (decode_all sample_str) 1 = 1" "rune_pos (decode_all sample_str) 4 = 7"
    by (simp_all add: sample_decode rune_pos_def)
  show ?thesis
    using String_Slice_runes [OF sample_in_range(1), of 1 4] unfolding p
    by (simp add: sample_in_range(2)) (simp add: sample_str_def slice_def)
qed

definition above_max :: gostring where
  "above_max = [0xF4, 0x90, 0x80, 0x80]"

lemma range_above_max: "range_string above_max = [(RuneError, 1), (RuneError, 1), (RuneError, 1), (RuneError, 1)]"
proof -
  have "charntorune above_max = (RuneError, 1)" "charntorune [0x90, 0x80, 0x80] = (RuneError, 1)"
    "charntorune [0x80, 0x80] = (RuneError, 1)" "charntorune [0x80] = (RuneError, 1)" by code_simp+
  then show ?thesis unfolding above_max_def by (simp add: range_string.simps)
qed

text \<open>C19: \<open>RuneCountInString\<close> counts by a \<open>range\<close> clause, whose decoder refuses values above \<open>MaxRune\<close>, while
  \<open>RuneCount\<close> and \<open>String.At\<close> decode with \<open>DecodeRune\<close>, which accepts them. The two counts agree on every
  string without such a sequence; on the bytes F4 90 80 80 they are 4 and 1, and \<open>At(0)\<close> of the \<open>String\<close>
  returns 0x110000 where the \<open>range\<close> clause yields the error rune.\<close>

theorem RuneCountInString_RuneCount:
  "(in_range p \<longrightarrow> RuneCountInString p = RuneCount p) \<and>
   RuneCountInString above_max = 4 \<and> RuneCount above_max = 1 \<and>
   map_option fst (String_At (NewString above_max) 0) = Some 0x110000 \<and> range_string above_max ! 0 = (RuneError, 1)"
proof (intro conjI impI)
  show "in_range p \<Longrightarrow> RuneCountInString p = RuneCount p"
    by (simp add: RuneCountInString_def RuneCount_eq range_string_eq)
  have d: "DecodeRune above_max = (0x110000, 4)" by code_simp
  note r = range_above_max
  then show "RuneCountInString above_max = 4" "range_string above_max ! 0 = (RuneError, 1)"
    by (simp_all add: RuneCountInString_def)
  show "RuneCount above_max = 1"
    using d unfolding above_max_def by (simp add: RuneCount_eq decode_all.simps)
  have "Init_scan above_max 0 = Some 0" by (subst Init_scan.simps) (simp add: above_max_def RuneSelf_def)
  then show "map_option fst (String_At (NewString above_max) 0) = Some 0x110000"
    using d r by (simp add: NewString_def String_Init_def Let_def String_At_def decode_here_def RuneCountInString_def
        DecodeRuneInString_eq go_slice_def)
qed

theorem RuneCountInString_RuneCount_witness:
  "RuneCountInString sample_str = 5 \<and> RuneCount sample_str = 5"
  using RuneCountInString_RuneCount [of sample_str] sample_in_range by simp

end
