(* ===== verification/Unicode.thy ===== *)
theory Unicode
  imports UTF8
begin

text \<open>
  Package unicode: the range tables the classification functions use (\<open>tables.go\<close>, generated by
  \<open>maketables.go\<close> and transcribed here), the membership test with its linear Latin-1 path and its
  binary search (\<open>letter.go\<close>), the classification functions with their ASCII fast paths, and the
  case mappings. The specification of a table is the set of code points it stands for
  (\<open>in_ranges\<close>); the well-formedness of each table (sorted, disjoint, positive strides) is checked by
  evaluation, and from it the two searches are shown to decide membership.
\<close>

section \<open>Tables\<close>

record Range =
  Lo :: int
  Hi :: int
  Stride :: int

record CaseRange =
  c_Lo :: int
  c_Hi :: int
  Delta :: "int list"

type_synonym SpecialCase = "CaseRange list"

definition ReplacementChar :: int where "ReplacementChar = 0xFFFD"

definition UpperCase :: nat where "UpperCase = 0"
definition LowerCase :: nat where "LowerCase = 1"
definition TitleCase :: nat where "TitleCase = 2"
definition MaxCase :: nat where "MaxCase = 3"

definition UpperLower :: int where "UpperLower = MaxRune + 1"

abbreviation rg :: "int \<Rightarrow> int \<Rightarrow> int \<Rightarrow> Range" where
  "rg lo hi stride \<equiv> \<lparr>Lo = lo, Hi = hi, Stride = stride\<rparr>"

abbreviation cr :: "int \<Rightarrow> int \<Rightarrow> int list \<Rightarrow> CaseRange" where
  "cr lo hi delta \<equiv> \<lparr>c_Lo = lo, c_Hi = hi, Delta = delta\<rparr>"

definition Upper :: "Range list" where
  "Upper = [
    rg 0x41 0x5A 1, rg 0xC0 0xD6 1, rg 0xD8 0xDE 1, rg 0x100 0x136 2, rg 0x139 0x147 2, rg 0x14A 0x178 2,
    rg 0x179 0x17D 2, rg 0x181 0x182 1, rg 0x184 0x186 2, rg 0x187 0x189 2, rg 0x18A 0x18B 1, rg 0x18E 0x191 1,
    rg 0x193 0x194 1, rg 0x196 0x198 1, rg 0x19C 0x19D 1, rg 0x19F 0x1A0 1, rg 0x1A2 0x1A6 2, rg 0x1A7 0x1A9 2,
    rg 0x1AC 0x1AE 2, rg 0x1AF 0x1B1 2, rg 0x1B2 0x1B3 1, rg 0x1B5 0x1B7 2, rg 0x1B8 0x1BC 4, rg 0x1C4 0x1CD 3,
    rg 0x1CF 0x1DB 2, rg 0x1DE 0x1EE 2, rg 0x1F1 0x1F4 3, rg 0x1F6 0x1F8 1, rg 0x1FA 0x232 2, rg 0x23A 0x23B 1,
    rg 0x23D 0x23E 1, rg 0x241 0x243 2, rg 0x244 0x246 1, rg 0x248 0x24E 2, rg 0x370 0x372 2, rg 0x376 0x386 16,
    rg 0x388 0x38A 1, rg 0x38C 0x38E 2, rg 0x38F 0x391 2, rg 0x392 0x3A1 1, rg 0x3A3 0x3AB 1, rg 0x3CF 0x3D2 3,
    rg 0x3D3 0x3D4 1, rg 0x3D8 0x3EE 2, rg 0x3F4 0x3F7 3, rg 0x3F9 0x3FA 1, rg 0x3FD 0x42F 1, rg 0x460 0x480 2,
    rg 0x48A 0x4C0 2, rg 0x4C1 0x4CD 2, rg 0x4D0 0x526 2, rg 0x531 0x556 1, rg 0x10A0 0x10C5 1, rg 0x1E00 0x1E94 2,
    rg 0x1E9E 0x1EFE 2, rg 0x1F08 0x1F0F 1, rg 0x1F18 0x1F1D 1, rg 0x1F28 0x1F2F 1, rg 0x1F38 0x1F3F 1,
    rg 0x1F48 0x1F4D 1, rg 0x1F59 0x1F5F 2, rg 0x1F68 0x1F6F 1, rg 0x1FB8 0x1FBB 1, rg 0x1FC8 0x1FCB 1,
    rg 0x1FD8 0x1FDB 1, rg 0x1FE8 0x1FEC 1, rg 0x1FF8 0x1FFB 1, rg 0x2102 0x2107 5, rg 0x210B 0x210D 1,
    rg 0x2110 0x2112 1, rg 0x2115 0x2119 4, rg 0x211A 0x211D 1, rg 0x2124 0x212A 2, rg 0x212B 0x212D 1,
    rg 0x2130 0x2133 1, rg 0x213E 0x213F 1, rg 0x2145 0x2183 62, rg 0x2C00 0x2C2E 1, rg 0x2C60 0x2C62 2,
    rg 0x2C63 0x2C64 1, rg 0x2C67 0x2C6D 2, rg 0x2C6E 0x2C70 1, rg 0x2C72 0x2C75 3, rg 0x2C7E 0x2C80 1,
    rg 0x2C82 0x2CE2 2, rg 0x2CEB 0x2CED 2, rg 0xA640 0xA66C 2, rg 0xA680 0xA696 2, rg 0xA722 0xA72E 2,
    rg 0xA732 0xA76E 2, rg 0xA779 0xA77D 2, rg 0xA77E 0xA786 2, rg 0xA78B 0xA78D 2, rg 0xA790 0xA7A0 16,
    rg 0xA7A2 0xA7A8 2, rg 0xFF21 0xFF3A 1, rg 0x10400 0x10427 1, rg 0x1D400 0x1D419 1, rg 0x1D434 0x1D44D 1,
    rg 0x1D468 0x1D481 1, rg 0x1D49C 0x1D49E 2, rg 0x1D49F 0x1D4A5 3, rg 0x1D4A6 0x1D4A9 3, rg 0x1D4AA 0x1D4AC 1,
    rg 0x1D4AE 0x1D4B5 1, rg 0x1D4D0 0x1D4E9 1, rg 0x1D504 0x1D505 1, rg 0x1D507 0x1D50A 1, rg 0x1D50D 0x1D514 1,
    rg 0x1D516 0x1D51C 1, rg 0x1D538 0x1D539 1, rg 0x1D53B 0x1D53E 1, rg 0x1D540 0x1D544 1, rg 0x1D546 0x1D54A 4,
    rg 0x1D54B 0x1D550 1, rg 0x1D56C 0x1D585 1, rg 0x1D5A0 0x1D5B9 1, rg 0x1D5D4 0x1D5ED 1, rg 0x1D608 0x1D621 1,
    rg 0x1D63C 0x1D655 1, rg 0x1D670 0x1D689 1, rg 0x1D6A8 0x1D6C0 1, rg 0x1D6E2 0x1D6FA 1, rg 0x1D71C 0x1D734 1,
    rg 0x1D756 0x1D76E 1, rg 0x1D790 0x1D7A8 1, rg 0x1D7CA 0x1D7CA 1]"

definition Lower :: "Range list" where
  "Lower = [
    rg 0x61 0x7A 1, rg 0xAA 0xB5 11, rg 0xBA 0xDF 37, rg 0xE0 0xF6 1, rg 0xF8 0xFF 1, rg 0x101 0x137 2,
    rg 0x138 0x148 2, rg 0x149 0x177 2, rg 0x17A 0x17E 2, rg 0x17F 0x180 1, rg 0x183 0x185 2, rg 0x188 0x18C 4,
    rg 0x18D 0x192 5, rg 0x195 0x199 4, rg 0x19A 0x19B 1, rg 0x19E 0x1A1 3, rg 0x1A3 0x1A5 2, rg 0x1A8 0x1AA 2,
    rg 0x1AB 0x1AD 2, rg 0x1B0 0x1B4 4, rg 0x1B6 0x1B9 3, rg 0x1BA 0x1BD 3, rg 0x1BE 0x1BF 1, rg 0x1C6 0x1CC 3,
    rg 0x1CE 0x1DC 2, rg 0x1DD 0x1EF 2, rg 0x1F0 0x1F3 3, rg 0x1F5 0x1F9 4, rg 0x1FB 0x233 2, rg 0x234 0x239 1,
    rg 0x23C 0x23F 3, rg 0x240 0x242 2, rg 0x247 0x24F 2, rg 0x250 0x293 1, rg 0x295 0x2AF 1, rg 0x371 0x373 2,
    rg 0x377 0x37B 4, rg 0x37C 0x37D 1, rg 0x390 0x3AC 28, rg 0x3AD 0x3CE 1, rg 0x3D0 0x3D1 1, rg 0x3D5 0x3D7 1,
    rg 0x3D9 0x3EF 2, rg 0x3F0 0x3F3 1, rg 0x3F5 0x3FB 3, rg 0x3FC 0x430 52, rg 0x431 0x45F 1, rg 0x461 0x481 2,
    rg 0x48B 0x4BF 2, rg 0x4C2 0x4CE 2, rg 0x4CF 0x527 2, rg 0x561 0x587 1, rg 0x1D00 0x1D2B 1, rg 0x1D62 0x1D77 1,
    rg 0x1D79 0x1D9A 1, rg 0x1E01 0x1E95 2, rg 0x1E96 0x1E9D 1, rg 0x1E9F 0x1EFF 2, rg 0x1F00 0x1F07 1,
    rg 0x1F10 0x1F15 1, rg 0x1F20 0x1F27 1, rg 0x1F30 0x1F37 1, rg 0x1F40 0x1F45 1, rg 0x1F50 0x1F57 1,
    rg 0x1F60 0x1F67 1, rg 0x1F70 0x1F7D 1, rg 0x1F80 0x1F87 1, rg 0x1F90 0x1F97 1, rg 0x1FA0 0x1FA7 1,
    rg 0x1FB0 0x1FB4 1, rg 0x1FB6 0x1FB7 1, rg 0x1FBE 0x1FC2 4, rg 0x1FC3 0x1FC4 1, rg 0x1FC6 0x1FC7 1,
    rg 0x1FD0 0x1FD3 1, rg 0x1FD6 0x1FD7 1, rg 0x1FE0 0x1FE7 1, rg 0x1FF2 0x1FF4 1, rg 0x1FF6 0x1FF7 1,
    rg 0x210A 0x210E 4, rg 0x210F 0x2113 4, rg 0x212F 0x2139 5, rg 0x213C 0x213D 1, rg 0x2146 0x2149 1,
    rg 0x214E 0x2184 54, rg 0x2C30 0x2C5E 1, rg 0x2C61 0x2C65 4, rg 0x2C66 0x2C6C 2, rg 0x2C71 0x2C73 2,
    rg 0x2C74 0x2C76 2, rg 0x2C77 0x2C7C 1, rg 0x2C81 0x2CE3 2, rg 0x2CE4 0x2CEC 8, rg 0x2CEE 0x2D00 18,
    rg 0x2D01 0x2D25 1, rg 0xA641 0xA66D 2, rg 0xA681 0xA697 2, rg 0xA723 0xA72F 2, rg 0xA730 0xA731 1,
    rg 0xA733 0xA771 2, rg 0xA772 0xA778 1, rg 0xA77A 0xA77C 2, rg 0xA77F 0xA787 2, rg 0xA78C 0xA78E 2,
    rg 0xA791 0xA7A1 16, rg 0xA7A3 0xA7A9 2, rg 0xA7FA 0xFB00 21254, rg 0xFB01 0xFB06 1, rg 0xFB13 0xFB17 1,
    rg 0xFF41 0xFF5A 1, rg 0x10428 0x1044F 1, rg 0x1D41A 0x1D433 1, rg 0x1D44E 0x1D454 1, rg 0x1D456 0x1D467 1,
    rg 0x1D482 0x1D49B 1, rg 0x1D4B6 0x1D4B9 1, rg 0x1D4BB 0x1D4BD 2, rg 0x1D4BE 0x1D4C3 1, rg 0x1D4C5 0x1D4CF 1,
    rg 0x1D4EA 0x1D503 1, rg 0x1D51E 0x1D537 1, rg 0x1D552 0x1D56B 1, rg 0x1D586 0x1D59F 1, rg 0x1D5BA 0x1D5D3 1,
    rg 0x1D5EE 0x1D607 1, rg 0x1D622 0x1D63B 1, rg 0x1D656 0x1D66F 1, rg 0x1D68A 0x1D6A5 1, rg 0x1D6C2 0x1D6DA 1,
    rg 0x1D6DC 0x1D6E1 1, rg 0x1D6FC 0x1D714 1, rg 0x1D716 0x1D71B 1, rg 0x1D736 0x1D74E 1, rg 0x1D750 0x1D755 1,
    rg 0x1D770 0x1D788 1, rg 0x1D78A 0x1D78F 1, rg 0x1D7AA 0x1D7C2 1, rg 0x1D7C4 0x1D7C9 1, rg 0x1D7CB 0x1D7CB 1]"

definition Title :: "Range list" where
  "Title = [
    rg 0x1C5 0x1CB 3, rg 0x1F2 0x1F88 7574, rg 0x1F89 0x1F8F 1, rg 0x1F98 0x1F9F 1, rg 0x1FA8 0x1FAF 1,
    rg 0x1FBC 0x1FCC 16, rg 0x1FFC 0x1FFC 1]"

definition Letter :: "Range list" where
  "Letter = [
    rg 0x41 0x5A 1, rg 0x61 0x7A 1, rg 0xAA 0xB5 11, rg 0xBA 0xC0 6, rg 0xC1 0xD6 1, rg 0xD8 0xF6 1, rg 0xF8 0x2C1 1,
    rg 0x2C6 0x2D1 1, rg 0x2E0 0x2E4 1, rg 0x2EC 0x2EE 2, rg 0x370 0x374 1, rg 0x376 0x377 1, rg 0x37A 0x37D 1,
    rg 0x386 0x388 2, rg 0x389 0x38A 1, rg 0x38C 0x38E 2, rg 0x38F 0x3A1 1, rg 0x3A3 0x3F5 1, rg 0x3F7 0x481 1,
    rg 0x48A 0x527 1, rg 0x531 0x556 1, rg 0x559 0x561 8, rg 0x562 0x587 1, rg 0x5D0 0x5EA 1, rg 0x5F0 0x5F2 1,
    rg 0x620 0x64A 1, rg 0x66E 0x66F 1, rg 0x671 0x6D3 1, rg 0x6D5 0x6E5 16, rg 0x6E6 0x6EE 8, rg 0x6EF 0x6FA 11,
    rg 0x6FB 0x6FC 1, rg 0x6FF 0x710 17, rg 0x712 0x72F 1, rg 0x74D 0x7A5 1, rg 0x7B1 0x7CA 25, rg 0x7CB 0x7EA 1,
    rg 0x7F4 0x7F5 1, rg 0x7FA 0x800 6, rg 0x801 0x815 1, rg 0x81A 0x824 10, rg 0x828 0x840 24, rg 0x841 0x858 1,
    rg 0x904 0x939 1, rg 0x93D 0x950 19, rg 0x958 0x961 1, rg 0x971 0x977 1, rg 0x979 0x97F 1, rg 0x985 0x98C 1,
    rg 0x98F 0x990 1, rg 0x993 0x9A8 1, rg 0x9AA 0x9B0 1, rg 0x9B2 0x9B6 4, rg 0x9B7 0x9B9 1, rg 0x9BD 0x9CE 17,
    rg 0x9DC 0x9DD 1, rg 0x9DF 0x9E1 1, rg 0x9F0 0x9F1 1, rg 0xA05 0xA0A 1, rg 0xA0F 0xA10 1, rg 0xA13 0xA28 1,
    rg 0xA2A 0xA30 1, rg 0xA32 0xA33 1, rg 0xA35 0xA36 1, rg 0xA38 0xA39 1, rg 0xA59 0xA5C 1, rg 0xA5E 0xA72 20,
    rg 0xA73 0xA74 1, rg 0xA85 0xA8D 1, rg 0xA8F 0xA91 1, rg 0xA93 0xAA8 1, rg 0xAAA 0xAB0 1, rg 0xAB2 0xAB3 1,
    rg 0xAB5 0xAB9 1, rg 0xABD 0xAD0 19, rg 0xAE0 0xAE1 1, rg 0xB05 0xB0C 1, rg 0xB0F 0xB10 1, rg 0xB13 0xB28 1,
    rg 0xB2A 0xB30 1, rg 0xB32 0xB33 1, rg 0xB35 0xB39 1, rg 0xB3D 0xB5C 31, rg 0xB5D 0xB5F 2, rg 0xB60 0xB61 1,
    rg 0xB71 0xB83 18, rg 0xB85 0xB8A 1, rg 0xB8E 0xB90 1, rg 0xB92 0xB95 1, rg 0xB99 0xB9A 1, rg 0xB9C 0xB9E 2,
    rg 0xB9F 0xBA3 4, rg 0xBA4 0xBA8 4, rg 0xBA9 0xBAA 1, rg 0xBAE 0xBB9 1, rg 0xBD0 0xC05 53, rg 0xC06 0xC0C 1,
    rg 0xC0E 0xC10 1, rg 0xC12 0xC28 1, rg 0xC2A 0xC33 1, rg 0xC35 0xC39 1, rg 0xC3D 0xC58 27, rg 0xC59 0xC60 7,
    rg 0xC61 0xC85 36, rg 0xC86 0xC8C 1, rg 0xC8E 0xC90 1, rg 0xC92 0xCA8 1, rg 0xCAA 0xCB3 1, rg 0xCB5 0xCB9 1,
    rg 0xCBD 0xCDE 33, rg 0xCE0 0xCE1 1, rg 0xCF1 0xCF2 1, rg 0xD05 0xD0C 1, rg 0xD0E 0xD10 1, rg 0xD12 0xD3A 1,
    rg 0xD3D 0xD4E 17, rg 0xD60 0xD61 1, rg 0xD7A 0xD7F 1, rg 0xD85 0xD96 1, rg 0xD9A 0xDB1 1, rg 0xDB3 0xDBB 1,
    rg 0xDBD 0xDC0 3, rg 0xDC1 0xDC6 1, rg 0xE01 0xE30 1, rg 0xE32 0xE33 1, rg 0xE40 0xE46 1, rg 0xE81 0xE82 1,
    rg 0xE84 0xE87 3, rg 0xE88 0xE8A 2, rg 0xE8D 0xE94 7, rg 0xE95 0xE97 1, rg 0xE99 0xE9F 1, rg 0xEA1 0xEA3 1,
    rg 0xEA5 0xEA7 2, rg 0xEAA 0xEAB 1, rg 0xEAD 0xEB0 1, rg 0xEB2 0xEB3 1, rg 0xEBD 0xEC0 3, rg 0xEC1 0xEC4 1,
    rg 0xEC6 0xEDC 22, rg 0xEDD 0xF00 35, rg 0xF40 0xF47 1, rg 0xF49 0xF6C 1, rg 0xF88 0xF8C 1, rg 0x1000 0x102A 1,
    rg 0x103F 0x1050 17, rg 0x1051 0x1055 1, rg 0x105A 0x105D 1, rg 0x1061 0x1065 4, rg 0x1066 0x106E 8,
    rg 0x106F 0x1070 1, rg 0x1075 0x1081 1, rg 0x108E 0x10A0 18, rg 0x10A1 0x10C5 1, rg 0x10D0 0x10FA 1,
    rg 0x10FC 0x1100 4, rg 0x1101 0x1248 1, rg 0x124A 0x124D 1, rg 0x1250 0x1256 1, rg 0x1258 0x125A 2,
    rg 0x125B 0x125D 1, rg 0x1260 0x1288 1, rg 0x128A 0x128D 1, rg 0x1290 0x12B0 1, rg 0x12B2 0x12B5 1,
    rg 0x12B8 0x12BE 1, rg 0x12C0 0x12C2 2, rg 0x12C3 0x12C5 1, rg 0x12C8 0x12D6 1, rg 0x12D8 0x1310 1,
    rg 0x1312 0x1315 1, rg 0x1318 0x135A 1, rg 0x1380 0x138F 1, rg 0x13A0 0x13F4 1, rg 0x1401 0x166C 1,
    rg 0x166F 0x167F 1, rg 0x1681 0x169A 1, rg 0x16A0 0x16EA 1, rg 0x1700 0x170C 1, rg 0x170E 0x1711 1,
    rg 0x1720 0x1731 1, rg 0x1740 0x1751 1, rg 0x1760 0x176C 1, rg 0x176E 0x1770 1, rg 0x1780 0x17B3 1,
    rg 0x17D7 0x17DC 5, rg 0x1820 0x1877 1, rg 0x1880 0x18A8 1, rg 0x18AA 0x18B0 6, rg 0x18B1 0x18F5 1,
    rg 0x1900 0x191C 1, rg 0x1950 0x196D 1, rg 0x1970 0x1974 1, rg 0x1980 0x19AB 1, rg 0x19C1 0x19C7 1,
    rg 0x1A00 0x1A16 1, rg 0x1A20 0x1A54 1, rg 0x1AA7 0x1B05 94, rg 0x1B06 0x1B33 1, rg 0x1B45 0x1B4B 1,
    rg 0x1B83 0x1BA0 1, rg 0x1BAE 0x1BAF 1, rg 0x1BC0 0x1BE5 1, rg 0x1C00 0x1C23 1, rg 0x1C4D 0x1C4F 1,
    rg 0x1C5A 0x1C7D 1, rg 0x1CE9 0x1CEC 1, rg 0x1CEE 0x1CF1 1, rg 0x1D00 0x1DBF 1, rg 0x1E00 0x1F15 1,
    rg 0x1F18 0x1F1D 1, rg 0x1F20 0x1F45 1, rg 0x1F48 0x1F4D 1, rg 0x1F50 0x1F57 1, rg 0x1F59 0x1F5F 2,
    rg 0x1F60 0x1F7D 1, rg 0x1F80 0x1FB4 1, rg 0x1FB6 0x1FBC 1, rg 0x1FBE 0x1FC2 4, rg 0x1FC3 0x1FC4 1,
    rg 0x1FC6 0x1FCC 1, rg 0x1FD0 0x1FD3 1, rg 0x1FD6 0x1FDB 1, rg 0x1FE0 0x1FEC 1, rg 0x1FF2 0x1FF4 1,
    rg 0x1FF6 0x1FFC 1, rg 0x2071 0x207F 14, rg 0x2090 0x209C 1, rg 0x2102 0x2107 5, rg 0x210A 0x2113 1,
    rg 0x2115 0x2119 4, rg 0x211A 0x211D 1, rg 0x2124 0x212A 2, rg 0x212B 0x212D 1, rg 0x212F 0x2139 1,
    rg 0x213C 0x213F 1, rg 0x2145 0x2149 1, rg 0x214E 0x2183 53, rg 0x2184 0x2C00 2684, rg 0x2C01 0x2C2E 1,
    rg 0x2C30 0x2C5E 1, rg 0x2C60 0x2CE4 1, rg 0x2CEB 0x2CEE 1, rg 0x2D00 0x2D25 1, rg 0x2D30 0x2D65 1,
    rg 0x2D6F 0x2D80 17, rg 0x2D81 0x2D96 1, rg 0x2DA0 0x2DA6 1, rg 0x2DA8 0x2DAE 1, rg 0x2DB0 0x2DB6 1,
    rg 0x2DB8 0x2DBE 1, rg 0x2DC0 0x2DC6 1, rg 0x2DC8 0x2DCE 1, rg 0x2DD0 0x2DD6 1, rg 0x2DD8 0x2DDE 1,
    rg 0x2E2F 0x3005 470, rg 0x3006 0x3031 43, rg 0x3032 0x3035 1, rg 0x303B 0x303C 1, rg 0x3041 0x3096 1,
    rg 0x309D 0x309F 1, rg 0x30A1 0x30FA 1, rg 0x30FC 0x30FF 1, rg 0x3105 0x312D 1, rg 0x3131 0x318E 1,
    rg 0x31A0 0x31BA 1, rg 0x31F0 0x31FF 1, rg 0x3400 0x4DB5 1, rg 0x4E00 0x9FCB 1, rg 0xA000 0xA48C 1,
    rg 0xA4D0 0xA4FD 1, rg 0xA500 0xA60C 1, rg 0xA610 0xA61F 1, rg 0xA62A 0xA62B 1, rg 0xA640 0xA66E 1,
    rg 0xA67F 0xA697 1, rg 0xA6A0 0xA6E5 1, rg 0xA717 0xA71F 1, rg 0xA722 0xA788 1, rg 0xA78B 0xA78E 1,
    rg 0xA790 0xA791 1, rg 0xA7A0 0xA7A9 1, rg 0xA7FA 0xA801 1, rg 0xA803 0xA805 1, rg 0xA807 0xA80A 1,
    rg 0xA80C 0xA822 1, rg 0xA840 0xA873 1, rg 0xA882 0xA8B3 1, rg 0xA8F2 0xA8F7 1, rg 0xA8FB 0xA90A 15,
    rg 0xA90B 0xA925 1, rg 0xA930 0xA946 1, rg 0xA960 0xA97C 1, rg 0xA984 0xA9B2 1, rg 0xA9CF 0xAA00 49,
    rg 0xAA01 0xAA28 1, rg 0xAA40 0xAA42 1, rg 0xAA44 0xAA4B 1, rg 0xAA60 0xAA76 1, rg 0xAA7A 0xAA80 6,
    rg 0xAA81 0xAAAF 1, rg 0xAAB1 0xAAB5 4, rg 0xAAB6 0xAAB9 3, rg 0xAABA 0xAABD 1, rg 0xAAC0 0xAAC2 2,
    rg 0xAADB 0xAADD 1, rg 0xAB01 0xAB06 1, rg 0xAB09 0xAB0E 1, rg 0xAB11 0xAB16 1, rg 0xAB20 0xAB26 1,
    rg 0xAB28 0xAB2E 1, rg 0xABC0 0xABE2 1, rg 0xAC00 0xD7A3 1, rg 0xD7B0 0xD7C6 1, rg 0xD7CB 0xD7FB 1,
    rg 0xF900 0xFA2D 1, rg 0xFA30 0xFA6D 1, rg 0xFA70 0xFAD9 1, rg 0xFB00 0xFB06 1, rg 0xFB13 0xFB17 1,
    rg 0xFB1D 0xFB1F 2, rg 0xFB20 0xFB28 1, rg 0xFB2A 0xFB36 1, rg 0xFB38 0xFB3C 1, rg 0xFB3E 0xFB40 2,
    rg 0xFB41 0xFB43 2, rg 0xFB44 0xFB46 2, rg 0xFB47 0xFBB1 1, rg 0xFBD3 0xFD3D 1, rg 0xFD50 0xFD8F 1,
    rg 0xFD92 0xFDC7 1, rg 0xFDF0 0xFDFB 1, rg 0xFE70 0xFE74 1, rg 0xFE76 0xFEFC 1, rg 0xFF21 0xFF3A 1,
    rg 0xFF41 0xFF5A 1, rg 0xFF66 0xFFBE 1, rg 0xFFC2 0xFFC7 1, rg 0xFFCA 0xFFCF 1, rg 0xFFD2 0xFFD7 1,
    rg 0xFFDA 0xFFDC 1, rg 0x10000 0x1000B 1, rg 0x1000D 0x10026 1, rg 0x10028 0x1003A 1, rg 0x1003C 0x1003D 1,
    rg 0x1003F 0x1004D 1, rg 0x10050 0x1005D 1, rg 0x10080 0x100FA 1, rg 0x10280 0x1029C 1, rg 0x102A0 0x102D0 1,
    rg 0x10300 0x1031E 1, rg 0x10330 0x10340 1, rg 0x10342 0x10349 1, rg 0x10380 0x1039D 1, rg 0x103A0 0x103C3 1,
    rg 0x103C8 0x103CF 1, rg 0x10400 0x1049D 1, rg 0x10800 0x10805 1, rg 0x10808 0x1080A 2, rg 0x1080B 0x10835 1,
    rg 0x10837 0x10838 1, rg 0x1083C 0x1083F 3, rg 0x10840 0x10855 1, rg 0x10900 0x10915 1, rg 0x10920 0x10939 1,
    rg 0x10A00 0x10A10 16, rg 0x10A11 0x10A13 1, rg 0x10A15 0x10A17 1, rg 0x10A19 0x10A33 1, rg 0x10A60 0x10A7C 1,
    rg 0x10B00 0x10B35 1, rg 0x10B40 0x10B55 1, rg 0x10B60 0x10B72 1, rg 0x10C00 0x10C48 1, rg 0x11003 0x11037 1,
    rg 0x11083 0x110AF 1, rg 0x12000 0x1236E 1, rg 0x13000 0x1342E 1, rg 0x16800 0x16A38 1, rg 0x1B000 0x1B001 1,
    rg 0x1D400 0x1D454 1, rg 0x1D456 0x1D49C 1, rg 0x1D49E 0x1D49F 1, rg 0x1D4A2 0x1D4A5 3, rg 0x1D4A6 0x1D4A9 3,
    rg 0x1D4AA 0x1D4AC 1, rg 0x1D4AE 0x1D4B9 1, rg 0x1D4BB 0x1D4BD 2, rg 0x1D4BE 0x1D4C3 1, rg 0x1D4C5 0x1D505 1,
    rg 0x1D507 0x1D50A 1, rg 0x1D50D 0x1D514 1, rg 0x1D516 0x1D51C 1, rg 0x1D51E 0x1D539 1, rg 0x1D53B 0x1D53E 1,
    rg 0x1D540 0x1D544 1, rg 0x1D546 0x1D54A 4, rg 0x1D54B 0x1D550 1, rg 0x1D552 0x1D6A5 1, rg 0x1D6A8 0x1D6C0 1,
    rg 0x1D6C2 0x1D6DA 1, rg 0x1D6DC 0x1D6FA 1, rg 0x1D6FC 0x1D714 1, rg 0x1D716 0x1D734 1, rg 0x1D736 0x1D74E 1,
    rg 0x1D750 0x1D76E 1, rg 0x1D770 0x1D788 1, rg 0x1D78A 0x1D7A8 1, rg 0x1D7AA 0x1D7C2 1, rg 0x1D7C4 0x1D7CB 1,
    rg 0x20000 0x2A6D6 1, rg 0x2A700 0x2B734 1, rg 0x2B740 0x2B81D 1, rg 0x2F800 0x2FA1D 1]"

definition Digit :: "Range list" where
  "Digit = [
    rg 0x30 0x39 1, rg 0x660 0x669 1, rg 0x6F0 0x6F9 1, rg 0x7C0 0x7C9 1, rg 0x966 0x96F 1, rg 0x9E6 0x9EF 1,
    rg 0xA66 0xA6F 1, rg 0xAE6 0xAEF 1, rg 0xB66 0xB6F 1, rg 0xBE6 0xBEF 1, rg 0xC66 0xC6F 1, rg 0xCE6 0xCEF 1,
    rg 0xD66 0xD6F 1, rg 0xE50 0xE59 1, rg 0xED0 0xED9 1, rg 0xF20 0xF29 1, rg 0x1040 0x1049 1, rg 0x1090 0x1099 1,
    rg 0x17E0 0x17E9 1, rg 0x1810 0x1819 1, rg 0x1946 0x194F 1, rg 0x19D0 0x19D9 1, rg 0x1A80 0x1A89 1,
    rg 0x1A90 0x1A99 1, rg 0x1B50 0x1B59 1, rg 0x1BB0 0x1BB9 1, rg 0x1C40 0x1C49 1, rg 0x1C50 0x1C59 1,
    rg 0xA620 0xA629 1, rg 0xA8D0 0xA8D9 1, rg 0xA900 0xA909 1, rg 0xA9D0 0xA9D9 1, rg 0xAA50 0xAA59 1,
    rg 0xABF0 0xABF9 1, rg 0xFF10 0xFF19 1, rg 0x104A0 0x104A9 1, rg 0x11066 0x1106F 1, rg 0x1D7CE 0x1D7FF 1]"

definition White_Space :: "Range list" where
  "White_Space = [
    rg 0x9 0xD 1, rg 0x20 0x20 1, rg 0x85 0x85 1, rg 0xA0 0xA0 1, rg 0x1680 0x1680 1, rg 0x180E 0x180E 1,
    rg 0x2000 0x200A 1, rg 0x2028 0x2029 1, rg 0x202F 0x202F 1, rg 0x205F 0x205F 1, rg 0x3000 0x3000 1]"

definition CaseRanges :: "CaseRange list" where
  "CaseRanges = [
    cr 0x41 0x5A [0, 32, 0], cr 0x61 0x7A [-32, 0, -32], cr 0xB5 0xB5 [743, 0, 743], cr 0xC0 0xD6 [0, 32, 0],
    cr 0xD8 0xDE [0, 32, 0], cr 0xE0 0xF6 [-32, 0, -32], cr 0xF8 0xFE [-32, 0, -32], cr 0xFF 0xFF [121, 0, 121],
    cr 0x100 0x12F [UpperLower, UpperLower, UpperLower], cr 0x130 0x130 [0, -199, 0], cr 0x131 0x131 [-232, 0, -232],
    cr 0x132 0x137 [UpperLower, UpperLower, UpperLower], cr 0x139 0x148 [UpperLower, UpperLower, UpperLower],
    cr 0x14A 0x177 [UpperLower, UpperLower, UpperLower], cr 0x178 0x178 [0, -121, 0],
    cr 0x179 0x17E [UpperLower, UpperLower, UpperLower], cr 0x17F 0x17F [-300, 0, -300], cr 0x180 0x180 [195, 0, 195],
    cr 0x181 0x181 [0, 210, 0], cr 0x182 0x185 [UpperLower, UpperLower, UpperLower], cr 0x186 0x186 [0, 206, 0],
    cr 0x187 0x188 [UpperLower, UpperLower, UpperLower], cr 0x189 0x18A [0, 205, 0],
    cr 0x18B 0x18C [UpperLower, UpperLower, UpperLower], cr 0x18E 0x18E [0, 79, 0], cr 0x18F 0x18F [0, 202, 0],
    cr 0x190 0x190 [0, 203, 0], cr 0x191 0x192 [UpperLower, UpperLower, UpperLower], cr 0x193 0x193 [0, 205, 0],
    cr 0x194 0x194 [0, 207, 0], cr 0x195 0x195 [97, 0, 97], cr 0x196 0x196 [0, 211, 0], cr 0x197 0x197 [0, 209, 0],
    cr 0x198 0x199 [UpperLower, UpperLower, UpperLower], cr 0x19A 0x19A [163, 0, 163], cr 0x19C 0x19C [0, 211, 0],
    cr 0x19D 0x19D [0, 213, 0], cr 0x19E 0x19E [130, 0, 130], cr 0x19F 0x19F [0, 214, 0],
    cr 0x1A0 0x1A5 [UpperLower, UpperLower, UpperLower], cr 0x1A6 0x1A6 [0, 218, 0],
    cr 0x1A7 0x1A8 [UpperLower, UpperLower, UpperLower], cr 0x1A9 0x1A9 [0, 218, 0],
    cr 0x1AC 0x1AD [UpperLower, UpperLower, UpperLower], cr 0x1AE 0x1AE [0, 218, 0],
    cr 0x1AF 0x1B0 [UpperLower, UpperLower, UpperLower], cr 0x1B1 0x1B2 [0, 217, 0],
    cr 0x1B3 0x1B6 [UpperLower, UpperLower, UpperLower], cr 0x1B7 0x1B7 [0, 219, 0],
    cr 0x1B8 0x1B9 [UpperLower, UpperLower, UpperLower], cr 0x1BC 0x1BD [UpperLower, UpperLower, UpperLower],
    cr 0x1BF 0x1BF [56, 0, 56], cr 0x1C4 0x1C4 [0, 2, 1], cr 0x1C5 0x1C5 [-1, 1, 0], cr 0x1C6 0x1C6 [-2, 0, -1],
    cr 0x1C7 0x1C7 [0, 2, 1], cr 0x1C8 0x1C8 [-1, 1, 0], cr 0x1C9 0x1C9 [-2, 0, -1], cr 0x1CA 0x1CA [0, 2, 1],
    cr 0x1CB 0x1CB [-1, 1, 0], cr 0x1CC 0x1CC [-2, 0, -1], cr 0x1CD 0x1DC [UpperLower, UpperLower, UpperLower],
    cr 0x1DD 0x1DD [-79, 0, -79], cr 0x1DE 0x1EF [UpperLower, UpperLower, UpperLower], cr 0x1F1 0x1F1 [0, 2, 1],
    cr 0x1F2 0x1F2 [-1, 1, 0], cr 0x1F3 0x1F3 [-2, 0, -1], cr 0x1F4 0x1F5 [UpperLower, UpperLower, UpperLower],
    cr 0x1F6 0x1F6 [0, -97, 0], cr 0x1F7 0x1F7 [0, -56, 0], cr 0x1F8 0x21F [UpperLower, UpperLower, UpperLower],
    cr 0x220 0x220 [0, -130, 0], cr 0x222 0x233 [UpperLower, UpperLower, UpperLower], cr 0x23A 0x23A [0, 10795, 0],
    cr 0x23B 0x23C [UpperLower, UpperLower, UpperLower], cr 0x23D 0x23D [0, -163, 0], cr 0x23E 0x23E [0, 10792, 0],
    cr 0x23F 0x240 [10815, 0, 10815], cr 0x241 0x242 [UpperLower, UpperLower, UpperLower], cr 0x243 0x243 [0, -195, 0],
    cr 0x244 0x244 [0, 69, 0], cr 0x245 0x245 [0, 71, 0], cr 0x246 0x24F [UpperLower, UpperLower, UpperLower],
    cr 0x250 0x250 [10783, 0, 10783], cr 0x251 0x251 [10780, 0, 10780], cr 0x252 0x252 [10782, 0, 10782],
    cr 0x253 0x253 [-210, 0, -210], cr 0x254 0x254 [-206, 0, -206], cr 0x256 0x257 [-205, 0, -205],
    cr 0x259 0x259 [-202, 0, -202], cr 0x25B 0x25B [-203, 0, -203], cr 0x260 0x260 [-205, 0, -205],
    cr 0x263 0x263 [-207, 0, -207], cr 0x265 0x265 [42280, 0, 42280], cr 0x268 0x268 [-209, 0, -209],
    cr 0x269 0x269 [-211, 0, -211], cr 0x26B 0x26B [10743, 0, 10743], cr 0x26F 0x26F [-211, 0, -211],
    cr 0x271 0x271 [10749, 0, 10749], cr 0x272 0x272 [-213, 0, -213], cr 0x275 0x275 [-214, 0, -214],
    cr 0x27D 0x27D [10727, 0, 10727], cr 0x280 0x280 [-218, 0, -218], cr 0x283 0x283 [-218, 0, -218],
    cr 0x288 0x288 [-218, 0, -218], cr 0x289 0x289 [-69, 0, -69], cr 0x28A 0x28B [-217, 0, -217],
    cr 0x28C 0x28C [-71, 0, -71], cr 0x292 0x292 [-219, 0, -219], cr 0x370 0x373 [UpperLower, UpperLower, UpperLower],
    cr 0x376 0x377 [UpperLower, UpperLower, UpperLower], cr 0x37B 0x37D [130, 0, 130], cr 0x386 0x386 [0, 38, 0],
    cr 0x388 0x38A [0, 37, 0], cr 0x38C 0x38C [0, 64, 0], cr 0x38E 0x38F [0, 63, 0], cr 0x391 0x3A1 [0, 32, 0],
    cr 0x3A3 0x3AB [0, 32, 0], cr 0x3AC 0x3AC [-38, 0, -38], cr 0x3AD 0x3AF [-37, 0, -37],
    cr 0x3B1 0x3C1 [-32, 0, -32], cr 0x3C2 0x3C2 [-31, 0, -31], cr 0x3C3 0x3CB [-32, 0, -32],
    cr 0x3CC 0x3CC [-64, 0, -64], cr 0x3CD 0x3CE [-63, 0, -63], cr 0x3CF 0x3CF [0, 8, 0], cr 0x3D0 0x3D0 [-62, 0, -62],
    cr 0x3D1 0x3D1 [-57, 0, -57], cr 0x3D5 0x3D5 [-47, 0, -47], cr 0x3D6 0x3D6 [-54, 0, -54],
    cr 0x3D7 0x3D7 [-8, 0, -8], cr 0x3D8 0x3EF [UpperLower, UpperLower, UpperLower], cr 0x3F0 0x3F0 [-86, 0, -86],
    cr 0x3F1 0x3F1 [-80, 0, -80], cr 0x3F2 0x3F2 [7, 0, 7], cr 0x3F4 0x3F4 [0, -60, 0], cr 0x3F5 0x3F5 [-96, 0, -96],
    cr 0x3F7 0x3F8 [UpperLower, UpperLower, UpperLower], cr 0x3F9 0x3F9 [0, -7, 0],
    cr 0x3FA 0x3FB [UpperLower, UpperLower, UpperLower], cr 0x3FD 0x3FF [0, -130, 0], cr 0x400 0x40F [0, 80, 0],
    cr 0x410 0x42F [0, 32, 0], cr 0x430 0x44F [-32, 0, -32], cr 0x450 0x45F [-80, 0, -80],
    cr 0x460 0x481 [UpperLower, UpperLower, UpperLower], cr 0x48A 0x4BF [UpperLower, UpperLower, UpperLower],
    cr 0x4C0 0x4C0 [0, 15, 0], cr 0x4C1 0x4CE [UpperLower, UpperLower, UpperLower], cr 0x4CF 0x4CF [-15, 0, -15],
    cr 0x4D0 0x527 [UpperLower, UpperLower, UpperLower], cr 0x531 0x556 [0, 48, 0], cr 0x561 0x586 [-48, 0, -48],
    cr 0x10A0 0x10C5 [0, 7264, 0], cr 0x1D79 0x1D79 [35332, 0, 35332], cr 0x1D7D 0x1D7D [3814, 0, 3814],
    cr 0x1E00 0x1E95 [UpperLower, UpperLower, UpperLower], cr 0x1E9B 0x1E9B [-59, 0, -59],
    cr 0x1E9E 0x1E9E [0, -7615, 0], cr 0x1EA0 0x1EFF [UpperLower, UpperLower, UpperLower], cr 0x1F00 0x1F07 [8, 0, 8],
    cr 0x1F08 0x1F0F [0, -8, 0], cr 0x1F10 0x1F15 [8, 0, 8], cr 0x1F18 0x1F1D [0, -8, 0], cr 0x1F20 0x1F27 [8, 0, 8],
    cr 0x1F28 0x1F2F [0, -8, 0], cr 0x1F30 0x1F37 [8, 0, 8], cr 0x1F38 0x1F3F [0, -8, 0], cr 0x1F40 0x1F45 [8, 0, 8],
    cr 0x1F48 0x1F4D [0, -8, 0], cr 0x1F51 0x1F51 [8, 0, 8], cr 0x1F53 0x1F53 [8, 0, 8], cr 0x1F55 0x1F55 [8, 0, 8],
    cr 0x1F57 0x1F57 [8, 0, 8], cr 0x1F59 0x1F59 [0, -8, 0], cr 0x1F5B 0x1F5B [0, -8, 0], cr 0x1F5D 0x1F5D [0, -8, 0],
    cr 0x1F5F 0x1F5F [0, -8, 0], cr 0x1F60 0x1F67 [8, 0, 8], cr 0x1F68 0x1F6F [0, -8, 0], cr 0x1F70 0x1F71 [74, 0, 74],
    cr 0x1F72 0x1F75 [86, 0, 86], cr 0x1F76 0x1F77 [100, 0, 100], cr 0x1F78 0x1F79 [128, 0, 128],
    cr 0x1F7A 0x1F7B [112, 0, 112], cr 0x1F7C 0x1F7D [126, 0, 126], cr 0x1F80 0x1F87 [8, 0, 8],
    cr 0x1F88 0x1F8F [0, -8, 0], cr 0x1F90 0x1F97 [8, 0, 8], cr 0x1F98 0x1F9F [0, -8, 0], cr 0x1FA0 0x1FA7 [8, 0, 8],
    cr 0x1FA8 0x1FAF [0, -8, 0], cr 0x1FB0 0x1FB1 [8, 0, 8], cr 0x1FB3 0x1FB3 [9, 0, 9], cr 0x1FB8 0x1FB9 [0, -8, 0],
    cr 0x1FBA 0x1FBB [0, -74, 0], cr 0x1FBC 0x1FBC [0, -9, 0], cr 0x1FBE 0x1FBE [-7205, 0, -7205],
    cr 0x1FC3 0x1FC3 [9, 0, 9], cr 0x1FC8 0x1FCB [0, -86, 0], cr 0x1FCC 0x1FCC [0, -9, 0], cr 0x1FD0 0x1FD1 [8, 0, 8],
    cr 0x1FD8 0x1FD9 [0, -8, 0], cr 0x1FDA 0x1FDB [0, -100, 0], cr 0x1FE0 0x1FE1 [8, 0, 8], cr 0x1FE5 0x1FE5 [7, 0, 7],
    cr 0x1FE8 0x1FE9 [0, -8, 0], cr 0x1FEA 0x1FEB [0, -112, 0], cr 0x1FEC 0x1FEC [0, -7, 0],
    cr 0x1FF3 0x1FF3 [9, 0, 9], cr 0x1FF8 0x1FF9 [0, -128, 0], cr 0x1FFA 0x1FFB [0, -126, 0],
    cr 0x1FFC 0x1FFC [0, -9, 0], cr 0x2126 0x2126 [0, -7517, 0], cr 0x212A 0x212A [0, -8383, 0],
    cr 0x212B 0x212B [0, -8262, 0], cr 0x2132 0x2132 [0, 28, 0], cr 0x214E 0x214E [-28, 0, -28],
    cr 0x2183 0x2184 [UpperLower, UpperLower, UpperLower], cr 0x2C00 0x2C2E [0, 48, 0], cr 0x2C30 0x2C5E [-48, 0, -48],
    cr 0x2C60 0x2C61 [UpperLower, UpperLower, UpperLower], cr 0x2C62 0x2C62 [0, -10743, 0],
    cr 0x2C63 0x2C63 [0, -3814, 0], cr 0x2C64 0x2C64 [0, -10727, 0], cr 0x2C65 0x2C65 [-10795, 0, -10795],
    cr 0x2C66 0x2C66 [-10792, 0, -10792], cr 0x2C67 0x2C6C [UpperLower, UpperLower, UpperLower],
    cr 0x2C6D 0x2C6D [0, -10780, 0], cr 0x2C6E 0x2C6E [0, -10749, 0], cr 0x2C6F 0x2C6F [0, -10783, 0],
    cr 0x2C70 0x2C70 [0, -10782, 0], cr 0x2C72 0x2C73 [UpperLower, UpperLower, UpperLower],
    cr 0x2C75 0x2C76 [UpperLower, UpperLower, UpperLower], cr 0x2C7E 0x2C7F [0, -10815, 0],
    cr 0x2C80 0x2CE3 [UpperLower, UpperLower, UpperLower], cr 0x2CEB 0x2CEE [UpperLower, UpperLower, UpperLower],
    cr 0x2D00 0x2D25 [-7264, 0, -7264], cr 0xA640 0xA66D [UpperLower, UpperLower, UpperLower],
    cr 0xA680 0xA697 [UpperLower, UpperLower, UpperLower], cr 0xA722 0xA72F [UpperLower, UpperLower, UpperLower],
    cr 0xA732 0xA76F [UpperLower, UpperLower, UpperLower], cr 0xA779 0xA77C [UpperLower, UpperLower, UpperLower],
    cr 0xA77D 0xA77D [0, -35332, 0], cr 0xA77E 0xA787 [UpperLower, UpperLower, UpperLower],
    cr 0xA78B 0xA78C [UpperLower, UpperLower, UpperLower], cr 0xA78D 0xA78D [0, -42280, 0],
    cr 0xA790 0xA791 [UpperLower, UpperLower, UpperLower], cr 0xA7A0 0xA7A9 [UpperLower, UpperLower, UpperLower],
    cr 0xFF21 0xFF3A [0, 32, 0], cr 0xFF41 0xFF5A [-32, 0, -32], cr 0x10400 0x10427 [0, 40, 0],
    cr 0x10428 0x1044F [-40, 0, -40]]"

definition TurkishCase :: SpecialCase where
  "TurkishCase = [cr 0x0049 0x0049 [0, 0x131 - 0x49, 0], cr 0x0069 0x0069 [0x130 - 0x69, 0, 0x130 - 0x69],
     cr 0x0130 0x0130 [0, 0x69 - 0x130, 0], cr 0x0131 0x0131 [0x49 - 0x131, 0, 0x49 - 0x131]]"

section \<open>Operations\<close>

text \<open>The two searches of \<open>Is\<close>. Every range has a positive stride, so the remainder is defined.\<close>

fun Is_latin1 :: "Range list \<Rightarrow> int \<Rightarrow> bool" where
  "Is_latin1 [] rune = False"
| "Is_latin1 (r # ranges) rune =
     (if rune > Hi r then Is_latin1 ranges rune
      else if rune < Lo r then False
      else (rune - Lo r) smod Stride r = 0)"

function Is_search :: "Range list \<Rightarrow> int \<Rightarrow> nat \<Rightarrow> nat \<Rightarrow> bool" where
  "Is_search ranges rune lo hi =
     (if lo < hi then
        let m = lo + (hi - lo) div 2; r = ranges ! m in
        if Lo r \<le> rune \<and> rune \<le> Hi r then (rune - Lo r) smod Stride r = 0
        else if rune < Lo r then Is_search ranges rune lo m
        else Is_search ranges rune (m + 1) hi
      else False)"
  by pat_completeness auto
termination
  by (relation "measure (\<lambda>(ranges, rune, lo, hi). hi - lo)") auto

declare Is_search.simps [simp del]

definition Is :: "Range list \<Rightarrow> int \<Rightarrow> bool" where
  "Is ranges rune = (if rune < 0x100 then Is_latin1 ranges rune else Is_search ranges rune 0 (length ranges))"

definition IsUpper :: "int \<Rightarrow> bool" where
  "IsUpper rune = (if rune < 0x80 then 0x41 \<le> rune \<and> rune \<le> 0x5A else Is Upper rune)"

definition IsLower :: "int \<Rightarrow> bool" where
  "IsLower rune = (if rune < 0x80 then 0x61 \<le> rune \<and> rune \<le> 0x7A else Is Lower rune)"

definition IsTitle :: "int \<Rightarrow> bool" where
  "IsTitle rune = (if rune < 0x80 then False else Is Title rune)"

definition IsLetter :: "int \<Rightarrow> bool" where
  "IsLetter rune =
     (if rune < 0x80 then let rune = rune AND NOT (0x61 - 0x41) in 0x41 \<le> rune \<and> rune \<le> 0x5A
      else Is Letter rune)"

definition IsSpace :: "int \<Rightarrow> bool" where
  "IsSpace rune =
     (if rune \<le> 0xFF then rune \<in> {0x09, 0x0A, 0x0B, 0x0C, 0x0D, 0x20, 0x85, 0xA0} else Is White_Space rune)"

definition IsDigit :: "int \<Rightarrow> bool" where
  "IsDigit rune = (if rune < 0x100 then 0x30 \<le> rune \<and> rune \<le> 0x39 else Is Digit rune)"

function to_search :: "nat \<Rightarrow> int \<Rightarrow> CaseRange list \<Rightarrow> nat \<Rightarrow> nat \<Rightarrow> int" where
  "to_search cas rune caseRange lo hi =
     (if lo < hi then
        let m = lo + (hi - lo) div 2; r = caseRange ! m in
        if c_Lo r \<le> rune \<and> rune \<le> c_Hi r then
          let delta = Delta r ! cas in
          if delta > MaxRune then c_Lo r + (((rune - c_Lo r) AND NOT 1) OR (int cas AND 1))
          else rune + delta
        else if rune < c_Lo r then to_search cas rune caseRange lo m
        else to_search cas rune caseRange (m + 1) hi
      else rune)"
  by pat_completeness auto
termination
  by (relation "measure (\<lambda>(cas, rune, caseRange, lo, hi). hi - lo)") auto

declare to_search.simps [simp del]

definition to_case :: "int \<Rightarrow> int \<Rightarrow> CaseRange list \<Rightarrow> int" where
  "to_case cas rune caseRange =
     (if cas < 0 \<or> int MaxCase \<le> cas then ReplacementChar
      else to_search (nat cas) rune caseRange 0 (length caseRange))"

definition To :: "int \<Rightarrow> int \<Rightarrow> int" where
  "To cas rune = to_case cas rune CaseRanges"

definition ToUpper :: "int \<Rightarrow> int" where
  "ToUpper rune =
     (if rune < 0x80 then if 0x61 \<le> rune \<and> rune \<le> 0x7A then rune - (0x61 - 0x41) else rune
      else To (int UpperCase) rune)"

definition ToLower :: "int \<Rightarrow> int" where
  "ToLower rune =
     (if rune < 0x80 then if 0x41 \<le> rune \<and> rune \<le> 0x5A then rune + (0x61 - 0x41) else rune
      else To (int LowerCase) rune)"

definition ToTitle :: "int \<Rightarrow> int" where
  "ToTitle rune =
     (if rune < 0x80 then if 0x61 \<le> rune \<and> rune \<le> 0x7A then rune - (0x61 - 0x41) else rune
      else To (int TitleCase) rune)"

definition Special_ToUpper :: "SpecialCase \<Rightarrow> int \<Rightarrow> int" where
  "Special_ToUpper special rune =
     (let r = to_case (int UpperCase) rune special in if r = rune then ToUpper rune else r)"

definition Special_ToTitle :: "SpecialCase \<Rightarrow> int \<Rightarrow> int" where
  "Special_ToTitle special rune =
     (let r = to_case (int TitleCase) rune special in if r = rune then ToTitle rune else r)"

definition Special_ToLower :: "SpecialCase \<Rightarrow> int \<Rightarrow> int" where
  "Special_ToLower special rune =
     (let r = to_case (int LowerCase) rune special in if r = rune then ToLower rune else r)"

section \<open>Binary search over intervals\<close>

text \<open>The search that \<open>Is\<close> and \<open>to\<close> share: the index of the interval that holds \<open>r\<close>.\<close>

function bsearch :: "(int \<times> int) list \<Rightarrow> int \<Rightarrow> nat \<Rightarrow> nat \<Rightarrow> nat option" where
  "bsearch ivs r lo hi =
     (if lo < hi then
        let m = lo + (hi - lo) div 2 in
        if fst (ivs ! m) \<le> r \<and> r \<le> snd (ivs ! m) then Some m
        else if r < fst (ivs ! m) then bsearch ivs r lo m
        else bsearch ivs r (m + 1) hi
      else None)"
  by pat_completeness auto
termination
  by (relation "measure (\<lambda>(ivs, r, lo, hi). hi - lo)") auto

declare bsearch.simps [simp del]

fun wf_ivs :: "int \<Rightarrow> (int \<times> int) list \<Rightarrow> bool" where
  "wf_ivs k [] \<longleftrightarrow> True"
| "wf_ivs k ((lo, hi) # ivs) \<longleftrightarrow> k \<le> lo \<and> lo \<le> hi \<and> wf_ivs (hi + 1) ivs"

lemma wf_ivs_lower: "wf_ivs k ivs \<Longrightarrow> (lo, hi) \<in> set ivs \<Longrightarrow> k \<le> lo \<and> lo \<le> hi"
  by (induction k ivs rule: wf_ivs.induct) fastforce+

lemma wf_ivs_less: "wf_ivs k ivs \<Longrightarrow> i < j \<Longrightarrow> j < length ivs \<Longrightarrow> snd (ivs ! i) < fst (ivs ! j)"
proof (induction k ivs arbitrary: i j rule: wf_ivs.induct)
  case (2 k lo hi ivs)
  show ?case
  proof (cases i)
    case 0
    then have "(fst (ivs ! (j - 1)), snd (ivs ! (j - 1))) \<in> set ivs" "wf_ivs (hi + 1) ivs" using "2.prems" by auto
    from wf_ivs_lower [OF this(2,1)] show ?thesis using "2.prems" 0 by (cases j) auto
  next
    case (Suc i')
    with 2 show ?thesis by (cases j) auto
  qed
qed simp

lemma wf_ivs_unique:
  assumes "wf_ivs k ivs" "i < length ivs" "fst (ivs ! i) \<le> r \<and> r \<le> snd (ivs ! i)"
    "j < length ivs" "fst (ivs ! j) \<le> r \<and> r \<le> snd (ivs ! j)"
  shows "i = j"
  using wf_ivs_less [OF assms(1), of i j] wf_ivs_less [OF assms(1), of j i] assms(2-)
  by (cases i j rule: linorder_cases) auto

lemma bsearch_sound:
  "bsearch ivs r lo hi = Some m \<Longrightarrow> lo \<le> m \<and> m < hi \<and> fst (ivs ! m) \<le> r \<and> r \<le> snd (ivs ! m)"
proof (induction ivs r lo hi rule: bsearch.induct)
  case (1 ivs r lo hi)
  define k where "k = lo + (hi - lo) div 2"
  have lh: "lo < hi" using "1.prems" by (cases "lo < hi") (simp_all add: bsearch.simps)
  then have k: "lo \<le> k" "k < hi" by (auto simp: k_def)
  have eq: "bsearch ivs r lo hi = (if fst (ivs ! k) \<le> r \<and> r \<le> snd (ivs ! k) then Some k
      else if r < fst (ivs ! k) then bsearch ivs r lo k else bsearch ivs r (k + 1) hi)"
    using lh by (simp add: bsearch.simps [of ivs r lo hi] k_def)
  show ?case
    using "1.prems" "1.IH"(1) [OF lh k_def] "1.IH"(2) [OF lh k_def] k unfolding eq
    by (simp split: if_splits)
qed

lemma bsearch_complete:
  assumes wf: "wf_ivs k ivs" and i: "i < length ivs" "fst (ivs ! i) \<le> r \<and> r \<le> snd (ivs ! i)"
  shows "lo \<le> i \<Longrightarrow> i < hi \<Longrightarrow> hi \<le> length ivs \<Longrightarrow> bsearch ivs r lo hi = Some i"
proof (induction "hi - lo" arbitrary: lo hi rule: less_induct)
  case less
  define m where "m = lo + (hi - lo) div 2"
  have m: "lo \<le> m" "m < hi" "m < length ivs" using less.prems by (auto simp: m_def)
  consider "m = i" | "i < m" | "m < i" by linarith
  then show ?case
  proof cases
    case 1
    then show ?thesis using i less.prems by (simp add: bsearch.simps [of ivs r lo hi] m_def [symmetric])
  next
    case 2
    then have "r < fst (ivs ! m)" using wf_ivs_less [OF wf 2 m(3)] i by simp
    then show ?thesis
      using less.hyps [of m lo] 2 m less.prems by (simp add: bsearch.simps [of ivs r lo hi] m_def [symmetric])
  next
    case 3
    then have "snd (ivs ! m) < r" using wf_ivs_less [OF wf 3 i(1)] i by simp
    moreover have "fst (ivs ! m) \<le> snd (ivs ! m)"
      using wf_ivs_lower [OF wf, of "fst (ivs ! m)" "snd (ivs ! m)"] m(3) by simp
    ultimately show ?thesis
      using less.hyps [of hi "m + 1"] 3 m less.prems by (simp add: bsearch.simps [of ivs r lo hi] m_def [symmetric])
  qed
qed

definition Is_ivs :: "Range list \<Rightarrow> (int \<times> int) list" where
  "Is_ivs = map (\<lambda>g. (Lo g, Hi g))"

definition to_ivs :: "CaseRange list \<Rightarrow> (int \<times> int) list" where
  "to_ivs = map (\<lambda>g. (c_Lo g, c_Hi g))"

definition case_shift :: "nat \<Rightarrow> CaseRange \<Rightarrow> int \<Rightarrow> int" where
  "case_shift cas g r =
     (if Delta g ! cas > MaxRune then c_Lo g + (((r - c_Lo g) AND NOT 1) OR (int cas AND 1)) else r + Delta g ! cas)"

lemma ivs_nth [simp]:
  "i < length rs \<Longrightarrow> Is_ivs rs ! i = (Lo (rs ! i), Hi (rs ! i))"
  "i < length cs \<Longrightarrow> to_ivs cs ! i = (c_Lo (cs ! i), c_Hi (cs ! i))"
  by (simp_all add: Is_ivs_def to_ivs_def)

lemma ivs_length [simp]: "length (Is_ivs rs) = length rs" "length (to_ivs cs) = length cs"
  by (simp_all add: Is_ivs_def to_ivs_def)

lemma Is_search_bsearch:
  "hi \<le> length rs \<Longrightarrow> Is_search rs r lo hi =
     (case bsearch (Is_ivs rs) r lo hi of None \<Rightarrow> False | Some m \<Rightarrow> (r - Lo (rs ! m)) smod Stride (rs ! m) = 0)"
proof (induction rs r lo hi rule: Is_search.induct)
  case (1 rs r lo hi)
  have "lo < hi \<Longrightarrow> lo + (hi - lo) div 2 < length rs" using 1(3) by linarith
  then show ?case
    using 1 by (simp add: Is_search.simps [of rs r lo hi] bsearch.simps [of "Is_ivs rs" r lo hi] Let_def)
qed

lemma to_search_bsearch:
  "hi \<le> length rs \<Longrightarrow> to_search cas r rs lo hi =
     (case bsearch (to_ivs rs) r lo hi of None \<Rightarrow> r | Some m \<Rightarrow> case_shift cas (rs ! m) r)"
proof (induction cas r rs lo hi rule: to_search.induct)
  case (1 cas r rs lo hi)
  have "lo < hi \<Longrightarrow> lo + (hi - lo) div 2 < length rs" using 1(3) by linarith
  then show ?case
    using 1 by (simp add: to_search.simps [of cas r rs lo hi] bsearch.simps [of "to_ivs rs" r lo hi] Let_def
        case_shift_def)
qed

section \<open>Membership in a table\<close>

definition in_ranges :: "Range list \<Rightarrow> int \<Rightarrow> bool" where
  "in_ranges rs r \<longleftrightarrow> list_ex (\<lambda>g. Lo g \<le> r \<and> r \<le> Hi g \<and> (r - Lo g) mod Stride g = 0) rs"

definition wf_ranges :: "int \<Rightarrow> Range list \<Rightarrow> bool" where
  "wf_ranges k rs \<longleftrightarrow> wf_ivs k (Is_ivs rs) \<and> list_all (\<lambda>g. 0 < Stride g) rs"

lemma wf_ranges_lower: "wf_ranges k rs \<Longrightarrow> g \<in> set rs \<Longrightarrow> k \<le> Lo g \<and> Lo g \<le> Hi g \<and> 0 < Stride g"
  using wf_ivs_lower [of k "Is_ivs rs" "Lo g" "Hi g"] by (auto simp: wf_ranges_def Is_ivs_def list_all_iff)

lemma in_ranges_below: "wf_ranges k rs \<Longrightarrow> r < k \<Longrightarrow> \<not> in_ranges rs r"
  unfolding in_ranges_def list_ex_iff using wf_ranges_lower by fastforce

lemma smod_stride: "Lo g \<le> r \<Longrightarrow> 0 < Stride g \<Longrightarrow> (r - Lo g) smod Stride g = (r - Lo g) mod Stride g"
  by (simp add: signed_modulo_int_def sgn_if)

lemma wf_ranges_Cons:
  "wf_ranges k (g # rs) \<longleftrightarrow> k \<le> Lo g \<and> Lo g \<le> Hi g \<and> 0 < Stride g \<and> wf_ranges (Hi g + 1) rs"
  by (auto simp: wf_ranges_def Is_ivs_def)

lemma Is_latin1_in: "wf_ranges k rs \<Longrightarrow> Is_latin1 rs r = in_ranges rs r"
proof (induction rs arbitrary: k)
  case (Cons g rs)
  then have b: "r < Hi g + 1 \<Longrightarrow> \<not> in_ranges rs r" using in_ranges_below by (auto simp: wf_ranges_Cons)
  have "in_ranges (g # rs) r \<longleftrightarrow> Lo g \<le> r \<and> r \<le> Hi g \<and> (r - Lo g) mod Stride g = 0 \<or> in_ranges rs r"
    by (simp add: in_ranges_def)
  then show ?case using Cons b by (auto simp: smod_stride wf_ranges_Cons)
qed (simp add: in_ranges_def)

lemma Is_search_in:
  assumes wf: "wf_ranges k rs"
  shows "Is_search rs r 0 (length rs) = in_ranges rs r"
proof -
  let ?ivs = "Is_ivs rs"
  have ivs: "wf_ivs k ?ivs" "length ?ivs = length rs" "\<And>i. i < length rs \<Longrightarrow> ?ivs ! i = (Lo (rs ! i), Hi (rs ! i))"
    using wf by (simp_all add: wf_ranges_def)
  have eq: "Is_search rs r 0 (length rs) = (case bsearch ?ivs r 0 (length rs) of None \<Rightarrow> False |
      Some m \<Rightarrow> (r - Lo (rs ! m)) smod Stride (rs ! m) = 0)" by (simp add: Is_search_bsearch)
  show ?thesis
  proof
    assume "Is_search rs r 0 (length rs)"
    then obtain m where m: "bsearch ?ivs r 0 (length rs) = Some m" "(r - Lo (rs ! m)) smod Stride (rs ! m) = 0"
      unfolding eq by (cases "bsearch ?ivs r 0 (length rs)") auto
    have "m < length rs" "Lo (rs ! m) \<le> r" "r \<le> Hi (rs ! m)" using bsearch_sound [OF m(1)] ivs(3) by auto
    moreover have "0 < Stride (rs ! m)" using wf_ranges_lower [OF wf nth_mem [of m rs]] calculation by simp
    ultimately show "in_ranges rs r"
      using m(2) unfolding in_ranges_def list_ex_length by (intro exI [of _ m]) (simp add: smod_stride)
  next
    assume "in_ranges rs r"
    then obtain i where i: "i < length rs" "Lo (rs ! i) \<le> r" "r \<le> Hi (rs ! i)" "(r - Lo (rs ! i)) mod Stride (rs ! i) = 0"
      unfolding in_ranges_def list_ex_length by auto
    have "bsearch ?ivs r 0 (length rs) = Some i" using i ivs by (intro bsearch_complete [OF ivs(1)]) simp_all
    moreover have "0 < Stride (rs ! i)" using wf_ranges_lower [OF wf nth_mem [of i rs]] i by simp
    ultimately show "Is_search rs r 0 (length rs)" unfolding eq using i by (simp add: smod_stride)
  qed
qed

lemma Is_in_ranges: "wf_ranges k rs \<Longrightarrow> Is rs r = in_ranges rs r"
  unfolding Is_def using Is_latin1_in Is_search_in by simp

lemma tables_wf:
  "wf_ranges 0 Upper" "wf_ranges 0 Lower" "wf_ranges 0x80 Title" "wf_ranges 0 Letter" "wf_ranges 0 Digit"
  "wf_ranges 0 White_Space"
  by code_simp+

text \<open>Below \<open>n\<close> a table and a fast path agree when they agree on the code points from 0 to \<open>n - 1\<close>.\<close>

lemma below_check:
  assumes "list_all P [0..n - 1]" "0 \<le> r" "r < n"
  shows "P (r :: int)"
  using assms by (simp add: list_all_iff)

lemma latin1_check:
  assumes "wf_ranges 0 rs" "list_all (\<lambda>r. Is_latin1 rs r = f r) [0..n - 1]" "r < n" "r < 0 \<Longrightarrow> \<not> f r"
  shows "f r = in_ranges rs r"
proof (cases "r < 0")
  case True
  then show ?thesis using in_ranges_below [OF assms(1)] assms(4) by simp
next
  case False
  then show ?thesis using below_check [OF assms(2)] assms(3) Is_latin1_in [OF assms(1)] by simp
qed

lemma latin1_tables:
  "list_all (\<lambda>r. Is_latin1 Upper r = (0x41 \<le> r \<and> r \<le> 0x5A)) [0..0x80 - 1]"
  "list_all (\<lambda>r. Is_latin1 Lower r = (0x61 \<le> r \<and> r \<le> 0x7A)) [0..0x80 - 1]"
  "list_all (\<lambda>r. Is_latin1 Letter r = (let r = r AND NOT (0x61 - 0x41) in 0x41 \<le> r \<and> r \<le> 0x5A)) [0..0x80 - 1]"
  "list_all (\<lambda>r. Is_latin1 Digit r = (0x30 \<le> r \<and> r \<le> 0x39)) [0..0x100 - 1]"
  "list_all (\<lambda>r. Is_latin1 White_Space r = (r \<in> {0x09, 0x0A, 0x0B, 0x0C, 0x0D, 0x20, 0x85, 0xA0})) [0..0x100 - 1]"
  by code_simp+

lemma IsUpper_in: "IsUpper r = in_ranges Upper r"
  using latin1_check [OF tables_wf(1) latin1_tables(1), of r]
  by (auto simp: IsUpper_def Is_in_ranges [OF tables_wf(1)])

lemma IsLower_in: "IsLower r = in_ranges Lower r"
  using latin1_check [OF tables_wf(2) latin1_tables(2), of r]
  by (auto simp: IsLower_def Is_in_ranges [OF tables_wf(2)])

lemma IsTitle_in: "IsTitle r = in_ranges Title r"
  using in_ranges_below [OF tables_wf(3), of r] by (simp add: IsTitle_def Is_in_ranges [OF tables_wf(3)])

lemma IsLetter_in: "IsLetter r = in_ranges Letter r"
proof (cases "r < 0x80")
  case True
  have "\<not> (let r = r AND NOT (0x61 - 0x41) in 0x41 \<le> r \<and> r \<le> 0x5A)" if "r < 0"
  proof -
    define x where "x = r AND NOT (0x61 - 0x41)"
    have "x < 0" using that unfolding x_def by (simp only: and_negative_int_iff) simp
    then show ?thesis unfolding x_def [symmetric] by (simp add: Let_def)
  qed
  from latin1_check [OF tables_wf(4) latin1_tables(3) _ this] True show ?thesis by (simp add: IsLetter_def)
qed (simp add: IsLetter_def Is_in_ranges [OF tables_wf(4)])

lemma IsDigit_in: "IsDigit r = in_ranges Digit r"
  using latin1_check [OF tables_wf(5) latin1_tables(4), of r]
  by (auto simp: IsDigit_def Is_in_ranges [OF tables_wf(5)])

lemma IsSpace_in: "IsSpace r = in_ranges White_Space r"
  using latin1_check [OF tables_wf(6) latin1_tables(5), of r]
  by (cases "r < 0x100") (simp_all add: IsSpace_def Is_in_ranges [OF tables_wf(6)])

section \<open>Case mappings\<close>

text \<open>The specification of \<open>to\<close>: the shift of the first range that holds the rune.\<close>

definition case_of :: "nat \<Rightarrow> CaseRange list \<Rightarrow> int \<Rightarrow> int" where
  "case_of cas rs r =
     (case find (\<lambda>g. c_Lo g \<le> r \<and> r \<le> c_Hi g) rs of None \<Rightarrow> r | Some g \<Rightarrow> case_shift cas g r)"

lemma to_case_of:
  assumes "wf_ivs k (to_ivs rs)" "cas < MaxCase"
  shows "to_case (int cas) r rs = case_of cas rs r"
proof -
  let ?P = "\<lambda>g. c_Lo g \<le> r \<and> r \<le> c_Hi g"
  have eq: "to_case (int cas) r rs = (case bsearch (to_ivs rs) r 0 (length rs) of None \<Rightarrow> r |
      Some m \<Rightarrow> case_shift cas (rs ! m) r)"
    using assms(2) by (simp add: to_case_def to_search_bsearch)
  show ?thesis
  proof (cases "find ?P rs")
    case None
    then have "\<not> ?P (rs ! i)" if "i < length rs" for i using that by (simp add: find_None_iff)
    then have "bsearch (to_ivs rs) r 0 (length rs) = None"
      using bsearch_sound [of "to_ivs rs" r 0 "length rs"]
      by (cases "bsearch (to_ivs rs) r 0 (length rs)") auto
    then show ?thesis using None by (simp add: eq case_of_def)
  next
    case (Some g)
    then obtain i where i: "i < length rs" "?P (rs ! i)" "g = rs ! i" by (auto simp: find_Some_iff)
    have "bsearch (to_ivs rs) r 0 (length rs) = Some i"
      by (rule bsearch_complete [OF assms(1)]) (use i in simp_all)
    then show ?thesis using Some i by (simp add: eq case_of_def)
  qed
qed

lemma CaseRanges_wf: "wf_ivs 0 (to_ivs CaseRanges)"
  by code_simp

definition case_ok :: "nat \<Rightarrow> CaseRange \<Rightarrow> bool" where
  "case_ok cas g \<longleftrightarrow> 0 \<le> c_Lo g \<and> c_Hi g \<le> MaxRune \<and>
     (if Delta g ! cas > MaxRune then (c_Hi g - c_Lo g) mod 2 = 1
      else 0 \<le> c_Lo g + Delta g ! cas \<and> c_Hi g + Delta g ! cas \<le> MaxRune)"

lemma CaseRanges_ok: "list_all (\<lambda>g. case_ok 0 g \<and> case_ok 1 g \<and> case_ok 2 g) CaseRanges"
  by code_simp

lemma alternate: "((x :: int) AND - 2) OR (c AND 1) = x - x mod 2 + c mod 2"
proof -
  have "x AND NOT 1 = push_bit 1 (drop_bit 1 x)"
    by (rule bit_eqI) (simp only: bit_simps, auto)
  also have "NOT 1 = (- 2 :: int)" by simp
  finally have x: "x AND - 2 = push_bit 1 (drop_bit 1 x)" .
  have "drop_bit 1 x * 2 ^ 1 = x - x mod 2"
    by (simp add: drop_bit_Suc minus_mod_eq_mult_div mult.commute)
  then show ?thesis unfolding x
    using or_push_bit_add [of "c AND 1" 1 "drop_bit 1 x"] by (simp only: and_one_eq) simp
qed

lemma case_shift_bounds:
  assumes "c_Lo g \<le> r" "r \<le> c_Hi g" "case_ok cas g"
  shows "0 \<le> case_shift cas g r \<and> case_shift cas g r \<le> MaxRune"
proof (cases "Delta g ! cas > MaxRune")
  case True
  define x where "x = r - c_Lo g"
  define y where "y = x - x mod 2 + int cas mod 2"
  have b: "0 \<le> x" "x \<le> c_Hi g - c_Lo g" "(c_Hi g - c_Lo g) mod 2 = 1"
    using assms True by (simp_all add: x_def case_ok_def)
  have "0 \<le> y" "y \<le> c_Hi g - c_Lo g" unfolding y_def using b by presburger+
  moreover have "case_shift cas g r = c_Lo g + y" using True by (simp add: case_shift_def alternate x_def y_def)
  ultimately show ?thesis using assms(3) by (simp add: case_ok_def)
next
  case False
  then show ?thesis using assms by (simp add: case_ok_def case_shift_def)
qed

lemma case_of_bounds:
  assumes "cas < MaxCase" "0 \<le> r" "r \<le> MaxRune"
  shows "0 \<le> case_of cas CaseRanges r \<and> case_of cas CaseRanges r \<le> MaxRune"
proof (cases "find (\<lambda>g. c_Lo g \<le> r \<and> r \<le> c_Hi g) CaseRanges")
  case None
  then show ?thesis using assms by (simp add: case_of_def)
next
  case (Some g)
  then have g: "g \<in> set CaseRanges" "c_Lo g \<le> r" "r \<le> c_Hi g" by (auto simp: find_Some_iff)
  have "case_ok cas g" using CaseRanges_ok g(1) assms(1)
    by (auto simp: list_all_iff MaxCase_def eval_nat_numeral less_Suc_eq)
  then show ?thesis using case_shift_bounds [OF g(2,3)] Some by (simp add: case_of_def)
qed

lemma To_case_of: "cas < MaxCase \<Longrightarrow> To (int cas) r = case_of cas CaseRanges r"
  by (simp add: To_def to_case_of [OF CaseRanges_wf])

lemma CaseRanges_ascii:
  "take 2 CaseRanges = [cr 0x41 0x5A [0, 32, 0], cr 0x61 0x7A [-32, 0, -32]]"
  "wf_ivs 0x80 (to_ivs (drop 2 CaseRanges))"
  by code_simp+

lemma find_below: "wf_ivs k (to_ivs rs) \<Longrightarrow> r < k \<Longrightarrow> find (\<lambda>g. c_Lo g \<le> r \<and> r \<le> c_Hi g) rs = None"
  using wf_ivs_lower [of k "to_ivs rs"] by (fastforce simp: find_None_iff to_ivs_def)

lemma find_append: "find P (xs @ ys) = (case find P xs of None \<Rightarrow> find P ys | Some x \<Rightarrow> Some x)"
  by (induction xs) auto

lemma case_of_ascii:
  assumes "r < 0x80"
  shows "case_of cas CaseRanges r = case_of cas [cr 0x41 0x5A [0, 32, 0], cr 0x61 0x7A [-32, 0, -32]] r"
proof -
  have "CaseRanges = [cr 0x41 0x5A [0, 32, 0], cr 0x61 0x7A [-32, 0, -32]] @ drop 2 CaseRanges"
    unfolding CaseRanges_ascii(1) [symmetric] by simp
  then have "find P CaseRanges = (case find P [cr 0x41 0x5A [0, 32, 0], cr 0x61 0x7A [-32, 0, -32]] of
      None \<Rightarrow> find P (drop 2 CaseRanges) | Some x \<Rightarrow> Some x)" for P
    using find_append by metis
  then show ?thesis
    using find_below [OF CaseRanges_ascii(2) assms] by (simp add: case_of_def split: option.split)
qed

lemma To_cases:
  "ToUpper r = case_of 0 CaseRanges r" "ToLower r = case_of 1 CaseRanges r" "ToTitle r = case_of 2 CaseRanges r"
proof -
  note To_case_of [of 0 r] To_case_of [of 1 r] To_case_of [of 2 r]
  then have t: "To 0 r = case_of 0 CaseRanges r" "To 1 r = case_of 1 CaseRanges r" "To 2 r = case_of 2 CaseRanges r"
    by (simp_all add: MaxCase_def)
  note defs = UpperCase_def LowerCase_def TitleCase_def
  show "ToUpper r = case_of 0 CaseRanges r"
    by (cases "r < 0x80") (simp add: ToUpper_def case_of_ascii, simp add: case_of_def case_shift_def MaxRune_def,
        simp add: ToUpper_def t defs)
  show "ToLower r = case_of 1 CaseRanges r"
    by (cases "r < 0x80") (simp add: ToLower_def case_of_ascii, simp add: case_of_def case_shift_def MaxRune_def,
        simp add: ToLower_def t defs)
  show "ToTitle r = case_of 2 CaseRanges r"
    by (cases "r < 0x80") (simp add: ToTitle_def case_of_ascii, simp add: case_of_def case_shift_def MaxRune_def,
        simp add: ToTitle_def t defs)
qed

section \<open>Properties\<close>

text \<open>C40: The classification functions decide membership in their tables, for every integer: the linear Latin-1
  scan, the binary search and the ASCII fast paths all agree with the set of code points that the
  table stands for.\<close>

theorem Is_tables:
  "IsUpper r = in_ranges Upper r \<and> IsLower r = in_ranges Lower r \<and> IsTitle r = in_ranges Title r \<and>
   IsLetter r = in_ranges Letter r \<and> IsDigit r = in_ranges Digit r \<and> IsSpace r = in_ranges White_Space r"
  by (simp add: IsUpper_in IsLower_in IsTitle_in IsLetter_in IsDigit_in IsSpace_in)

text \<open>The case mappings. For every rune, \<open>ToUpper\<close>, \<open>ToLower\<close> and \<open>ToTitle\<close> (fast paths included) are the lookup of
  the rune in \<open>CaseRanges\<close>, and they map code points to code points; \<open>To\<close> with an unknown case is the
  replacement character.\<close>

theorem case_maps:
  assumes "0 \<le> r" "r \<le> MaxRune"
  shows "ToUpper r = case_of UpperCase CaseRanges r \<and> 0 \<le> ToUpper r \<and> ToUpper r \<le> MaxRune \<and>
     ToLower r = case_of LowerCase CaseRanges r \<and> 0 \<le> ToLower r \<and> ToLower r \<le> MaxRune \<and>
     ToTitle r = case_of TitleCase CaseRanges r \<and> 0 \<le> ToTitle r \<and> ToTitle r \<le> MaxRune \<and>
     (c < 0 \<or> 3 \<le> c \<longrightarrow> To c r = ReplacementChar)"
  using case_of_bounds [OF _ assms, of 0] case_of_bounds [OF _ assms, of 1] case_of_bounds [OF _ assms, of 2]
  by (auto simp: To_cases UpperCase_def LowerCase_def TitleCase_def MaxCase_def To_def to_case_def)

theorem case_maps_witness: "0 \<le> ToUpper 0xE9 \<and> ToUpper 0xE9 \<le> MaxRune \<and> To 7 0xE9 = ReplacementChar"
  using case_maps [where r = "0xE9" and c = 7] by (simp add: MaxRune_def)

end
