(* ===== verification/Strings.thy ===== *)
theory Strings
  imports Unicode
begin

text \<open>
  Package strings (\<open>strings.go\<close>, \<open>reader.go\<close>): searching, splitting and joining, trimming, mapping
  and replacing. Loops that return from their middle are \<^const>\<open>for_find\<close>; the buffers that the code
  fills byte by byte are lists written with bounds checks, so a length computed wrongly would be a
  panic; lengths that a caller can make overflow (\<open>Join\<close>, \<open>Repeat\<close>, \<open>Replace\<close>) are 32-bit.
  A function that takes a \<open>func(rune int) bool\<close> takes a HOL predicate.
\<close>

section \<open>Runes of a string\<close>

text \<open>The conversion \<open>string(rune)\<close> (\<open>runetochar\<close> of the run-time system) and the index and rune of each
  iteration of \<open>for i, c := range s\<close>.\<close>

definition runetochar :: "int \<Rightarrow> gostring" where
  "runetochar rune = (let c = rune mod 2 ^ 32 in
     if c \<le> 0x7F then [go_byte c]
     else if c \<le> 0x7FF then [0xC0 OR go_byte (drop_bit 6 c), 0x80 OR (go_byte c AND 0x3F)]
     else let c = (if c > MaxRune then RuneError else c) in
     if c \<le> 0xFFFF then
       [0xE0 OR go_byte (drop_bit 12 c), 0x80 OR (go_byte (drop_bit 6 c) AND 0x3F), 0x80 OR (go_byte c AND 0x3F)]
     else
       [0xF0 OR go_byte (drop_bit 18 c), 0x80 OR (go_byte (drop_bit 12 c) AND 0x3F),
        0x80 OR (go_byte (drop_bit 6 c) AND 0x3F), 0x80 OR (go_byte c AND 0x3F)])"

fun range_from :: "nat \<Rightarrow> (int \<times> nat) list \<Rightarrow> (nat \<times> int) list" where
  "range_from i [] = []"
| "range_from i ((r, w) # rs) = (i, r) # range_from (i + w) rs"

definition range_clause :: "gostring \<Rightarrow> (nat \<times> int) list" where
  "range_clause s = range_from 0 (range_string s)"

section \<open>Searching\<close>

fun explode_loop :: "gostring \<Rightarrow> nat \<Rightarrow> nat \<Rightarrow> nat \<Rightarrow> gostring list \<Rightarrow> (gostring list \<times> nat \<times> nat) option" where
  "explode_loop s 0 i cur a = Some (a, i, cur)"
| "explode_loop s (Suc m) i cur a = do {
     t \<leftarrow> go_slice s (int cur) (int (length s));
     let (rune, size) = DecodeRuneInString t;
     a \<leftarrow> go_set a (int i) (runetochar rune);
     explode_loop s m (i + 1) (cur + size) a
   }"

definition explode :: "gostring \<Rightarrow> int \<Rightarrow> gostring list option" where
  "explode s n =
     (if n = 0 then Some []
      else let l = int (RuneCountInString s); n = (if n \<le> 0 \<or> n > l then l else n) in do {
        a \<leftarrow> go_make 8 n [];
        (a, i, cur) \<leftarrow> explode_loop s (nat n - 1) 0 0 a;
        (if cur < length s then do {
           t \<leftarrow> go_slice s (int cur) (int (length s));
           go_set a (int i) t
         } else Some a)
      })"

function Count_loop :: "gostring \<Rightarrow> gostring \<Rightarrow> nat \<Rightarrow> nat \<Rightarrow> nat" where
  "Count_loop s sep i n =
     (if i + length sep \<le> length s then
        (if s ! i = sep ! 0 \<and> slice i (i + length sep) s = sep
         then Count_loop s sep (i + (length sep - 1) + 1) (n + 1)
         else Count_loop s sep (i + 1) n)
      else n)"
  by pat_completeness auto
termination
  by (relation "measure (\<lambda>(s, sep, i, n). length s + 1 - i)") auto

declare Count_loop.simps [simp del]

definition Count :: "gostring \<Rightarrow> gostring \<Rightarrow> nat" where
  "Count s sep =
     (if sep = [] then RuneCountInString s + 1
      else if length sep = 1 then length (filter (\<lambda>b. b = sep ! 0) s)
      else Count_loop s sep 0 0)"

definition Index :: "gostring \<Rightarrow> gostring \<Rightarrow> int" where
  "Index s sep = (let n = length sep in
     if n = 0 then 0 else let c = sep ! 0 in
     if n = 1 then for_find (\<lambda>i. s ! i = c) 0 (length s)
     else for_find (\<lambda>i. s ! i = c \<and> slice i (i + n) s = sep) 0 (length s + 1 - n))"

definition Contains :: "gostring \<Rightarrow> gostring \<Rightarrow> bool" where
  "Contains s substr \<longleftrightarrow> Index s substr \<noteq> -1"

definition LastIndex :: "gostring \<Rightarrow> gostring \<Rightarrow> int" where
  "LastIndex s sep = (let n = length sep in
     if n = 0 then int (length s) else let c = sep ! 0 in
     if n = 1 then for_find_down (\<lambda>i. s ! i = c) (length s)
     else for_find_down (\<lambda>i. s ! i = c \<and> slice i (i + n) s = sep) (length s + 1 - n))"

fun IndexRune_range :: "(nat \<times> int) list \<Rightarrow> int \<Rightarrow> int" where
  "IndexRune_range [] rune = -1"
| "IndexRune_range ((i, c) # rs) rune = (if c = rune then int i else IndexRune_range rs rune)"

definition IndexRune :: "gostring \<Rightarrow> int \<Rightarrow> int" where
  "IndexRune s rune =
     (if rune < 0x80 then for_find (\<lambda>i. s ! i = go_byte rune) 0 (length s)
      else IndexRune_range (range_clause s) rune)"

fun IndexAny_range :: "(nat \<times> int) list \<Rightarrow> gostring \<Rightarrow> int" where
  "IndexAny_range [] chars = -1"
| "IndexAny_range ((i, c) # rs) chars =
     (if list_ex (\<lambda>(j, m). c = m) (range_clause chars) then int i else IndexAny_range rs chars)"

definition IndexAny :: "gostring \<Rightarrow> gostring \<Rightarrow> int" where
  "IndexAny s chars = (if length chars > 0 then IndexAny_range (range_clause s) chars else -1)"

text \<open>The loops that decode backward return the index or -1; \<^term>\<open>None\<close> is the panic of a slice out of range.\<close>

lemma decode_all_widths: "(r, w) \<in> set (decode_all p) \<Longrightarrow> 0 < w \<and> w \<le> length p"
proof (induction p rule: decode_all_induct)
  case (Rune p r' n)
  then show ?case by (auto simp: decode_all_rec)
qed simp

lemma DecodeLastRune_pos: "p \<noteq> [] \<Longrightarrow> DecodeLastRuneInString p = Some d \<Longrightarrow> 0 < snd d \<and> snd d \<le> length p"
proof -
  assume p: "p \<noteq> []" and d: "DecodeLastRuneInString p = Some d"
  then have "d = last (decode_all p)" "decode_all p \<noteq> []"
    using DecodeLastRune_last [OF p] by (auto simp: DecodeLastRuneInString_eq decode_all.simps [of p])
  then have "(fst d, snd d) \<in> set (decode_all p)" by simp
  from decode_all_widths [OF this] show ?thesis .
qed

function LastIndexAny_loop :: "gostring \<Rightarrow> gostring \<Rightarrow> nat \<Rightarrow> int option" where
  "LastIndexAny_loop s chars i =
     (if i > 0 then do {
        t \<leftarrow> (if i \<le> length s then Some (take i s) else None);
        d \<leftarrow> DecodeLastRuneInString t;
        if list_ex (\<lambda>(j, m). fst d = m) (range_clause chars) then Some (int (i - snd d))
        else LastIndexAny_loop s chars (i - snd d)
      } else Some (-1))"
  by pat_completeness auto
termination
  by (relation "measure (\<lambda>(s, chars, i). i)")
    (auto split: if_splits dest!: DecodeLastRune_pos [rotated])

declare LastIndexAny_loop.simps [simp del]

definition LastIndexAny :: "gostring \<Rightarrow> gostring \<Rightarrow> int option" where
  "LastIndexAny s chars = (if length chars > 0 then LastIndexAny_loop s chars (length s) else Some (-1))"

section \<open>Splitting and joining\<close>

function genSplit_loop :: "gostring \<Rightarrow> gostring \<Rightarrow> nat \<Rightarrow> nat \<Rightarrow> nat \<Rightarrow> nat \<Rightarrow> nat \<Rightarrow> gostring list \<Rightarrow>
    (gostring list \<times> nat \<times> nat) option" where
  "genSplit_loop s sep sepSave n i start na a =
     (if i + length sep \<le> length s \<and> na + 1 < n then
        (if s ! i = sep ! 0 \<and> (length sep = 1 \<or> slice i (i + length sep) s = sep) then do {
           t \<leftarrow> go_slice s (int start) (int (i + sepSave));
           a \<leftarrow> go_set a (int na) t;
           genSplit_loop s sep sepSave n (i + (length sep - 1) + 1) (i + length sep) (na + 1) a
         } else genSplit_loop s sep sepSave n (i + 1) start na a)
      else Some (a, na, start))"
  by pat_completeness auto
termination
  by (relation "measure (\<lambda>(s, sep, sepSave, n, i, start, na, a). length s + 1 - i)") auto

declare genSplit_loop.simps [simp del]

definition genSplit :: "gostring \<Rightarrow> gostring \<Rightarrow> nat \<Rightarrow> int \<Rightarrow> gostring list option" where
  "genSplit s sep sepSave n =
     (if n = 0 then Some []
      else if sep = [] then explode s n
      else let n = (if n < 0 then int (Count s sep) + 1 else n) in do {
        a \<leftarrow> go_make 8 n [];
        (a, na, start) \<leftarrow> genSplit_loop s sep sepSave (nat n) 0 0 0 a;
        t \<leftarrow> go_slice s (int start) (int (length s));
        a \<leftarrow> go_set a (int na) t;
        go_slice a 0 (int (na + 1))
      })"

definition Split :: "gostring \<Rightarrow> gostring \<Rightarrow> int \<Rightarrow> gostring list option" where
  "Split s sep n = genSplit s sep 0 n"

definition SplitAfter :: "gostring \<Rightarrow> gostring \<Rightarrow> int \<Rightarrow> gostring list option" where
  "SplitAfter s sep n = genSplit s sep (length sep) n"

fun FieldsFunc_count :: "(int \<Rightarrow> bool) \<Rightarrow> (nat \<times> int) list \<Rightarrow> bool \<Rightarrow> nat \<Rightarrow> nat" where
  "FieldsFunc_count f [] inField n = n"
| "FieldsFunc_count f ((i, rune) # rs) inField n = (let wasInField = inField; inField = (\<not> f rune) in
     FieldsFunc_count f rs inField (if inField \<and> \<not> wasInField then n + 1 else n))"

fun FieldsFunc_loop :: "gostring \<Rightarrow> (int \<Rightarrow> bool) \<Rightarrow> (nat \<times> int) list \<Rightarrow> gostring list \<Rightarrow> nat \<Rightarrow> int \<Rightarrow>
    (gostring list \<times> nat \<times> int) option" where
  "FieldsFunc_loop s f [] a na fieldStart = Some (a, na, fieldStart)"
| "FieldsFunc_loop s f ((i, rune) # rs) a na fieldStart =
     (if f rune then
        (if fieldStart \<ge> 0 then do {
           t \<leftarrow> go_slice s fieldStart (int i);
           a \<leftarrow> go_set a (int na) t;
           FieldsFunc_loop s f rs a (na + 1) (-1)
         } else FieldsFunc_loop s f rs a na fieldStart)
      else if fieldStart = -1 then FieldsFunc_loop s f rs a na (int i)
      else FieldsFunc_loop s f rs a na fieldStart)"

definition FieldsFunc :: "gostring \<Rightarrow> (int \<Rightarrow> bool) \<Rightarrow> gostring list option" where
  "FieldsFunc s f = do {
     let n = FieldsFunc_count f (range_clause s) False 0;
     a \<leftarrow> go_make 8 (int n) [];
     (a, na, fieldStart) \<leftarrow> FieldsFunc_loop s f (range_clause s) a 0 (-1);
     (if fieldStart \<noteq> -1 then do {
        t \<leftarrow> go_slice s fieldStart (int (length s));
        go_set a (int na) t
      } else Some a)
   }"

definition Fields :: "gostring \<Rightarrow> gostring list option" where
  "Fields s = FieldsFunc s IsSpace"

fun Join_loop :: "gostring \<Rightarrow> nat \<Rightarrow> gostring list \<Rightarrow> gostring \<Rightarrow> gostring option" where
  "Join_loop b bp [] sep = Some b"
| "Join_loop b bp (s # a) sep = do {
     (b, bp) \<leftarrow> put_bytes b bp s;
     (b, bp) \<leftarrow> (if a \<noteq> [] then put_bytes b bp sep else Some (b, bp));
     Join_loop b bp a sep
   }"

definition Join :: "gostring list \<Rightarrow> gostring \<Rightarrow> gostring option" where
  "Join a sep =
     (if length a = 0 then Some []
      else if length a = 1 then Some (a ! 0)
      else do {
        b \<leftarrow> go_make 1 (int32 (int (length sep * (length a - 1) + sum_list (map length a)))) 0;
        Join_loop b 0 a sep
      })"

definition HasPrefix :: "gostring \<Rightarrow> gostring \<Rightarrow> bool" where
  "HasPrefix s prefix \<longleftrightarrow> length s \<ge> length prefix \<and> slice 0 (length prefix) s = prefix"

definition HasSuffix :: "gostring \<Rightarrow> gostring \<Rightarrow> bool" where
  "HasSuffix s suffix \<longleftrightarrow> length s \<ge> length suffix \<and> slice (length s - length suffix) (length s) s = suffix"

section \<open>Mapping\<close>

text \<open>\<open>Map\<close> calls its argument once for each rune, in order. The argument may be a closure with a state
  (\<open>Title\<close> uses one): it is a function of the state.\<close>

definition Map_put :: "gostring \<Rightarrow> nat \<Rightarrow> nat \<Rightarrow> int \<Rightarrow> (gostring \<times> nat \<times> nat) option" where
  "Map_put b maxbytes nbytes rune = do {
     let wid = (if rune \<ge> 0x80 then RuneLen rune else 1);
     (b, maxbytes) \<leftarrow>
       (if int32 (int nbytes + wid) > int maxbytes then do {
          let maxbytes = int32 (int maxbytes * 2 + UTFMax);
          nb \<leftarrow> go_make 1 maxbytes 0;
          t \<leftarrow> go_slice b 0 (int nbytes);
          (nb, _) \<leftarrow> go_copy nb 0 t;
          Some (nb, nat maxbytes)
        } else Some (b, maxbytes));
     t \<leftarrow> go_slice b (int nbytes) (int maxbytes);
     (t, w) \<leftarrow> EncodeRune t rune;
     Some (take nbytes b @ t, maxbytes, nbytes + w)
   }"

fun Map_loop :: "('s \<Rightarrow> int \<Rightarrow> int \<times> 's) \<Rightarrow> (nat \<times> int) list \<Rightarrow> 's \<Rightarrow> gostring \<Rightarrow> nat \<Rightarrow> nat \<Rightarrow>
    (gostring \<times> nat) option" where
  "Map_loop mapping [] st b maxbytes nbytes = Some (b, nbytes)"
| "Map_loop mapping ((i, c) # rs) st b maxbytes nbytes = (let (rune, st) = mapping st c in
     if rune \<ge> 0 then do {
       (b, maxbytes, nbytes) \<leftarrow> Map_put b maxbytes nbytes rune;
       Map_loop mapping rs st b maxbytes nbytes
     } else Map_loop mapping rs st b maxbytes nbytes)"

definition Map_closure :: "('s \<Rightarrow> int \<Rightarrow> int \<times> 's) \<Rightarrow> 's \<Rightarrow> gostring \<Rightarrow> gostring option" where
  "Map_closure mapping st s = do {
     let maxbytes = length s;
     b \<leftarrow> go_make 1 (int maxbytes) 0;
     (b, nbytes) \<leftarrow> Map_loop mapping (range_clause s) st b maxbytes 0;
     go_slice b 0 (int nbytes)
   }"

definition Map :: "(int \<Rightarrow> int) \<Rightarrow> gostring \<Rightarrow> gostring option" where
  "Map mapping s = Map_closure (\<lambda>_ r. (mapping r, ())) () s"

fun Repeat_loop :: "gostring \<Rightarrow> nat \<Rightarrow> gostring \<Rightarrow> nat \<Rightarrow> gostring option" where
  "Repeat_loop b bp s 0 = Some b"
| "Repeat_loop b bp s (Suc m) = do {
     (b, bp) \<leftarrow> put_bytes b bp s;
     Repeat_loop b bp s m
   }"

definition Repeat :: "gostring \<Rightarrow> int \<Rightarrow> gostring option" where
  "Repeat s n = do {
     b \<leftarrow> go_make 1 (int32 (int (length s) * n)) 0;
     Repeat_loop b 0 s (nat n)
   }"

definition strings_ToUpper :: "gostring \<Rightarrow> gostring option" where
  "strings_ToUpper s = Map ToUpper s"

definition strings_ToLower :: "gostring \<Rightarrow> gostring option" where
  "strings_ToLower s = Map ToLower s"

definition strings_ToTitle :: "gostring \<Rightarrow> gostring option" where
  "strings_ToTitle s = Map ToTitle s"

definition ToUpperSpecial :: "SpecialCase \<Rightarrow> gostring \<Rightarrow> gostring option" where
  "ToUpperSpecial cas s = Map (Special_ToUpper cas) s"

definition ToLowerSpecial :: "SpecialCase \<Rightarrow> gostring \<Rightarrow> gostring option" where
  "ToLowerSpecial cas s = Map (Special_ToLower cas) s"

definition ToTitleSpecial :: "SpecialCase \<Rightarrow> gostring \<Rightarrow> gostring option" where
  "ToTitleSpecial cas s = Map (Special_ToTitle cas) s"

definition isSeparator :: "int \<Rightarrow> bool" where
  "isSeparator rune =
     (if rune \<le> 0x7F then
        (if 0x30 \<le> rune \<and> rune \<le> 0x39 then False
         else if 0x61 \<le> rune \<and> rune \<le> 0x7A then False
         else if 0x41 \<le> rune \<and> rune \<le> 0x5A then False
         else if rune = 0x5F then False
         else True)
      else if IsLetter rune \<or> IsDigit rune then False
      else IsSpace rune)"

definition strings_Title :: "gostring \<Rightarrow> gostring option" where
  "strings_Title s = Map_closure (\<lambda>prev r. (if isSeparator prev then (ToTitle r, r) else (r, r))) 0x20 s"

section \<open>Trimming\<close>

function indexFunc_loop :: "gostring \<Rightarrow> (int \<Rightarrow> bool) \<Rightarrow> bool \<Rightarrow> nat \<Rightarrow> int" where
  "indexFunc_loop s f truth start =
     (if start < length s then
        let d = (if uint (s ! start) \<ge> 0x80 then DecodeRuneInString (drop start s) else (uint (s ! start), 1)) in
        if f (fst d) = truth then int start else indexFunc_loop s f truth (start + snd d)
      else -1)"
  by pat_completeness auto
termination
  by (relation "measure (\<lambda>(s, f, truth, start). length s - start)")
    (auto simp: DecodeRuneInString_eq intro!: diff_less_mono2 DecodeRune_pos)

declare indexFunc_loop.simps [simp del]

definition indexFunc :: "gostring \<Rightarrow> (int \<Rightarrow> bool) \<Rightarrow> bool \<Rightarrow> int" where
  "indexFunc s f truth = indexFunc_loop s f truth 0"

function lastIndexFunc_loop :: "gostring \<Rightarrow> (int \<Rightarrow> bool) \<Rightarrow> bool \<Rightarrow> nat \<Rightarrow> int option" where
  "lastIndexFunc_loop s f truth i =
     (if i > 0 then do {
        t \<leftarrow> (if i \<le> length s then Some (take i s) else None);
        d \<leftarrow> DecodeLastRuneInString t;
        if f (fst d) = truth then Some (int (i - snd d)) else lastIndexFunc_loop s f truth (i - snd d)
      } else Some (-1))"
  by pat_completeness auto
termination
  by (relation "measure (\<lambda>(s, f, truth, i). i)")
    (auto split: if_splits dest!: DecodeLastRune_pos [rotated])

declare lastIndexFunc_loop.simps [simp del]

definition lastIndexFunc :: "gostring \<Rightarrow> (int \<Rightarrow> bool) \<Rightarrow> bool \<Rightarrow> int option" where
  "lastIndexFunc s f truth = lastIndexFunc_loop s f truth (length s)"

definition IndexFunc :: "gostring \<Rightarrow> (int \<Rightarrow> bool) \<Rightarrow> int" where
  "IndexFunc s f = indexFunc s f True"

definition LastIndexFunc :: "gostring \<Rightarrow> (int \<Rightarrow> bool) \<Rightarrow> int option" where
  "LastIndexFunc s f = lastIndexFunc s f True"

definition TrimLeftFunc :: "gostring \<Rightarrow> (int \<Rightarrow> bool) \<Rightarrow> gostring option" where
  "TrimLeftFunc s f = (let i = indexFunc s f False in
     if i = -1 then Some [] else go_slice s i (int (length s)))"

definition TrimRightFunc :: "gostring \<Rightarrow> (int \<Rightarrow> bool) \<Rightarrow> gostring option" where
  "TrimRightFunc s f = do {
     i \<leftarrow> lastIndexFunc s f False;
     big \<leftarrow> (if i \<ge> 0 then map_option (\<lambda>b. b \<ge> 0x80) (go_index s i) else Some False);
     i \<leftarrow> (if big then do {
         t \<leftarrow> go_slice s i (int (length s));
         Some (i + int (snd (DecodeRuneInString t)))
       } else Some (i + 1));
     go_slice s 0 i
   }"

definition TrimFunc :: "gostring \<Rightarrow> (int \<Rightarrow> bool) \<Rightarrow> gostring option" where
  "TrimFunc s f = do { t \<leftarrow> TrimLeftFunc s f; TrimRightFunc t f }"

definition makeCutsetFunc :: "gostring \<Rightarrow> int \<Rightarrow> bool" where
  "makeCutsetFunc cutset = (\<lambda>rune. IndexRune cutset rune \<noteq> -1)"

definition Trim :: "gostring \<Rightarrow> gostring \<Rightarrow> gostring option" where
  "Trim s cutset = (if s = [] \<or> cutset = [] then Some s else TrimFunc s (makeCutsetFunc cutset))"

definition TrimLeft :: "gostring \<Rightarrow> gostring \<Rightarrow> gostring option" where
  "TrimLeft s cutset = (if s = [] \<or> cutset = [] then Some s else TrimLeftFunc s (makeCutsetFunc cutset))"

definition TrimRight :: "gostring \<Rightarrow> gostring \<Rightarrow> gostring option" where
  "TrimRight s cutset = (if s = [] \<or> cutset = [] then Some s else TrimRightFunc s (makeCutsetFunc cutset))"

definition TrimSpace :: "gostring \<Rightarrow> gostring option" where
  "TrimSpace s = TrimFunc s IsSpace"

section \<open>Replacing\<close>

fun Replace_loop :: "gostring \<Rightarrow> gostring \<Rightarrow> gostring \<Rightarrow> nat \<Rightarrow> nat \<Rightarrow> gostring \<Rightarrow> nat \<Rightarrow> nat \<Rightarrow>
    (gostring \<times> nat \<times> nat) option" where
  "Replace_loop s old new 0 i t w start = Some (t, w, start)"
| "Replace_loop s old new (Suc m) i t w start = do {
     rest \<leftarrow> go_slice s (int start) (int (length s));
     let j = (if length old = 0 then (if i > 0 then int start + int (snd (DecodeRuneInString rest)) else int start)
              else int start + Index rest old);
     u \<leftarrow> go_slice s (int start) j;
     (t, w) \<leftarrow> go_copy t w u;
     (t, w) \<leftarrow> go_copy t w new;
     Replace_loop s old new m (i + 1) t w (nat j + length old)
   }"

definition Replace :: "gostring \<Rightarrow> gostring \<Rightarrow> gostring \<Rightarrow> int \<Rightarrow> gostring option" where
  "Replace s old new n =
     (if old = new \<or> n = 0 then Some s
      else let m = int (Count s old) in
      if m = 0 then Some s
      else let n = (if n < 0 \<or> m < n then m else n) in do {
        t \<leftarrow> go_make 1 (int32 (int (length s) + n * (int (length new) - int (length old)))) 0;
        (t, w, start) \<leftarrow> Replace_loop s old new (nat n) 0 t 0 0;
        rest \<leftarrow> go_slice s (int start) (int (length s));
        (t, w) \<leftarrow> go_copy t w rest;
        go_slice t 0 (int w)
      })"

section \<open>Reader\<close>

text \<open>A \<open>Reader\<close> is the string that is left. \<open>Read\<close> fills a prefix of the caller's slice; the error is
  \<open>os.EOF\<close> (true) or nil.\<close>

type_synonym Reader = gostring

fun Reader_Read_loop :: "gostring \<Rightarrow> gostring \<Rightarrow> nat \<Rightarrow> nat \<Rightarrow> gostring \<times> nat" where
  "Reader_Read_loop s b n 0 = (b, n)"
| "Reader_Read_loop s b n (Suc m) =
     (if n < length s \<and> n < length b then Reader_Read_loop s (b[n := s ! n]) (n + 1) m else (b, n))"

definition Reader_Read :: "Reader \<Rightarrow> gostring \<Rightarrow> Reader \<times> gostring \<times> nat \<times> bool" where
  "Reader_Read s b =
     (if length s = 0 then (s, b, 0, True)
      else let (b, n) = Reader_Read_loop s b 0 (length s) in (drop n s, b, n, False))"

definition Reader_ReadByte :: "Reader \<Rightarrow> Reader \<times> byte \<times> bool" where
  "Reader_ReadByte s = (if length s = 0 then (s, 0, True) else (drop 1 s, s ! 0, False))"

definition Reader_ReadRune :: "Reader \<Rightarrow> Reader \<times> int \<times> nat \<times> bool" where
  "Reader_ReadRune s =
     (if length s = 0 then (s, 0, 0, True)
      else let c = s ! 0 in
      if c < RuneSelf then (drop 1 s, uint c, 1, False)
      else let (rune, size) = DecodeRuneInString s in (drop size s, rune, size, False))"

definition strings_NewReader :: "gostring \<Rightarrow> Reader" where
  "strings_NewReader s = s"

section \<open>Occurrences\<close>

definition occ :: "gostring \<Rightarrow> gostring \<Rightarrow> nat \<Rightarrow> bool" where
  "occ s sep i \<longleftrightarrow> i + length sep \<le> length s \<and> slice i (i + length sep) s = sep"

lemma occ_head: "sep \<noteq> [] \<Longrightarrow> occ s sep i \<Longrightarrow> s ! i = sep ! 0"
  unfolding occ_def by (metis add.right_neutral add_diff_cancel_left' length_greater_0_conv nth_slice)

lemma occ_match: "sep \<noteq> [] \<Longrightarrow> i + length sep \<le> length s \<Longrightarrow>
    s ! i = sep ! 0 \<and> slice i (i + length sep) s = sep \<longleftrightarrow> occ s sep i"
  using occ_head [of sep s i] by (auto simp: occ_def)

lemma occ_single: "length sep = 1 \<Longrightarrow> i < length s \<Longrightarrow> s ! i = sep ! 0 \<longleftrightarrow> occ s sep i"
  by (cases sep) (auto simp: occ_def slice_def take_Suc_conv_app_nth)

lemma occ_match_split: "sep \<noteq> [] \<Longrightarrow> i + length sep \<le> length s \<Longrightarrow>
    s ! i = sep ! 0 \<and> (length sep = 1 \<or> slice i (i + length sep) s = sep) \<longleftrightarrow> occ s sep i"
  using occ_match [of sep i s] occ_single [of sep i s] by (cases "length sep = 1") auto

lemma occ_search:
  assumes "sep \<noteq> []" "i < length s + 1 - length sep"
  shows "s ! i = sep ! 0 \<and> slice i (i + length sep) s = sep \<longleftrightarrow> occ s sep i"
  using occ_match [of sep i s] assms by simp

lemma occ_bound: "sep \<noteq> [] \<Longrightarrow> occ s sep i \<Longrightarrow> i < length s + 1 - length sep"
  by (auto simp: occ_def)

lemma Index_cases:
  assumes "sep \<noteq> []"
  shows "Index s sep = -1 \<and> (\<forall>i. \<not> occ s sep i) \<or>
    (\<exists>k. Index s sep = int k \<and> occ s sep k \<and> (\<forall>j < k. \<not> occ s sep j))"
proof -
  let ?n = "length s + 1 - length sep"
  have "Index s sep = for_find (occ s sep) 0 ?n"
  proof -
    have eq: "for_find P i n = for_find Q i n" if "\<And>k. i \<le> k \<Longrightarrow> k < i + n \<Longrightarrow> P k = Q k" for P Q i n
      using that by (induction n arbitrary: i) auto
    show ?thesis
      using assms by (simp add: Index_def Let_def) (intro conjI impI eq; simp add: occ_single occ_search)
  qed
  with for_find_cases [of "occ s sep" 0 ?n] occ_bound [OF assms, of s] show ?thesis by auto
qed

lemma LastIndex_cases:
  assumes "sep \<noteq> []"
  shows "LastIndex s sep = -1 \<and> (\<forall>i. \<not> occ s sep i) \<or>
    (\<exists>k. LastIndex s sep = int k \<and> occ s sep k \<and> (\<forall>j > k. \<not> occ s sep j))"
proof -
  let ?n = "length s + 1 - length sep"
  have "LastIndex s sep = for_find_down (occ s sep) ?n"
  proof -
    have eq: "for_find_down P n = for_find_down Q n" if "\<And>k. k < n \<Longrightarrow> P k = Q k" for P Q n
      using that by (induction n) auto
    show ?thesis
      using assms by (simp add: LastIndex_def Let_def) (intro conjI impI eq; simp add: occ_single occ_search)
  qed
  with for_find_down_cases [of "occ s sep" ?n] occ_bound [OF assms, of s] show ?thesis by fastforce
qed

section \<open>Splitting\<close>

text \<open>The pieces that the loop of \<open>genSplit\<close> stores, as a list; \<open>k\<close> more pieces may be cut off.\<close>

function pieces :: "gostring \<Rightarrow> gostring \<Rightarrow> nat \<Rightarrow> nat \<Rightarrow> nat \<Rightarrow> nat \<Rightarrow> gostring list" where
  "pieces s sep save k start i =
     (if i + length sep \<le> length s \<and> 0 < k then
        (if occ s sep i then slice start (i + save) s # pieces s sep save (k - 1) (i + length sep) (i + (length sep - 1) + 1)
         else pieces s sep save k start (i + 1))
      else [drop start s])"
  by pat_completeness auto
termination
  by (relation "measure (\<lambda>(s, sep, save, k, start, i). length s + 1 - i)") auto

declare pieces.simps [simp del]

lemma pieces_ne [simp]: "pieces s sep save k start i \<noteq> []"
  by (induction s sep save k start i rule: pieces.induct) (subst pieces.simps, auto)

lemma length_pieces: "length (pieces s sep save k start i) \<le> k + 1"
proof (induction s sep save k start i rule: pieces.induct)
  case (1 s sep save k start i)
  then show ?case by (subst pieces.simps) auto
qed

fun join :: "gostring \<Rightarrow> gostring list \<Rightarrow> gostring" where
  "join sep [] = []"
| "join sep [s] = s"
| "join sep (s # a) = s @ sep @ join sep a"

lemma join_Cons: "a \<noteq> [] \<Longrightarrow> join sep (s # a) = s @ sep @ join sep a"
  by (cases a) auto

lemma join_pieces:
  "sep \<noteq> [] \<Longrightarrow> start \<le> i \<Longrightarrow> start \<le> length s \<Longrightarrow> join sep (pieces s sep 0 k start i) = drop start s"
proof (induction s sep "0 :: nat" k start i rule: pieces.induct)
  case (1 s sep k start i)
  show ?case
  proof (cases "i + length sep \<le> length s \<and> 0 < k \<and> occ s sep i")
    case True
    then have "join sep (pieces s sep 0 (k - 1) (i + length sep) (i + (length sep - 1) + 1)) = drop (i + length sep) s"
      using 1 by simp
    moreover have "slice i (i + length sep) s = sep" using True by (simp add: occ_def)
    ultimately show ?thesis
      using True 1(4) slice_drop [of i "i + length sep" s] slice_drop [of start i s]
      by (simp add: pieces.simps [of s sep 0 k start i] join_Cons)
  next
    case False
    then show ?thesis using 1 by (auto simp: pieces.simps [of s sep 0 k start i])
  qed
qed

lemma concat_pieces:
  "sep \<noteq> [] \<Longrightarrow> start \<le> i \<Longrightarrow> start \<le> length s \<Longrightarrow> concat (pieces s sep (length sep) k start i) = drop start s"
proof (induction s sep "length sep" k start i rule: pieces.induct)
  case (1 s sep k start i)
  show ?case
  proof (cases "i + length sep \<le> length s \<and> 0 < k \<and> occ s sep i")
    case True
    then have "concat (pieces s sep (length sep) (k - 1) (i + length sep) (i + (length sep - 1) + 1)) = drop (i + length sep) s"
      using 1 by simp
    then show ?thesis
      using True 1(4) slice_drop [of start "i + length sep" s]
      by (simp add: pieces.simps [of s sep "length sep" k start i])
  next
    case False
    then show ?thesis using 1 by (auto simp: pieces.simps [of s sep "length sep" k start i])
  qed
qed

text \<open>With enough pieces allowed the number of pieces does not depend on the limit, and no piece contains
  the separator.\<close>

lemma slice_slice: "p + l \<le> b - a \<Longrightarrow> slice p (p + l) (slice a b s) = slice (a + p) (a + p + l) s"
  by (simp add: slice_def drop_take min_absorb1 add.commute)

lemma occ_slice:
  assumes "occ (slice a b s) sep p" "a \<le> b" "b \<le> length s"
  shows "occ s sep (a + p)" "p + length sep \<le> b - a"
proof -
  show l: "p + length sep \<le> b - a" using assms by (simp add: occ_def)
  show "occ s sep (a + p)" using assms l slice_slice [OF l, of s] by (simp add: occ_def)
qed

lemma pieces_free:
  "sep \<noteq> [] \<Longrightarrow> start \<le> i \<Longrightarrow> start \<le> length s \<Longrightarrow> \<forall>j. start \<le> j \<and> j < i \<longrightarrow> \<not> occ s sep j \<Longrightarrow>
     length s + 1 - i \<le> k \<Longrightarrow> p \<in> set (pieces s sep 0 k start i) \<Longrightarrow> \<not> occ p sep q"
proof (induction s sep "0 :: nat" k start i rule: pieces.induct)
  case (1 s sep k start i)
  show ?case
  proof (cases "i + length sep \<le> length s \<and> 0 < k")
    case False
    then have i: "length s < i + length sep" using 1(7) by linarith
    then have "p = drop start s" using "1.prems"(6) False by (simp add: pieces.simps [of s sep 0 k start i])
    then have "p = slice start (length s) s" by simp
    moreover have "occ s sep (start + q) \<Longrightarrow> start + q < i" using i by (simp add: occ_def)
    ultimately show ?thesis using occ_slice [of start "length s" s sep q] "1.prems"(3,4) by auto
  next
    case True
    show ?thesis
    proof (cases "occ s sep i")
      case False
      then have "\<forall>j. start \<le> j \<and> j < i + 1 \<longrightarrow> \<not> occ s sep j" using "1.prems"(4) less_Suc_eq by auto
      then show ?thesis
        using "1.hyps"(2) [OF True False] "1.prems" True False by (simp add: pieces.simps [of s sep 0 k start i])
    next
      case occ: True
      from "1.prems"(6) True occ consider "p = slice start i s" |
        "p \<in> set (pieces s sep 0 (k - 1) (i + length sep) (i + (length sep - 1) + 1))"
        by (auto simp: pieces.simps [of s sep 0 k start i])
      then show ?thesis
      proof cases
        case 1
        have "occ p sep q \<Longrightarrow> occ s sep (start + q) \<and> q + length sep \<le> i - start"
          using occ_slice [of start i s sep q] 1 "1.prems"(2) True by simp
        moreover have "start + q < i" if "q + length sep \<le> i - start" using that "1.prems"(1,2) by (cases sep) auto
        ultimately show ?thesis using "1.prems"(4) by auto
      next
        case 2
        have nx: "i + (length sep - 1) + 1 = i + length sep" using "1.prems"(1) by (cases sep) auto
        show ?thesis
          by (rule "1.hyps"(1) [OF True occ, unfolded nx]) (use 2 [unfolded nx] "1.prems"(1,5) True in \<open>auto simp: Suc_le_eq neq_Nil_conv\<close>)
      qed
    qed
  qed
qed

lemma pieces_unsplit: "length (pieces s sep save K start i) = 1 \<Longrightarrow> pieces s sep save K start i = [drop start s]"
proof (induction s sep save K start i rule: pieces.induct)
  case (1 s sep save k start i)
  then show ?case by (auto simp: pieces.simps [of s sep save k start i] split: if_splits)
qed

lemma pieces_limit:
  "length (pieces s sep save K start i) \<le> k + 1 \<Longrightarrow> k \<le> K \<Longrightarrow>
     pieces s sep save k start i = pieces s sep save K start i"
proof (induction s sep save K start i arbitrary: k rule: pieces.induct)
  case (1 s sep save K start i)
  show ?case
  proof (cases "k = 0")
    case True
    then have "length (pieces s sep save K start i) = 1"
      using "1.prems"(1) pieces_ne [of s sep save K start i] by (cases "pieces s sep save K start i") auto
    then show ?thesis using True pieces_unsplit [of s sep save K start i] by (simp add: pieces.simps [of s sep save 0])
  next
    case False
    show ?thesis
    proof (cases "i + length sep \<le> length s")
      case le: True
      then have c: "i + length sep \<le> length s \<and> 0 < K" using False "1.prems"(2) by simp
      show ?thesis
      proof (cases "occ s sep i")
        case True
        have "length (pieces s sep save (K - 1) (i + length sep) (i + (length sep - 1) + 1)) \<le> (k - 1) + 1"
          using "1.prems"(1) c True False by (simp add: pieces.simps [of s sep save K start i])
        from "1.IH"(1) [OF c True this] show ?thesis
          using c True False "1.prems"(2) by (simp add: pieces.simps [of s sep save K start i] pieces.simps [of s sep save k start i])
      next
        case no: False
        from "1.IH"(2) [OF c no, of k] show ?thesis
          using c no False "1.prems" by (simp add: pieces.simps [of s sep save K start i] pieces.simps [of s sep save k start i])
      qed
    next
      case no: False
      then show ?thesis by (simp add: pieces.simps [of s sep save K start i] pieces.simps [of s sep save k start i])
    qed
  qed
qed

lemma pieces_exact:
  "k + 1 \<le> length (pieces s sep save K start i) \<Longrightarrow> k \<le> K \<Longrightarrow> length (pieces s sep save k start i) = k + 1"
proof (induction s sep save K start i arbitrary: k rule: pieces.induct)
  case (1 s sep save K start i)
  show ?case
  proof (cases "k = 0")
    case False
    then have c: "i + length sep \<le> length s \<and> 0 < K"
      using "1.prems" by (cases "i + length sep \<le> length s") (auto simp: pieces.simps [of s sep save K start i])
    show ?thesis
    proof (cases "occ s sep i")
      case True
      have "k - 1 + 1 \<le> length (pieces s sep save (K - 1) (i + length sep) (i + (length sep - 1) + 1))"
        using "1.prems"(1) c True False by (simp add: pieces.simps [of s sep save K start i])
      from "1.IH"(1) [OF c True this] show ?thesis
        using c True False "1.prems"(2) by (simp add: pieces.simps [of s sep save k start i])
    next
      case no: False
      from "1.IH"(2) [OF c no, of k] show ?thesis
        using c no False "1.prems" by (simp add: pieces.simps [of s sep save K start i] pieces.simps [of s sep save k start i])
    qed
  qed (simp add: pieces.simps [of s sep save 0])
qed

lemma Count_loop_pieces:
  "sep \<noteq> [] \<Longrightarrow> length s + 1 - i \<le> k \<Longrightarrow> Count_loop s sep i n + 1 = n + length (pieces s sep save k start i)"
proof (induction s sep save k start i arbitrary: n rule: pieces.induct)
  case (1 s sep save k start i)
  show ?case
  proof (cases "i + length sep \<le> length s")
    case True
    then have c: "i + length sep \<le> length s \<and> 0 < k" using "1.prems" by auto
    have k: "length s + 1 - (i + (length sep - 1) + 1) \<le> k - 1" "length s + 1 - (i + 1) \<le> k" using "1.prems"(2) by auto
    show ?thesis
      using c "1.IH"(1) [OF c _ "1.prems"(1) k(1)] "1.IH"(2) [OF c _ "1.prems"(1) k(2)] occ_match [OF "1.prems"(1) True]
      by (simp add: Count_loop.simps [of s sep i n] pieces.simps [of s sep save k start i])
  next
    case False
    then show ?thesis by (simp add: Count_loop.simps [of s sep i n] pieces.simps [of s sep save k start i])
  qed
qed

lemma Count_single:
  "length sep = 1 \<Longrightarrow> Count_loop s sep i n = n + length (filter (\<lambda>b. b = sep ! 0) (drop i s))"
proof (induction s sep i n rule: Count_loop.induct)
  case (1 s sep i n)
  show ?case
  proof (cases "i < length s")
    case True
    then have "drop i s = s ! i # drop (i + 1) s" by (simp add: Cons_nth_drop_Suc)
    moreover have "s ! i = sep ! 0 \<and> slice i (i + length sep) s = sep \<longleftrightarrow> s ! i = sep ! 0"
      using occ_match [of sep i s] occ_single [OF "1.prems" True] True "1.prems" by (auto simp: length_Suc_conv)
    ultimately show ?thesis using 1 True by (simp add: Count_loop.simps [of s sep i n])
  qed (use "1.prems" in \<open>simp add: Count_loop.simps [of s sep i n]\<close>)
qed

lemma Count_pieces:
  assumes "sep \<noteq> []" "length s + 1 \<le> k"
  shows "Count s sep + 1 = length (pieces s sep save k start 0)"
  using Count_loop_pieces [OF assms(1), of s 0 k 0 save start] assms Count_single [of sep s 0 0]
  by (auto simp: Count_def)

lemma genSplit_loop_pieces:
  "sep \<noteq> [] \<Longrightarrow> save \<le> length sep \<Longrightarrow> start \<le> i \<Longrightarrow> start \<le> length s \<Longrightarrow> na < n \<Longrightarrow> n = length a \<Longrightarrow>
   pieces s sep save (n - na - 1) start i = ps \<Longrightarrow>
   \<exists>a' start'. genSplit_loop s sep save n i start na a = Some (a', na + length ps - 1, start') \<and>
     length a' = n \<and> start' \<le> length s \<and> na + length ps \<le> n \<and> drop start' s = last ps \<and>
     take (na + length ps - 1) a' = take na a @ butlast ps"
proof (induction s sep save n i start na a arbitrary: ps rule: genSplit_loop.induct)
  case (1 s sep save n i start na a)
  note prems = "1.prems"
  show ?case
  proof (cases "i + length sep \<le> length s \<and> na + 1 < n")
    case False
    then have "ps = [drop start s]" using prems(5,7) by (auto simp: pieces.simps [of s sep save _ start i])
    moreover have "genSplit_loop s sep save n i start na a = Some (a, na, start)"
      by (subst genSplit_loop.simps) (rule if_not_P [OF False])
    ultimately show ?thesis using prems by simp
  next
    case c: True
    then have c': "i + length sep \<le> length s \<and> 0 < n - na - 1" by simp
    show ?thesis
    proof (cases "occ s sep i")
      case False
      then have g: "\<not> (s ! i = sep ! 0 \<and> (length sep = 1 \<or> slice i (i + length sep) s = sep))"
        using occ_match_split [OF prems(1)] c by blast
      have "pieces s sep save (n - na - 1) start (i + 1) = ps"
        using prems(7) c' False by (simp add: pieces.simps [of s sep save _ start i])
      moreover have "genSplit_loop s sep save n i start na a = genSplit_loop s sep save n (i + 1) start na a"
        by (subst genSplit_loop.simps) (simp only: if_P [OF c] if_not_P [OF g])
      ultimately show ?thesis
        using "1.IH"(2) [OF c g prems(1,2) _ prems(4,5,6), of ps] prems(3) by simp
    next
      case True
      then have g: "s ! i = sep ! 0 \<and> (length sep = 1 \<or> slice i (i + length sep) s = sep)"
        using occ_match_split [OF prems(1)] c by blast
      define t where "t = slice start (i + save) s"
      define qs where "qs = pieces s sep save (n - na - 1 - 1) (i + length sep) (i + (length sep - 1) + 1)"
      have ps: "ps = t # qs" using prems(7) c' True by (simp add: pieces.simps [of s sep save _ start i] t_def qs_def)
      have sl: "go_slice s (int start) (int (i + save)) = Some t"
        using prems(2,3) c by (simp only: go_slice_nat) (simp add: t_def)
      have st: "go_set a (int na) t = Some (a[na := t])" using prems(5,6) by simp
      have qs': "pieces s sep save (n - (na + 1) - 1) (i + length sep) (i + (length sep - 1) + 1) = qs"
        by (simp add: qs_def)
      have "i + length sep \<le> i + (length sep - 1) + 1" using prems(1) by (cases sep) auto
      from "1.IH"(1) [OF c g sl st prems(1,2) this _ _ _ qs'] c prems(6)
      obtain a' start' where r: "genSplit_loop s sep save n (i + (length sep - 1) + 1) (i + length sep) (na + 1) (a[na := t]) =
          Some (a', na + 1 + length qs - 1, start')"
        "length a' = n" "start' \<le> length s" "na + 1 + length qs \<le> n" "drop start' s = last qs"
        "take (na + 1 + length qs - 1) a' = take (na + 1) (a[na := t]) @ butlast qs" by auto
      have "qs \<noteq> []" by (simp add: qs_def)
      moreover have "take (na + 1) (a[na := t]) = take na a @ [t]"
        using prems(5,6) by (simp add: take_Suc_conv_app_nth)
      moreover have "genSplit_loop s sep save n i start na a =
          genSplit_loop s sep save n (i + (length sep - 1) + 1) (i + length sep) (na + 1) (a[na := t])"
        by (subst genSplit_loop.simps) (simp only: if_P [OF c] if_P [OF g] sl st Option.bind.simps)
      ultimately show ?thesis using r by (simp add: ps)
    qed
  qed
qed

text \<open>A \<open>[]string\<close> takes 8 bytes an element, so \<open>make\<close> panics from \<open>2 ^ 29\<close> elements on.\<close>

lemma genSplit_pieces:
  assumes "sep \<noteq> []" "save \<le> length sep" "0 < n"
  shows "genSplit s sep save n = (if 8 * n < 2 ^ 32 then Some (pieces s sep save (nat n - 1) 0 0) else None)"
proof -
  have mk: "go_make 8 n ([] :: gostring) = (if 8 * n < 2 ^ 32 then Some (replicate (nat n) []) else None)"
    using go_make_nat [of 8 "nat n" "[] :: gostring"] assms(3) by (simp add: nat_less_iff)
  let ?ps = "pieces s sep save (nat n - 1) 0 0"
  let ?a = "replicate (nat n) ([] :: gostring)"
  have "nat n - 0 - 1 = nat n - 1" by simp
  from genSplit_loop_pieces [OF assms(1,2), of 0 0 s 0 "nat n" ?a ?ps] assms(3)
  obtain a start where r: "genSplit_loop s sep save (nat n) 0 0 0 ?a = Some (a, length ?ps - 1, start)"
    "length a = nat n" "start \<le> length s" "length ?ps \<le> nat n" "drop start s = last ?ps"
    "take (length ?ps - 1) a = butlast ?ps" by auto
  obtain m where m: "length ?ps = Suc m" using pieces_ne [of s sep save "nat n - 1" 0 0] by (cases ?ps) auto
  have "take (Suc m) (a[m := last ?ps]) = take m a @ [last ?ps]"
    using m r(2,4) by (simp add: take_Suc_conv_app_nth)
  also have "\<dots> = ?ps" using r(6) m by simp
  finally have "go_slice (a[m := last ?ps]) 0 (int (m + 1)) = Some ?ps"
    using m r(2,4) assms(3) by (simp add: go_slice_def nat_add_distrib)
  then show ?thesis
    using assms m r by (simp add: genSplit_def mk Let_def)
qed

lemma genSplit_all:
  assumes "sep \<noteq> []" "save \<le> length sep" "n < 0"
  shows "genSplit s sep save n =
      (if 8 * (int (Count s sep) + 1) < 2 ^ 32 then Some (pieces s sep save (length s + 1) 0 0) else None)"
    "length (pieces s sep save (length s + 1) 0 0) = Count s sep + 1"
proof -
  show l: "length (pieces s sep save (length s + 1) 0 0) = Count s sep + 1"
    using Count_pieces [OF assms(1), of s "length s + 1" save 0] by simp
  have "Count s sep \<le> length s + 1" using length_pieces [of s sep save "length s + 1" 0 0] l by linarith
  with l have "pieces s sep save (Count s sep) 0 0 = pieces s sep save (length s + 1) 0 0"
    by (intro pieces_limit) simp_all
  moreover have "genSplit s sep save n = genSplit s sep save (int (Count s sep) + 1)"
    using assms by (simp add: genSplit_def)
  moreover have "nat (int (Count s sep) + 1) - 1 = Count s sep" by simp
  ultimately show "genSplit s sep save n =
      (if 8 * (int (Count s sep) + 1) < 2 ^ 32 then Some (pieces s sep save (length s + 1) 0 0) else None)"
    using genSplit_pieces [OF assms(1,2), of "int (Count s sep) + 1" s] by (simp only:)
qed

section \<open>Joining\<close>

lemma length_join: "length (join sep a) = sum_list (map length a) + length sep * (length a - 1)"
  by (induction sep a rule: join.induct) auto

lemma Join_loop_eq: "bp + length (join sep a) = length b \<Longrightarrow> Join_loop b bp a sep = Some (take bp b @ join sep a)"
proof (induction sep a arbitrary: b bp rule: join.induct)
  case (3 sep s x a)
  then have l: "bp + length s + length sep + length (join sep (x # a)) = length b" by simp
  define b' where "b' = take bp b @ s @ drop (bp + length s) b"
  define b'' where "b'' = take (bp + length s) b' @ sep @ drop (bp + length s + length sep) b'"
  have b': "put_bytes b bp s = Some (b', bp + length s)" "length b' = length b"
    using l put_bytes_eq [of bp s b] by (simp_all add: b'_def)
  have b'': "put_bytes b' (bp + length s) sep = Some (b'', bp + length s + length sep)" "length b'' = length b"
    using l b'(2) put_bytes_eq [of "bp + length s" sep b'] by (simp_all add: b''_def)
  have "take (bp + length s + length sep) b'' = take bp b @ s @ sep"
    using l b'(2) by (simp add: b''_def b'_def)
  with 3(1) [of "bp + length s + length sep" b''] l b'' b' show ?case by simp
qed (simp_all add: put_bytes_eq)

lemma Join_eq: "int (length (join sep a)) < 2 ^ 31 \<Longrightarrow> Join a sep = Some (join sep a)"
proof -
  assume l: "int (length (join sep a)) < 2 ^ 31"
  consider "a = []" | x where "a = [x]" | "2 \<le> length a" by (cases a; cases "tl a") auto
  then show ?thesis
  proof cases
    case 3
    have "int (length sep * (length a - 1) + sum_list (map length a)) = int (length (join sep a))"
      by (simp add: length_join)
    moreover have "int32 (int (length (join sep a))) = int (length (join sep a))"
      using l by (intro int32_id) (simp add: is_int32_def)
    ultimately have "int32 (int (length sep * (length a - 1) + sum_list (map length a))) = int (length (join sep a))"
      by (simp only:)
    then have "go_make 1 (int32 (int (length sep * (length a - 1) + sum_list (map length a)))) 0 =
        Some (replicate (length (join sep a)) (0 :: byte))" using l go_make_bytes [of "length (join sep a)"] by (simp only:) simp
    then show ?thesis
      using 3 Join_loop_eq [of 0 sep a "replicate (length (join sep a)) 0"] by (auto simp: Join_def simp del: One_nat_def)
  qed (simp_all add: Join_def)
qed

section \<open>Replacing\<close>

lemma pieces_skip:
  "\<forall>j. i \<le> j \<and> j < i' \<longrightarrow> \<not> occ s sep j \<Longrightarrow> i \<le> i' \<Longrightarrow> i' + length sep \<le> length s + 1 \<Longrightarrow>
     pieces s sep save k start i = pieces s sep save k start i'"
proof (induction "i' - i" arbitrary: i)
  case (Suc d)
  then have "i < i'" "\<not> occ s sep i" by auto
  then have "pieces s sep save k start i = pieces s sep save k start (i + 1)"
    using Suc.prems(3) by (cases "0 < k") (simp_all add: pieces.simps [of s sep save k start i] pieces.simps [of s sep save 0 start])
  with Suc show ?case by simp
qed simp

lemma occ_drop: "a \<le> length s \<Longrightarrow> occ (drop a s) sep i \<longleftrightarrow> occ s sep (a + i)"
  by (auto simp: occ_def slice_def add.commute)

lemma pieces_Index:
  assumes "sep \<noteq> []" "start \<le> length s"
  shows "Index (drop start s) sep = -1 \<Longrightarrow> pieces s sep 0 k start start = [drop start s]"
    "Index (drop start s) sep = int i \<Longrightarrow> occ s sep (start + i) \<and> pieces s sep 0 (Suc k) start start =
       slice start (start + i) s # pieces s sep 0 k (start + i + length sep) (start + i + length sep)"
proof -
  have o: "occ (drop start s) sep j \<longleftrightarrow> occ s sep (start + j)" for j using assms by (auto simp: occ_drop)
  note c = Index_cases [OF assms(1), of "drop start s", unfolded o]
  {
    assume "Index (drop start s) sep = -1"
    with c have "\<not> occ s sep (start + j)" for j by auto
    then have n: "\<not> occ s sep j" if "start \<le> j" for j using that by (metis le_Suc_ex)
    show "pieces s sep 0 k start start = [drop start s]"
    proof (cases "start + length sep \<le> length s")
      case True
      with pieces_skip [of start "length s + 1 - length sep" s sep 0 k start] n show ?thesis
        by (simp add: pieces.simps [of s sep 0 k start "Suc _ - _"])
    qed (simp add: pieces.simps [of s sep 0 k start])
  next
    assume i: "Index (drop start s) sep = int i"
    with c have oc: "occ s sep (start + i)" and f: "\<forall>j < i. \<not> occ s sep (start + j)" by auto
    have "\<not> occ s sep j" if "start \<le> j" "j < start + i" for j
      using f [rule_format, of "j - start"] that by simp
    with pieces_skip [of start "start + i" s sep 0 "Suc k" start] oc
    have "pieces s sep 0 (Suc k) start start = pieces s sep 0 (Suc k) start (start + i)" by (simp add: occ_def)
    also have "\<dots> = slice start (start + i) s # pieces s sep 0 k (start + i + length sep) (start + i + (length sep - 1) + 1)"
      using oc by (simp add: pieces.simps [of s sep 0 "Suc k" start "start + i"]) (simp add: occ_def)
    also have "start + i + (length sep - 1) + 1 = start + i + length sep" using assms(1) by (cases sep) auto
    finally show "occ s sep (start + i) \<and> pieces s sep 0 (Suc k) start start =
       slice start (start + i) s # pieces s sep 0 k (start + i + length sep) (start + i + length sep)"
      using oc by simp
  }
qed

lemma Replace_loop_eq:
  assumes "old \<noteq> []"
  shows "start \<le> length s \<Longrightarrow> length (pieces s old 0 m start start) = Suc m \<Longrightarrow>
    w + length (join new (pieces s old 0 m start start)) = length t \<Longrightarrow>
    do {
      (t, w, start) \<leftarrow> Replace_loop s old new m i t w start;
      rest \<leftarrow> go_slice s (int start) (int (length s));
      (t, w) \<leftarrow> go_copy t w rest;
      go_slice t 0 (int w)
    } = Some (take w t @ join new (pieces s old 0 m start start))"
proof (induction m arbitrary: start w t i)
  case 0
  then have "pieces s old 0 0 start start = [drop start s]" by (simp add: pieces.simps)
  with 0 show ?case by (simp add: go_copy_eq go_slice_def)
next
  case (Suc m)
  have "Index (drop start s) old \<noteq> -1"
    using Suc.prems(2) pieces_Index(1) [OF assms Suc.prems(1), of "Suc m"] by auto
  then obtain k where k: "Index (drop start s) old = int k"
    using Index_cases [OF assms, of "drop start s"] by auto
  define st where "st = start + k + length old"
  define qs where "qs = pieces s old 0 m st st"
  note p = pieces_Index(2) [OF assms Suc.prems(1) k, of m]
  have ps: "pieces s old 0 (Suc m) start start = slice start (start + k) s # qs" and st: "st \<le> length s"
    using p by (simp_all add: st_def qs_def occ_def)
  have qs: "qs \<noteq> []" "length qs = Suc m" using ps Suc.prems(2) by (simp_all add: qs_def)
  define u where "u = slice start (start + k) s"
  have len: "w + length u + length new + length (join new qs) = length t"
    using Suc.prems(3) qs(1) by (simp add: ps join_Cons u_def)
  define t' where "t' = take w t @ u @ drop (w + length u) t"
  define t'' where "t'' = take (w + length u) t' @ new @ drop (w + length u + length new) t'"
  have t': "go_copy t w u = Some (t', w + length u)" "length t' = length t"
    using len go_copy_eq [of w u t] by (simp_all add: t'_def)
  have t'': "go_copy t' (w + length u) new = Some (t'', w + length u + length new)" "length t'' = length t"
    using len t'(2) go_copy_eq [of "w + length u" new t'] by (simp_all add: t''_def)
  have tk: "take (w + length u + length new) t'' = take w t @ u @ new"
    using len t'(2) by (simp add: t''_def t'_def)
  have sl: "go_slice s (int start) (int start + int k) = Some u"
    using p st by (simp add: go_slice_def u_def slice_def st_def nat_add_distrib)
  have "Replace_loop s old new (Suc m) i t w start =
      Replace_loop s old new m (i + 1) t'' (w + length u + length new) st"
    using assms Suc.prems(1) k sl t' t'' by (simp add: nat_add_distrib st_def)
  with Suc.IH [of st "w + length u + length new" t'' "i + 1"] st qs len t'' tk show ?case
    by (simp add: ps join_Cons qs_def [symmetric] u_def [symmetric])
qed

lemma length_join_diff:
  assumes "ps \<noteq> []"
  shows "int (length (join new ps)) = int (length (join old ps)) + int (length ps - 1) * (int (length new) - int (length old))"
  using assms by (cases ps) (simp_all add: length_join algebra_simps)

lemma Replace_eq:
  fixes s :: gostring
  assumes "old \<noteq> []" "n \<noteq> 0"
  defines "c \<equiv> (if n < 0 \<or> int (Count s old) < n then Count s old else nat n)"
  assumes "int (length (join new (pieces s old 0 c 0 0))) < 2 ^ 31"
  shows "Replace s old new n = Some (join new (pieces s old 0 c 0 0))"
proof (cases "old = new \<or> Count s old = 0")
  case True
  then show ?thesis
  proof
    assume "old = new"
    then show ?thesis using join_pieces [OF assms(1), of 0 0 s c] by (simp add: Replace_def)
  next
    assume z: "Count s old = 0"
    then have "c = 0" using assms(2) by (simp add: c_def)
    then show ?thesis using z by (simp add: Replace_def pieces.simps [of s old 0 0])
  qed
next
  case False
  let ?ps = "pieces s old 0 c 0 0"
  have cn: "Count s old + 1 = length (pieces s old 0 (length s + 1) 0 0)" by (rule Count_pieces [OF assms(1)]) simp
  have cc: "c \<le> Count s old" "Count s old \<le> length s + 1"
    using cn length_pieces [of s old 0 "length s + 1" 0 0] by (auto simp: c_def)
  have l: "length ?ps = Suc c" using pieces_exact [of c s old 0 "length s + 1" 0 0] cn cc by simp
  have "int (length (join new ?ps)) = int (length s) + int c * (int (length new) - int (length old))"
    using length_join_diff [of ?ps new old] join_pieces [OF assms(1), of 0 0 s c] l by simp
  then have "int32 (int (length s) + int c * (int (length new) - int (length old))) = int (length (join new ?ps))"
    using assms(4) by (subst int32_id) (simp_all add: is_int32_def)
  then have m: "go_make 1 (int32 (int (length s) + int c * (int (length new) - int (length old)))) 0 =
      Some (replicate (length (join new ?ps)) (0 :: byte))"
    using assms(4) go_make_bytes [of "length (join new ?ps)"] by (simp only:) simp
  note m = m [unfolded One_nat_def]
  have "(if n < 0 \<or> int (Count s old) < n then int (Count s old) else n) = int c" using assms(2) by (simp add: c_def)
  then show ?thesis
    using False assms(2) m Replace_loop_eq [OF assms(1), of 0 s c 0 new "replicate (length (join new ?ps)) 0" 0] l
    by (simp add: Replace_def Let_def del: Replace_loop.simps)
qed

section \<open>Trimming\<close>

lemma DecodeRune_at:
  assumes "k < length (decode_all s)"
  defines "i \<equiv> rune_pos (decode_all s) k"
  shows "i < length s" "DecodeRune (drop i s) = decode_all s ! k"
    "uint (s ! i) < 0x80 \<Longrightarrow> decode_all s ! k = (uint (s ! i), 1)"
proof -
  show l: "i < length s" and d: "DecodeRune (drop i s) = decode_all s ! k" using decode_at [OF assms(1)] by (simp_all add: i_def)
  show "uint (s ! i) < 0x80 \<Longrightarrow> decode_all s ! k = (uint (s ! i), 1)"
    unfolding d [symmetric] using l by (simp add: DecodeRune_unfold Let_def byte_less_uint)
qed

lemma indexFunc_loop_eq:
  fixes s :: gostring
  defines "rs \<equiv> decode_all s"
  shows "k \<le> length rs \<Longrightarrow> indexFunc_loop s f truth (rune_pos rs k) =
    (let j = k + length (takeWhile (\<lambda>d. f (fst d) \<noteq> truth) (drop k rs)) in
     if j < length rs then int (rune_pos rs j) else -1)"
proof (induction "length rs - k" arbitrary: k)
  case 0
  then have "rune_pos rs k = length s" using rune_pos_length [of s] by (simp add: rs_def)
  then show ?case using 0 by (simp add: indexFunc_loop.simps)
next
  case (Suc d)
  then have k: "k < length rs" by simp
  note a = DecodeRune_at [of k s, folded rs_def, OF k]
  have "(if uint (s ! rune_pos rs k) \<ge> 0x80 then DecodeRuneInString (drop (rune_pos rs k) s) else (uint (s ! rune_pos rs k), 1)) = rs ! k"
    using a by (simp add: DecodeRuneInString_eq)
  then have "indexFunc_loop s f truth (rune_pos rs k) =
      (if f (fst (rs ! k)) = truth then int (rune_pos rs k) else indexFunc_loop s f truth (rune_pos rs (Suc k)))"
    using a(1) k by (subst indexFunc_loop.simps) (simp only: Let_def if_True rune_pos_Suc)
  moreover have "drop k rs = rs ! k # drop (Suc k) rs" using k by (simp add: Cons_nth_drop_Suc)
  ultimately show ?case using Suc(1) [of "Suc k"] Suc(2) k by (simp add: Let_def)
qed

lemma lastIndexFunc_loop_eq:
  fixes s :: gostring
  defines "rs \<equiv> decode_all s"
  shows "k \<le> length rs \<Longrightarrow> lastIndexFunc_loop s f truth (rune_pos rs k) =
    (let j = k - length (takeWhile (\<lambda>d. f (fst d) \<noteq> truth) (rev (take k rs))) in
     Some (if 0 < j then int (rune_pos rs (j - 1)) else -1))"
proof (induction k)
  case 0
  then show ?case by (simp add: lastIndexFunc_loop.simps)
next
  case (Suc k)
  let ?i = "rune_pos rs (Suc k)"
  have pos: "?i = rune_pos rs k + snd (rs ! k)" using Suc.prems by (simp add: rune_pos_Suc)
  have w: "0 < snd (rs ! k)"
    using decode_all_widths [of "fst (rs ! k)" "snd (rs ! k)" s] Suc.prems by (simp add: rs_def)
  have le: "?i \<le> length s"
    using rune_pos_mono [of "Suc k" "length rs" rs] rune_pos_length [of s] Suc.prems by (simp add: rs_def)
  have d: "decode_all (take ?i s) = take (Suc k) rs" using decode_all_take [of "Suc k" s] Suc.prems by (simp add: rs_def)
  have ne: "take ?i s \<noteq> []" using pos w le by auto
  have "DecodeLastRuneInString (take ?i s) = Some (rs ! k)"
    using DecodeLastRune_last [OF ne] Suc.prems unfolding DecodeLastRuneInString_eq d
    by (simp add: take_Suc_conv_app_nth)
  then have "lastIndexFunc_loop s f truth ?i =
      (if f (fst (rs ! k)) = truth then Some (int (rune_pos rs k)) else lastIndexFunc_loop s f truth (rune_pos rs k))"
    using le pos w by (subst lastIndexFunc_loop.simps) simp
  with Suc show ?case by (simp add: take_Suc_conv_app_nth Let_def)
qed

definition trim_left :: "(int \<Rightarrow> bool) \<Rightarrow> gostring \<Rightarrow> nat" where
  "trim_left f s = length (takeWhile (\<lambda>d. f (fst d)) (decode_all s))"

definition trim_right :: "(int \<Rightarrow> bool) \<Rightarrow> gostring \<Rightarrow> nat" where
  "trim_right f s = length (decode_all s) - length (takeWhile (\<lambda>d. f (fst d)) (rev (decode_all s)))"

lemma TrimLeftFunc_eq: "TrimLeftFunc s f = Some (drop (rune_pos (decode_all s) (trim_left f s)) s)"
proof -
  let ?rs = "decode_all s"
  have e: "indexFunc s f False = (if trim_left f s < length ?rs then int (rune_pos ?rs (trim_left f s)) else -1)"
    using indexFunc_loop_eq [of 0 s f False] by (simp add: indexFunc_def trim_left_def Let_def)
  have le: "trim_left f s \<le> length ?rs" by (simp add: trim_left_def length_takeWhile_le)
  show ?thesis
  proof (cases "trim_left f s < length ?rs")
    case True
    from DecodeRune_at(1) [OF this] True show ?thesis by (simp add: TrimLeftFunc_def e)
  next
    case False
    with le have "trim_left f s = length ?rs" by simp
    then show ?thesis using rune_pos_length [of s] by (simp add: TrimLeftFunc_def e)
  qed
qed

lemma TrimRightFunc_eq: "TrimRightFunc s f = Some (take (rune_pos (decode_all s) (trim_right f s)) s)"
proof -
  let ?rs = "decode_all s" and ?j = "trim_right f s"
  have e: "lastIndexFunc s f False = Some (if 0 < ?j then int (rune_pos ?rs (?j - 1)) else -1)"
    using lastIndexFunc_loop_eq [of "length ?rs" s f False] rune_pos_length [of s]
    by (simp add: lastIndexFunc_def trim_right_def Let_def)
  show ?thesis
  proof (cases "0 < ?j")
    case False
    then show ?thesis by (simp add: TrimRightFunc_def e go_slice_def)
  next
    case True
    then obtain k where k: "?j = Suc k" by (cases ?j) auto
    have kl: "k < length ?rs" using k by (simp add: trim_right_def)
    let ?i = "rune_pos ?rs k"
    note a = DecodeRune_at [OF kl]
    have pos: "rune_pos ?rs ?j = ?i + snd (?rs ! k)" using kl by (simp add: k rune_pos_Suc)
    have le: "rune_pos ?rs ?j \<le> length s"
      using rune_pos_mono [of ?j "length ?rs" ?rs] rune_pos_length [of s] by (simp add: trim_right_def)
    have j: "(if s ! ?i \<ge> 0x80 then Some (int ?i + int (snd (DecodeRuneInString (drop ?i s)))) else Some (int ?i + 1)) =
        Some (int (rune_pos ?rs ?j))"
      using a(2,3) pos by (auto simp: DecodeRuneInString_eq word_le_def byte_less_uint not_le)
    have "TrimRightFunc s f = do {
        i \<leftarrow> (if s ! ?i \<ge> 0x80 then Some (int ?i + int (snd (DecodeRuneInString (drop ?i s)))) else Some (int ?i + 1));
        go_slice s 0 i }"
      using a(1) by (simp add: TrimRightFunc_def e k)
    then show ?thesis unfolding j using le by (simp add: go_slice_def)
  qed
qed

lemma TrimFunc_parts:
  "\<exists>a t b. s = a @ t @ b \<and> TrimFunc s f = Some t \<and> decode_all s = decode_all a @ decode_all t @ decode_all b \<and>
     (\<forall>d \<in> set (decode_all a) \<union> set (decode_all b). f (fst d)) \<and>
     (t \<noteq> [] \<longrightarrow> \<not> f (fst (hd (decode_all t))) \<and> \<not> f (fst (last (decode_all t))))"
proof -
  let ?F = "\<lambda>d :: int \<times> nat. f (fst d)"
  define a where "a = take (rune_pos (decode_all s) (trim_left f s)) s"
  define u where "u = drop (rune_pos (decode_all s) (trim_left f s)) s"
  define t where "t = take (rune_pos (decode_all u) (trim_right f u)) u"
  define b where "b = drop (rune_pos (decode_all u) (trim_right f u)) u"
  have "s = a @ u" by (simp add: a_def u_def)
  moreover have "u = t @ b" unfolding t_def b_def by simp
  ultimately have au: "s = a @ u" "u = t @ b" .
  have le: "trim_left f s \<le> length (decode_all s)" "trim_right f u \<le> length (decode_all u)"
    by (simp_all add: trim_left_def trim_right_def length_takeWhile_le)
  have da: "decode_all a = takeWhile ?F (decode_all s)"
    unfolding a_def decode_all_take [OF le(1)] by (simp add: trim_left_def takeWhile_eq_take [symmetric])
  have du: "decode_all u = dropWhile ?F (decode_all s)"
    unfolding u_def decode_all_drop [OF le(1)] by (simp add: trim_left_def dropWhile_eq_drop [symmetric])
  have rv: "decode_all u = rev (dropWhile ?F (rev (decode_all u))) @ rev (takeWhile ?F (rev (decode_all u)))"
    by (metis rev_append rev_rev_ident takeWhile_dropWhile_id)
  have l: "length (rev (dropWhile ?F (rev (decode_all u)))) = trim_right f u"
    by (simp add: trim_right_def dropWhile_eq_drop)
  have dt: "decode_all t = rev (dropWhile ?F (rev (decode_all u)))"
    unfolding t_def decode_all_take [OF le(2)] using rv l by (metis append_eq_conv_conj)
  have db: "decode_all b = rev (takeWhile ?F (rev (decode_all u)))"
    unfolding b_def decode_all_drop [OF le(2)] using rv l by (metis append_eq_conv_conj)
  have "TrimFunc s f = Some t" by (simp add: TrimFunc_def TrimLeftFunc_eq TrimRightFunc_eq u_def t_def)
  moreover have "\<forall>d \<in> set (decode_all a) \<union> set (decode_all b). f (fst d)"
    unfolding da db by (auto dest: set_takeWhileD)
  moreover have "decode_all s = decode_all a @ decode_all t @ decode_all b"
    using da du rv dt db by (metis takeWhile_dropWhile_id)
  moreover have "\<not> f (fst (hd (decode_all t))) \<and> \<not> f (fst (last (decode_all t)))" if "t \<noteq> []"
  proof
    have ne: "decode_all t \<noteq> []" using that by (simp add: decode_all.simps [of t])
    then show "\<not> f (fst (last (decode_all t)))"
      unfolding dt using hd_dropWhile [of ?F "rev (decode_all u)"] by (simp add: last_rev)
    have "hd (decode_all t) = hd (decode_all u)" using rv dt ne by (metis hd_append2)
    moreover have "decode_all u \<noteq> []" using rv dt ne by auto
    ultimately show "\<not> f (fst (hd (decode_all t)))" using hd_dropWhile [of ?F "decode_all s"] du by simp
  qed
  ultimately show ?thesis using au by blast
qed

section \<open>Fields\<close>

text \<open>The runes of a string with their bytes, and the maximal runs of elements that do not satisfy \<open>P\<close>.\<close>

fun chunks :: "gostring \<Rightarrow> (int \<times> nat) list \<Rightarrow> (int \<times> gostring) list" where
  "chunks s [] = []"
| "chunks s ((r, w) # rs) = (r, take w s) # chunks (drop w s) rs"

definition rune_chunks :: "gostring \<Rightarrow> (int \<times> gostring) list" where
  "rune_chunks s = chunks s (range_string s)"

fun split_runs :: "('a \<Rightarrow> bool) \<Rightarrow> 'a list \<Rightarrow> 'a list list" where
  "split_runs P [] = [[]]"
| "split_runs P (x # xs) =
     (if P x then [] # split_runs P xs
      else case split_runs P xs of [] \<Rightarrow> [[x]] | y # ys \<Rightarrow> (x # y) # ys)"

definition nonempty_runs :: "('a \<Rightarrow> bool) \<Rightarrow> 'a list \<Rightarrow> 'a list list" where
  "nonempty_runs P xs = filter (\<lambda>r. r \<noteq> []) (split_runs P xs)"

definition chunk_bytes :: "(int \<times> gostring) list \<Rightarrow> gostring" where
  "chunk_bytes cs = concat (map snd cs)"

lemma split_runs_ne [simp]: "split_runs P xs \<noteq> []"
  by (cases xs) (auto split: list.split)

lemma range_widths: "s \<noteq> [] \<Longrightarrow> 0 < snd (charntorune s) \<and> snd (charntorune s) \<le> length s"
proof -
  assume "s \<noteq> []"
  moreover obtain r n where "DecodeRune s = (r, n)" by fastforce
  ultimately show ?thesis using DecodeRune_size [of s r n] by (auto simp: charntorune_eq Suc_le_eq)
qed

fun covers :: "(int \<times> nat) list \<Rightarrow> nat \<Rightarrow> bool" where
  "covers [] n \<longleftrightarrow> n = 0"
| "covers ((r, w) # rs) n \<longleftrightarrow> 0 < w \<and> w \<le> n \<and> covers rs (n - w)"

lemma covers_range_string: "covers (range_string s) (length s)"
proof (induction s rule: range_string.induct)
  case (1 s)
  show ?case
  proof (cases "s = []")
    case False
    obtain r w where c: "charntorune s = (r, w)" by fastforce
    with False 1 range_widths [OF False] show ?thesis by (simp add: range_string.simps [of s])
  qed (simp add: range_string.simps)
qed

text \<open>What the second loop of \<open>FieldsFunc\<close> stores, as a list; \<open>st\<close> is \<open>fieldStart\<close>.\<close>

fun field_list :: "gostring \<Rightarrow> (int \<Rightarrow> bool) \<Rightarrow> (nat \<times> int) list \<Rightarrow> nat option \<Rightarrow> gostring list" where
  "field_list s f [] None = []"
| "field_list s f [] (Some st) = [drop st s]"
| "field_list s f ((i, r) # rs) None = (if f r then field_list s f rs None else field_list s f rs (Some i))"
| "field_list s f ((i, r) # rs) (Some st) =
     (if f r then slice st i s # field_list s f rs None else field_list s f rs (Some st))"

lemma FieldsFunc_count_list:
  "FieldsFunc_count f rs (st \<noteq> None) n + (if st = None then 0 else 1) = n + length (field_list s f rs st)"
proof (induction s f rs st arbitrary: n rule: field_list.induct)
  case (3 s f i r rs)
  show ?case using 3(1) [of n] 3(2) [of "n + 1"] by (cases "f r") simp_all
next
  case (4 s f i r rs st)
  show ?case using 4(1) [of n] 4(2) [of n] by (cases "f r") simp_all
qed simp_all

definition field_start :: "nat option \<Rightarrow> int" where
  "field_start st = (case st of None \<Rightarrow> -1 | Some i \<Rightarrow> int i)"

lemma FieldsFunc_loop_list:
  "\<lbrakk>covers rs (length s - i); i \<le> length s; \<forall>k. st = Some k \<longrightarrow> k \<le> i;
    na + length (field_list s f (range_from i rs) st) = length a\<rbrakk> \<Longrightarrow>
   do {
     (a, na, fieldStart) \<leftarrow> FieldsFunc_loop s f (range_from i rs) a na (field_start st);
     (if fieldStart \<noteq> -1 then do {
        t \<leftarrow> go_slice s fieldStart (int (length s));
        go_set a (int na) t
      } else Some a)
   } = Some (take na a @ field_list s f (range_from i rs) st)"
proof (induction rs arbitrary: i st na a)
  case Nil
  show ?case
  proof (cases st)
    case (Some k)
    with Nil have "length a = Suc na" "k \<le> length s" by auto
    then show ?thesis using Some by (simp add: field_start_def take_Suc_conv_app_nth list_update_append)
      (metis append_take_drop_id drop_all drop_update_cancel id_take_nth_drop le_refl length_list_update lessI nth_list_update_eq take_update_cancel)
  qed (use Nil in \<open>simp add: field_start_def\<close>)
next
  case (Cons x rs)
  obtain r w where x: "x = (r, w)" by fastforce
  have c: "covers rs (length s - (i + w))" "i + w \<le> length s" using Cons.prems(1,2) by (auto simp: x)
  show ?case
  proof (cases st)
    case None
    then show ?thesis
      using Cons.IH [OF c, of None na a] Cons.IH [OF c, of "Some i" na a] Cons.prems(4)
      by (auto simp: x field_start_def)
  next
    case (Some k)
    show ?thesis
    proof (cases "f r")
      case False
      then show ?thesis using Cons.IH [OF c, of "Some k" na a] Cons.prems(3,4) Some by (auto simp: x field_start_def)
    next
      case True
      have k: "k \<le> i" "na < length a" using Cons.prems(3,4) Some True by (auto simp: x)
      have "take (Suc na) (a[na := slice k i s]) = take na a @ [slice k i s]"
        using k(2) by (simp add: take_Suc_conv_app_nth)
      then show ?thesis
        using Cons.IH [OF c, of None "na + 1" "a[na := slice k i s]"] Cons.prems(2,4) Some True k
        by (simp add: x field_start_def)
    qed
  qed
qed

lemma FieldsFunc_list:
  "FieldsFunc s f = (let fs = field_list s f (range_clause s) None in if 8 * length fs < 2 ^ 32 then Some fs else None)"
proof -
  let ?l = "field_list s f (range_clause s) None"
  have n: "FieldsFunc_count f (range_clause s) False 0 = length ?l"
    using FieldsFunc_count_list [of f "range_clause s" None 0 s] by simp
  show ?thesis
    using FieldsFunc_loop_list [of "range_string s" s 0 None 0 f "replicate (length ?l) []"] covers_range_string [of s]
    by (simp add: FieldsFunc_def n [unfolded range_clause_def] go_make_nat range_clause_def field_start_def Let_def)
qed

lemma field_list_runs:
  "\<lbrakk>covers rs (length s - i); i \<le> length s; \<forall>k. st = Some k \<longrightarrow> k \<le> i\<rbrakk> \<Longrightarrow>
   field_list s f (range_from i rs) st =
     (case st of
        None \<Rightarrow> map chunk_bytes (nonempty_runs (\<lambda>c. f (fst c)) (chunks (drop i s) rs))
      | Some k \<Rightarrow> (slice k i s @ chunk_bytes (hd (split_runs (\<lambda>c. f (fst c)) (chunks (drop i s) rs)))) #
          map chunk_bytes (filter (\<lambda>r. r \<noteq> []) (tl (split_runs (\<lambda>c. f (fst c)) (chunks (drop i s) rs)))))"
proof (induction rs arbitrary: i st)
  case Nil
  then show ?case
    by (auto simp: nonempty_runs_def chunk_bytes_def slice_drop split: option.split)
next
  case (Cons x rs)
  obtain r w where x: "x = (r, w)" by fastforce
  have c: "covers rs (length s - (i + w))" "i + w \<le> length s" using Cons.prems(1,2) by (auto simp: x)
  obtain y ys where y: "split_runs (\<lambda>c. f (fst c)) (chunks (drop (i + w) s) rs) = y # ys"
    using split_runs_ne neq_Nil_conv by metis
  have sl: "take w (drop i s) = slice i (i + w) s" by (simp add: slice_def)
  have ap: "slice k i s @ slice i (i + w) s = slice k (i + w) s" if "k \<le> i" for k
    using slice_append [of k i "i + w" s] that by simp
  note IH = Cons.IH [OF c, of None] Cons.IH [OF c, of "Some i"]
  show ?case
  proof (cases st)
    case None
    then show ?thesis
      using IH y by (simp add: x nonempty_runs_def sl add.commute [of w i] chunk_bytes_def)
  next
    case (Some k)
    with Cons.prems(3) have k: "k \<le> i" by simp
    then show ?thesis
      using IH(1) Cons.IH [OF c, of "Some k"] y Some ap [OF k]
      by (simp add: x nonempty_runs_def sl add.commute [of w i] chunk_bytes_def)
  qed
qed

section \<open>Mapping\<close>

fun run_closure :: "('s \<Rightarrow> int \<Rightarrow> int \<times> 's) \<Rightarrow> 's \<Rightarrow> int list \<Rightarrow> int list" where
  "run_closure mapping st [] = []"
| "run_closure mapping st (r # rs) = fst (mapping st r) # run_closure mapping (snd (mapping st r)) rs"

text \<open>The bytes of the runes of a list, negative ones dropped.\<close>

definition encode_runes :: "int list \<Rightarrow> gostring" where
  "encode_runes rs = concat (map utf8_bytes (filter (\<lambda>r. 0 \<le> r) rs))"

lemma RuneLen_bytes: "0 \<le> r \<Longrightarrow> r \<le> MaxRune \<Longrightarrow> (if r \<ge> 0x80 then RuneLen r else 1) = int (length (utf8_bytes r))"
  by (simp add: RuneLen_def utf8_bytes_def MaxRune_def)

lemma Map_put_eq:
  assumes "0 \<le> r" "r \<le> MaxRune" "nbytes \<le> maxbytes" "length b = maxbytes"
    "2 * (nbytes + length (utf8_bytes r)) + 2 < 2 ^ 31"
  shows "\<exists>b' maxbytes'. Map_put b maxbytes nbytes r = Some (b', maxbytes', nbytes + length (utf8_bytes r)) \<and>
    length b' = maxbytes' \<and> nbytes + length (utf8_bytes r) \<le> maxbytes' \<and>
    take (nbytes + length (utf8_bytes r)) b' = take nbytes b @ utf8_bytes r"
proof -
  let ?u = "utf8_bytes r"
  have u: "length ?u \<le> 4" by (simp add: utf8_bytes_def)
  have e: "EncodeRune t r = Some (?u @ drop (length ?u) t, length ?u)" if "length ?u \<le> length t" for t
    using EncodeRune_eq [of r t] that assms(1,2) by (simp add: is_int32_def valid_rune_def MaxRune_def)
  define m where "m = (if nbytes + length ?u > maxbytes then maxbytes * 2 + 4 else maxbytes)"
  define c where "c = (if nbytes + length ?u > maxbytes then take nbytes b @ replicate (m - nbytes) 0 else b)"
  have m: "nbytes + length ?u \<le> m" "nbytes \<le> m" using u assms(3) by (auto simp: m_def)
  have c: "length c = m" "take nbytes c = take nbytes b" using assms(3,4) m by (auto simp: c_def m_def)
  have w: "int32 (int nbytes + int (length ?u)) = int (nbytes + length ?u)"
    using assms(5) by (subst int32_id) (simp_all add: is_int32_def)
  have pm: "(if int (nbytes + length ?u) > int maxbytes then do {
        let maxbytes = int32 (int maxbytes * 2 + UTFMax);
        nb \<leftarrow> go_make 1 maxbytes 0; t \<leftarrow> go_slice b 0 (int nbytes); (nb, _) \<leftarrow> go_copy nb 0 t; Some (nb, nat maxbytes)
      } else Some (b, maxbytes)) = Some (c, m)"
  proof (cases "nbytes + length ?u > maxbytes")
    case True
    then have ml: "m = maxbytes * 2 + 4" "m < 2 ^ 31" using assms(5) by (simp_all add: m_def)
    then have "int32 (int maxbytes * 2 + UTFMax) = int m" by (subst int32_id) (simp_all add: is_int32_def UTFMax_def)
    moreover have "go_copy (replicate m 0) 0 (take nbytes b) = Some (c, nbytes)"
      using True m(2) assms(3,4) by (simp add: go_copy_def c_def)
    moreover have "go_slice b 0 (int nbytes) = Some (take nbytes b)" using assms(3,4) by (simp add: go_slice_def)
    ultimately show ?thesis using True ml(2) by (simp add: go_make_bytes)
  qed (simp add: c_def m_def)
  have "Map_put b maxbytes nbytes r = do {
      t \<leftarrow> go_slice c (int nbytes) (int m); (t, w) \<leftarrow> EncodeRune t r; Some (take nbytes c @ t, m, nbytes + w) }"
    unfolding Map_put_def RuneLen_bytes [OF assms(1,2)] Let_def w pm [unfolded Let_def] by simp
  moreover have "go_slice c (int nbytes) (int m) = Some (drop nbytes c)" using m c(1) by (simp add: slice_def)
  moreover have "EncodeRune (drop nbytes c) r = Some (?u @ drop (length ?u) (drop nbytes c), length ?u)"
    by (rule e) (use m c in simp)
  ultimately show ?thesis using m c assms(3,4) by simp
qed

lemma Map_loop_eq:
  "\<lbrakk>list_all (\<lambda>r. r \<le> MaxRune) (run_closure mapping st (map snd rs)); nbytes \<le> maxbytes; length b = maxbytes;
    2 * (nbytes + length (encode_runes (run_closure mapping st (map snd rs)))) + 2 < 2 ^ 31\<rbrakk> \<Longrightarrow>
   \<exists>b' n. Map_loop mapping rs st b maxbytes nbytes = Some (b', n) \<and> n \<le> length b' \<and>
     take n b' = take nbytes b @ encode_runes (run_closure mapping st (map snd rs))"
proof (induction rs arbitrary: st b maxbytes nbytes)
  case (Cons x rs)
  obtain i c where x: "x = (i, c)" by fastforce
  obtain r st' where m: "mapping st c = (r, st')" by fastforce
  let ?E = "encode_runes (run_closure mapping st' (map snd rs))"
  have l: "list_all (\<lambda>r. r \<le> MaxRune) (run_closure mapping st' (map snd rs))" "r \<le> MaxRune"
    using Cons.prems(1) by (simp_all add: x m)
  show ?case
  proof (cases "0 \<le> r")
    case True
    then have B: "2 * (nbytes + length (utf8_bytes r) + length ?E) + 2 < 2 ^ 31"
      using Cons.prems(4) by (simp add: x m encode_runes_def)
    then have "2 * (nbytes + length (utf8_bytes r)) + 2 < 2 ^ 31" by simp
    from Map_put_eq [OF True l(2) Cons.prems(2,3) this] obtain b' m' where
      p: "Map_put b maxbytes nbytes r = Some (b', m', nbytes + length (utf8_bytes r))" "length b' = m'"
      "nbytes + length (utf8_bytes r) \<le> m'" "take (nbytes + length (utf8_bytes r)) b' = take nbytes b @ utf8_bytes r" by blast
    from Cons.IH [OF l(1) p(3,2) B] p(1,4) True show ?thesis by (auto simp: x m encode_runes_def)
  next
    case False
    have "2 * (nbytes + length ?E) + 2 < 2 ^ 31" using False Cons.prems(4) by (simp add: x m encode_runes_def)
    from False Cons.IH [OF l(1) Cons.prems(2,3) this] show ?thesis by (auto simp: x m encode_runes_def)
  qed
qed (simp add: encode_runes_def)

definition runes :: "gostring \<Rightarrow> int list" where
  "runes s = map fst (range_string s)"

lemma range_clause_runes: "map snd (range_clause s) = runes s"
proof -
  have "map snd (range_from i rs) = map fst rs" for i rs by (induction i rs rule: range_from.induct) auto
  then show ?thesis by (simp add: range_clause_def runes_def)
qed

lemma runes_bounds: "r \<in> set (runes s) \<Longrightarrow> 0 \<le> r \<and> r \<le> MaxRune"
proof -
  have "\<forall>r \<in> fst ` set (range_string s). 0 \<le> r \<and> r \<le> MaxRune"
  proof (induction s rule: range_string.induct)
    case (1 s)
    show ?case
    proof (cases "s = []")
      case False
      obtain r n where d: "DecodeRune s = (r, n)" by fastforce
      have "0 \<le> fst (charntorune s) \<and> fst (charntorune s) \<le> MaxRune"
        using DecodeRune_nonneg [OF d] d False by (simp add: charntorune_eq RuneError_def MaxRune_def)
      then show ?thesis using 1 [OF False] False by (simp add: range_string.simps [of s])
    qed (simp add: range_string.simps)
  qed
  then show "r \<in> set (runes s) \<Longrightarrow> 0 \<le> r \<and> r \<le> MaxRune" by (auto simp: runes_def)
qed

lemma Map_closure_eq:
  assumes "list_all (\<lambda>r. r \<le> MaxRune) (run_closure mapping st (runes s))" "length s < 2 ^ 31"
    "2 * length (encode_runes (run_closure mapping st (runes s))) + 2 < 2 ^ 31"
  shows "Map_closure mapping st s = Some (encode_runes (run_closure mapping st (runes s)))"
  using Map_loop_eq [of mapping st "range_clause s" 0 "length s" "replicate (length s) 0"] assms
  by (auto simp: range_clause_runes Map_closure_def go_slice_def go_make_bytes)

lemma encode_runes_length: "length (encode_runes rs) \<le> 4 * length rs"
proof (induction rs)
  case (Cons r rs)
  have "length (utf8_bytes r) \<le> 4" by (simp add: utf8_bytes_def)
  with Cons show ?case by (simp add: encode_runes_def)
qed (simp add: encode_runes_def)

lemma length_runes: "length (runes s) \<le> length s"
proof -
  have "covers rs n \<Longrightarrow> length rs \<le> n" for rs n
  proof (induction rs arbitrary: n)
    case (Cons x rs)
    then obtain r w where "x = (r, w)" "0 < w" "w \<le> n" "covers rs (n - w)" by (cases x) auto
    with Cons.IH [of "n - w"] show ?case by simp
  qed simp
  then show ?thesis using covers_range_string [of s] by (simp add: runes_def)
qed

lemma run_closure_map: "run_closure (\<lambda>_ r. (f r, ())) () rs = map f rs"
  by (induction rs) auto

lemma Map_eq:
  assumes "\<And>r. r \<in> set (runes s) \<Longrightarrow> f r \<le> MaxRune" "length s < 2 ^ 31"
    "2 * length (encode_runes (map f (runes s))) + 2 < 2 ^ 31"
  shows "Map f s = Some (encode_runes (map f (runes s)))"
  using assms Map_closure_eq [of "\<lambda>_ r. (f r, ())" "()" s]
  by (simp add: Map_def run_closure_map list_all_iff)

section \<open>Properties\<close>

lemma Split_pieces:
  fixes s :: gostring
  assumes "sep \<noteq> []" "n \<noteq> 0"
  defines "m \<equiv> (if n < 0 then int (Count s sep) + 1 else n)" and "k \<equiv> (if n < 0 then length s + 1 else nat n - 1)"
  shows "Split s sep n = (if 8 * m < 2 ^ 32 then Some (pieces s sep 0 k 0 0) else None)"
    "SplitAfter s sep n = (if 8 * m < 2 ^ 32 then Some (pieces s sep (length sep) k 0 0) else None)"
  using genSplit_pieces [OF assms(1), of 0 n s] genSplit_all(1) [OF assms(1), of 0 n s]
    genSplit_pieces [OF assms(1), of "length sep" n s] genSplit_all(1) [OF assms(1), of "length sep" n s] assms(2)
  by (simp_all add: Split_def SplitAfter_def m_def k_def)

text \<open>C20: Splitting. On a separator that is not empty and a limit that is not zero, \<open>Split\<close> and \<open>SplitAfter\<close> panic exactly
  when the slice they make (\<open>n\<close> strings, or \<open>Count(s, sep) + 1\<close> strings for a negative \<open>n\<close>, of 8 bytes each)
  is too large. Otherwise \<open>Join\<close> of the pieces with the separator is the string, the pieces of \<open>SplitAfter\<close>
  concatenate to the string, there are at most \<open>n\<close> pieces for a positive limit, and with no limit there
  are \<open>Count(s, sep) + 1\<close> pieces, none of which contains the separator.\<close>

theorem Split_Join:
  assumes "sep \<noteq> []" "n \<noteq> 0" "int (length s) < 2 ^ 31"
  shows "if 8 * (if n < 0 then int (Count s sep) + 1 else n) < 2 ^ 32
     then \<exists>a b. Split s sep n = Some a \<and> Join a sep = Some s \<and> SplitAfter s sep n = Some b \<and> concat b = s \<and>
       (0 < n \<longrightarrow> int (length a) \<le> n) \<and>
       (n < 0 \<longrightarrow> length a = Count s sep + 1 \<and> (\<forall>p \<in> set a. \<not> Contains p sep))
     else Split s sep n = None \<and> SplitAfter s sep n = None"
proof (cases "8 * (if n < 0 then int (Count s sep) + 1 else n) < 2 ^ 32")
  case True
  define k where "k = (if n < 0 then length s + 1 else nat n - 1)"
  let ?a = "pieces s sep 0 k 0 0" and ?b = "pieces s sep (length sep) k 0 0"
  have sp: "Split s sep n = Some ?a" "SplitAfter s sep n = Some ?b"
    using Split_pieces [OF assms(1,2), of s] True by (simp_all add: k_def)
  have j: "join sep ?a = s" using join_pieces [OF assms(1), of 0 0 s k] by simp
  have "Join ?a sep = Some s" using Join_eq [of sep ?a] assms(3) j by simp
  moreover have "concat ?b = s" using concat_pieces [OF assms(1), of 0 0 s k] by simp
  moreover have "int (length ?a) \<le> n" if "0 < n"
    using length_pieces [of s sep 0 k 0 0] that by (simp add: k_def)
  moreover have "length ?a = Count s sep + 1" if "n < 0"
    using genSplit_all(2) [OF assms(1) _ that, of 0 s] that by (simp add: k_def)
  moreover have "\<not> Contains p sep" if "n < 0" "p \<in> set ?a" for p
  proof -
    have "\<not> occ p sep q" for q
      using pieces_free [OF assms(1), of 0 0 s k p q] that by (simp add: k_def)
    then show ?thesis using Index_cases [OF assms(1), of p] by (auto simp: Contains_def)
  qed
  ultimately show ?thesis unfolding if_P [OF True] using sp by blast
next
  case False
  then show ?thesis using Split_pieces [OF assms(1,2), of s] by (simp only: if_False)
qed

theorem Split_Join_witness:
  "\<exists>a b. Split (bs ''a,b,,c'') (bs '','') (-1) = Some a \<and> Join a (bs '','') = Some (bs ''a,b,,c'') \<and>
     SplitAfter (bs ''a,b,,c'') (bs '','') (-1) = Some b \<and> concat b = bs ''a,b,,c'' \<and> length a = 4"
proof -
  have "Count (bs ''a,b,,c'') (bs '','') = 3" by code_simp
  then show ?thesis using Split_Join [of "bs '',''" "-1" "bs ''a,b,,c''"] by (simp split: if_splits) fastforce
qed

text \<open>C21: Replacing. For an \<open>old\<close> that is not empty, where \<open>Split\<close> does not panic, \<open>Replace\<close> with a limit \<open>n\<close> is \<open>Split\<close> into at
  most \<open>n + 1\<close> pieces followed by \<open>Join\<close> with the new string, and it returns while the result fits the
  32-bit length of a string. An empty \<open>old\<close> is different: \<open>Replace\<close> also puts \<open>new\<close> before the first and after
  the last rune, \<open>Split\<close> gives the runes alone.\<close>

theorem Replace_Split_Join:
  assumes "old \<noteq> []" "Split s old (if n < 0 then -1 else n + 1) = Some a" "int (length (join new a)) < 2 ^ 31"
  shows "Replace s old new n = Join a new \<and> Join a new = Some (join new a) \<and>
    Replace (bs ''ab'') [] (bs ''-'') (-1) = Some (bs ''-a-b-'') \<and> Split (bs ''ab'') [] (-1) = Some [bs ''a'', bs ''b'']"
proof -
  define c where "c = (if n < 0 \<or> int (Count s old) < n then Count s old else nat n)"
  have cn: "length (pieces s old 0 (length s + 1) 0 0) = Count s old + 1"
    using Count_pieces [OF assms(1), of s "length s + 1" 0 0] by simp
  have cs: "Count s old \<le> length s + 1" using cn length_pieces [of s old 0 "length s + 1" 0 0] by simp
  have full: "pieces s old 0 (Count s old) 0 0 = pieces s old 0 (length s + 1) 0 0"
    by (rule pieces_limit) (use cn cs in simp_all)
  have a: "a = pieces s old 0 c 0 0"
  proof (cases "n < 0")
    case True
    then show ?thesis
      using assms(2) genSplit_all(1) [OF assms(1), of 0 "-1" s] full by (simp add: Split_def c_def split: if_splits)
  next
    case False
    then have ap: "a = pieces s old 0 (nat n) 0 0"
      using assms(2) genSplit_pieces [OF assms(1), of 0 "n + 1" s] by (simp add: Split_def nat_add_distrib split: if_splits)
    show ?thesis
    proof (cases "int (Count s old) < n")
      case True
      have "pieces s old 0 (nat n) 0 0 = pieces s old 0 (max (nat n) (length s + 1)) 0 0"
        by (rule pieces_limit) (use True Count_pieces [OF assms(1), of s "max (nat n) (length s + 1)" 0 0] in simp_all)
      moreover have "pieces s old 0 (length s + 1) 0 0 = pieces s old 0 (max (nat n) (length s + 1)) 0 0"
        by (rule pieces_limit) (use cs Count_pieces [OF assms(1), of s "max (nat n) (length s + 1)" 0 0] in simp_all)
      ultimately show ?thesis using ap full True by (simp add: c_def)
    qed (use ap False in \<open>simp add: c_def\<close>)
  qed
  have "Replace s old new n = Some (join new a)"
  proof (cases "n = 0")
    case True
    then have "a = [s]" using a by (simp add: c_def pieces.simps [of s old 0 0])
    then show ?thesis using True by (simp add: Replace_def)
  next
    case False
    then show ?thesis using Replace_eq [OF assms(1) False, of new s] assms(3) a by (simp add: c_def)
  qed
  moreover have "Replace (bs ''ab'') [] (bs ''-'') (-1) = Some (bs ''-a-b-'')" by code_simp
  moreover have "Split (bs ''ab'') [] (-1) = Some [bs ''a'', bs ''b'']" by code_simp
  ultimately show ?thesis using Join_eq [OF assms(3)] by simp
qed

theorem Replace_Split_Join_witness:
  "Replace (bs ''a,b,,c'') (bs '','') (bs ''--'') 2 = Some (bs ''a--b--,c'')"
proof -
  have "Split (bs ''a,b,,c'') (bs '','') (if (2 :: int) < 0 then -1 else 2 + 1) = Some [bs ''a'', bs ''b'', bs '',c'']"
    by code_simp
  from Replace_Split_Join [OF _ this, of "bs ''--''"] show ?thesis by simp
qed

text \<open>C22: Trimming. \<open>TrimFunc\<close> never panics, on valid or invalid UTF-8: it cuts off a prefix and a suffix all of whose
  runes satisfy the predicate, at rune boundaries, and what is left neither starts nor ends with such
  a rune.\<close>

theorem TrimFunc_trims:
  "\<exists>a t b. s = a @ t @ b \<and> TrimFunc s f = Some t \<and> decode_all s = decode_all a @ decode_all t @ decode_all b \<and>
     list_all (\<lambda>d. f (fst d)) (decode_all a @ decode_all b) \<and>
     (t \<noteq> [] \<longrightarrow> \<not> f (fst (hd (decode_all t))) \<and> \<not> f (fst (last (decode_all t))))"
  using TrimFunc_parts [of s f] unfolding list_all_iff set_append by blast

theorem TrimFunc_trims_witness:
  "TrimSpace (bs '' a b '') = Some (bs ''a b'') \<and>
   (\<exists>a t b. bs '' a b '' = a @ t @ b \<and> TrimFunc (bs '' a b '') IsSpace = Some t)"
proof
  show "TrimSpace (bs '' a b '') = Some (bs ''a b'')" by code_simp
  show "\<exists>a t b. bs '' a b '' = a @ t @ b \<and> TrimFunc (bs '' a b '') IsSpace = Some t"
    using TrimFunc_trims [of "bs '' a b ''" IsSpace] by blast
qed

text \<open>C23: Fields. The counting pass of \<open>FieldsFunc\<close> predicts exactly the fields of the second pass, and the fields are the
  maximal runs of runes that do not satisfy the predicate. The only panic is that of \<open>make\<close> when the slice
  of the fields, 8 bytes each, is too large.\<close>

theorem FieldsFunc_runs:
  "FieldsFunc s f = (let fs = map chunk_bytes (nonempty_runs (\<lambda>c. f (fst c)) (rune_chunks s))
     in if 8 * length fs < 2 ^ 32 then Some fs else None)"
  using field_list_runs [of "range_string s" s 0 None f] covers_range_string [of s]
  by (simp add: FieldsFunc_list range_clause_def rune_chunks_def)

text \<open>C24: Mapping. \<open>Map\<close>, growing its buffer as needed, encodes the mapped runes in order, dropping the negative ones,
  for every mapping into the code points, while twice the length of the result and two bytes more fit in
  an \<open>int\<close> (the buffer it grows to may be that long). So \<open>ToUpper\<close> and \<open>ToLower\<close> never panic on a string of less
  than \<open>2 ^ 28\<close> bytes. A mapping that returns 0x200000 makes \<open>Map\<close> panic: \<open>RuneLen\<close> is -1 there, the buffer is not
  grown, and \<open>EncodeRune\<close> writes the three bytes of the error rune.\<close>

theorem Map_encodes:
  "(length s < 2 ^ 31 \<and> list_all (\<lambda>r. f r \<le> MaxRune) (runes s) \<and> 2 * length (encode_runes (map f (runes s))) + 2 < 2 ^ 31 \<longrightarrow>
     Map f s = Some (encode_runes (map f (runes s)))) \<and>
   (length s < 2 ^ 28 \<longrightarrow> strings_ToUpper s = Some (encode_runes (map ToUpper (runes s))) \<and>
     strings_ToLower s = Some (encode_runes (map ToLower (runes s)))) \<and>
   Map (\<lambda>_. 0x200000) (bs ''a'') = None"
proof (intro conjI impI)
  show "length s < 2 ^ 31 \<and> list_all (\<lambda>r. f r \<le> MaxRune) (runes s) \<and> 2 * length (encode_runes (map f (runes s))) + 2 < 2 ^ 31 \<Longrightarrow>
      Map f s = Some (encode_runes (map f (runes s)))"
    by (rule Map_eq) (auto simp: list_all_iff)
  have b: "ToUpper r \<le> MaxRune" "ToLower r \<le> MaxRune" if "r \<in> set (runes s)" for r
    using runes_bounds [OF that] case_of_bounds [of 0 r] case_of_bounds [of 1 r] by (simp_all add: To_cases MaxCase_def)
  assume l: "length s < 2 ^ 28"
  have "2 * length (encode_runes (map g (runes s))) + 2 < 2 ^ 31" for g
    using encode_runes_length [of "map g (runes s)"] length_runes [of s] l by simp
  with b l show "strings_ToUpper s = Some (encode_runes (map ToUpper (runes s)))"
    "strings_ToLower s = Some (encode_runes (map ToLower (runes s)))"
    unfolding strings_ToUpper_def strings_ToLower_def by (auto intro!: Map_eq)
next
  show "Map (\<lambda>_. 0x200000) (bs ''a'') = None" by code_simp
qed

theorem Map_encodes_witness:
  "Map (\<lambda>r. r + 1) (bs ''HAL'') = Some (bs ''IBM'') \<and> strings_ToUpper (bs ''ab'') = Some (encode_runes (map ToUpper (runes (bs ''ab''))))"
proof -
  have "runes (bs ''HAL'') = [0x48, 0x41, 0x4C]" by code_simp
  moreover have "encode_runes [0x49, 0x42, 0x4D] = bs ''IBM''" by code_simp
  ultimately show ?thesis
    using Map_encodes [of "bs ''HAL''" "\<lambda>r. r + 1"] Map_encodes [of "bs ''ab''" "\<lambda>r. r + 1"] by (simp add: MaxRune_def)
qed

end
