(* ===== verification/Bytes.thy ===== *)
theory Bytes
  imports Strings UTF8_String
begin

text \<open>
  The functions of package bytes (\<open>bytes.go\<close>), the counterparts of those of package strings on byte slices. They decode
  with \<open>utf8.DecodeRune\<close> throughout, where package strings uses the range clause, compare slices with \<open>Equal\<close>, and keep the
  bytes of invalid sequences in \<open>explode\<close>. A nil slice and an empty one are both the empty list. Each function is compared
  with its counterpart: they agree, for some of them on the byte sequences without encodings above \<open>MaxRune\<close> only.
\<close>

section \<open>Comparing\<close>

fun Compare_loop :: "gostring \<Rightarrow> gostring \<Rightarrow> int option" where
  "Compare_loop (ac # a) (bc # b) = (if ac > bc then Some 1 else if ac < bc then Some (-1) else Compare_loop a b)"
| "Compare_loop _ _ = None"

definition Compare :: "gostring \<Rightarrow> gostring \<Rightarrow> int" where
  "Compare a b = (let m = (if length a > length b then length b else length a) in
     case Compare_loop (take m a) b of
       Some r \<Rightarrow> r
     | None \<Rightarrow> if length a < length b then -1 else if length a > length b then 1 else 0)"

fun Equal_loop :: "gostring \<Rightarrow> gostring \<Rightarrow> bool" where
  "Equal_loop (c # a) (d # b) = (if c \<noteq> d then False else Equal_loop a b)"
| "Equal_loop _ _ = True"

definition Equal :: "gostring \<Rightarrow> gostring \<Rightarrow> bool" where
  "Equal a b = (if length a \<noteq> length b then False else Equal_loop a b)"

section \<open>Searching\<close>

lemma DecodeRune_le: "s \<noteq> [] \<Longrightarrow> 0 < snd (DecodeRune s) \<and> snd (DecodeRune s) \<le> length s"
  using DecodeRune_size [of s "fst (DecodeRune s)" "snd (DecodeRune s)"] by simp

function bytes_explode_loop :: "gostring \<Rightarrow> int \<Rightarrow> nat \<Rightarrow> gostring list \<Rightarrow> (gostring list \<times> nat) option" where
  "bytes_explode_loop s n na a =
     (if s \<noteq> [] then
        (if int na + 1 \<ge> n then do { a \<leftarrow> go_set a (int na) s; Some (a, na + 1) }
         else let size = snd (DecodeRune s) in do {
           a \<leftarrow> go_set a (int na) (take size s);
           bytes_explode_loop (drop size s) n (na + 1) a
         })
      else Some (a, na))"
  by pat_completeness auto
termination
  by (relation "measure (\<lambda>(s, n, na, a). length s)") (auto dest: DecodeRune_le)

declare bytes_explode_loop.simps [simp del]

definition bytes_explode :: "gostring \<Rightarrow> int \<Rightarrow> gostring list option" where
  "bytes_explode s n = (let n = (if n \<le> 0 then int (length s) else n) in do {
     a \<leftarrow> go_make 12 n [];
     (a, na) \<leftarrow> bytes_explode_loop s n 0 a;
     go_slice a 0 (int na)
   })"

function bytes_Count_loop :: "gostring \<Rightarrow> gostring \<Rightarrow> nat \<Rightarrow> nat \<Rightarrow> nat" where
  "bytes_Count_loop s sep i n =
     (if i + length sep \<le> length s then
        (if s ! i = sep ! 0 \<and> (length sep = 1 \<or> Equal (slice i (i + length sep) s) sep)
         then bytes_Count_loop s sep (i + (length sep - 1) + 1) (n + 1)
         else bytes_Count_loop s sep (i + 1) n)
      else n)"
  by pat_completeness auto
termination
  by (relation "measure (\<lambda>(s, sep, i, n). length s + 1 - i)") auto

declare bytes_Count_loop.simps [simp del]

definition bytes_Count :: "gostring \<Rightarrow> gostring \<Rightarrow> nat" where
  "bytes_Count s sep = (if length sep = 0 then RuneCount s + 1 else bytes_Count_loop s sep 0 0)"

definition bytes_Index :: "gostring \<Rightarrow> gostring \<Rightarrow> int" where
  "bytes_Index s sep = (let n = length sep in
     if n = 0 then 0 else let c = sep ! 0 in
     for_find (\<lambda>i. s ! i = c \<and> (n = 1 \<or> Equal (slice i (i + n) s) sep)) 0 (length s + 1 - n))"

definition bytes_LastIndex :: "gostring \<Rightarrow> gostring \<Rightarrow> int" where
  "bytes_LastIndex s sep = (let n = length sep in
     if n = 0 then int (length s) else let c = sep ! 0 in
     for_find_down (\<lambda>i. s ! i = c \<and> (n = 1 \<or> Equal (slice i (i + n) s) sep)) (length s + 1 - n))"

function bytes_IndexRune_loop :: "gostring \<Rightarrow> int \<Rightarrow> nat \<Rightarrow> int" where
  "bytes_IndexRune_loop s rune i =
     (if i < length s then
        let d = DecodeRune (drop i s) in
        if fst d = rune then int i else bytes_IndexRune_loop s rune (i + snd d)
      else -1)"
  by pat_completeness auto
termination
  by (relation "measure (\<lambda>(s, rune, i). length s - i)") (auto intro!: diff_less_mono2 DecodeRune_pos)

declare bytes_IndexRune_loop.simps [simp del]

definition bytes_IndexRune :: "gostring \<Rightarrow> int \<Rightarrow> int" where
  "bytes_IndexRune s rune = bytes_IndexRune_loop s rune 0"

function bytes_IndexAny_loop :: "gostring \<Rightarrow> gostring \<Rightarrow> nat \<Rightarrow> int" where
  "bytes_IndexAny_loop s chars i =
     (if i < length s then
        let d = (if uint (s ! i) < 0x80 then (uint (s ! i), 1) else DecodeRune (drop i s)) in
        if list_ex (\<lambda>(j, r). fst d = r) (range_clause chars) then int i else bytes_IndexAny_loop s chars (i + snd d)
      else -1)"
  by pat_completeness auto
termination
  by (relation "measure (\<lambda>(s, chars, i). length s - i)") (auto intro!: diff_less_mono2 DecodeRune_pos)

declare bytes_IndexAny_loop.simps [simp del]

definition bytes_IndexAny :: "gostring \<Rightarrow> gostring \<Rightarrow> int" where
  "bytes_IndexAny s chars = (if length chars > 0 then bytes_IndexAny_loop s chars 0 else -1)"

lemma DecodeLastRune_le: "p \<noteq> [] \<Longrightarrow> DecodeLastRune p = Some d \<Longrightarrow> 0 < snd d \<and> snd d \<le> length p"
  using DecodeLastRune_pos [of p d] by (simp add: DecodeLastRuneInString_eq)

function bytes_LastIndexAny_loop :: "gostring \<Rightarrow> gostring \<Rightarrow> nat \<Rightarrow> int option" where
  "bytes_LastIndexAny_loop s chars i =
     (if i > 0 then do {
        t \<leftarrow> (if i \<le> length s then Some (take i s) else None);
        d \<leftarrow> DecodeLastRune t;
        if list_ex (\<lambda>(j, m). fst d = m) (range_clause chars) then Some (int (i - snd d))
        else bytes_LastIndexAny_loop s chars (i - snd d)
      } else Some (-1))"
  by pat_completeness auto
termination
  by (relation "measure (\<lambda>(s, chars, i). i)") (auto split: if_splits dest!: DecodeLastRune_le [rotated])

declare bytes_LastIndexAny_loop.simps [simp del]

definition bytes_LastIndexAny :: "gostring \<Rightarrow> gostring \<Rightarrow> int option" where
  "bytes_LastIndexAny s chars = (if length chars > 0 then bytes_LastIndexAny_loop s chars (length s) else Some (-1))"

section \<open>Splitting and joining\<close>

function bytes_genSplit_loop :: "gostring \<Rightarrow> gostring \<Rightarrow> nat \<Rightarrow> nat \<Rightarrow> nat \<Rightarrow> nat \<Rightarrow> nat \<Rightarrow> gostring list \<Rightarrow>
    (gostring list \<times> nat \<times> nat) option" where
  "bytes_genSplit_loop s sep sepSave n i start na a =
     (if i + length sep \<le> length s \<and> na + 1 < n then
        (if s ! i = sep ! 0 \<and> (length sep = 1 \<or> Equal (slice i (i + length sep) s) sep) then do {
           t \<leftarrow> go_slice s (int start) (int (i + sepSave));
           a \<leftarrow> go_set a (int na) t;
           bytes_genSplit_loop s sep sepSave n (i + (length sep - 1) + 1) (i + length sep) (na + 1) a
         } else bytes_genSplit_loop s sep sepSave n (i + 1) start na a)
      else Some (a, na, start))"
  by pat_completeness auto
termination
  by (relation "measure (\<lambda>(s, sep, sepSave, n, i, start, na, a). length s + 1 - i)") auto

declare bytes_genSplit_loop.simps [simp del]

definition bytes_genSplit :: "gostring \<Rightarrow> gostring \<Rightarrow> nat \<Rightarrow> int \<Rightarrow> gostring list option" where
  "bytes_genSplit s sep sepSave n =
     (if n = 0 then Some []
      else if length sep = 0 then bytes_explode s n
      else let n = (if n < 0 then int (bytes_Count s sep) + 1 else n) in do {
        a \<leftarrow> go_make 12 n [];
        (a, na, start) \<leftarrow> bytes_genSplit_loop s sep sepSave (nat n) 0 0 0 a;
        t \<leftarrow> go_slice s (int start) (int (length s));
        a \<leftarrow> go_set a (int na) t;
        go_slice a 0 (int (na + 1))
      })"

definition bytes_Split :: "gostring \<Rightarrow> gostring \<Rightarrow> int \<Rightarrow> gostring list option" where
  "bytes_Split s sep n = bytes_genSplit s sep 0 n"

definition bytes_SplitAfter :: "gostring \<Rightarrow> gostring \<Rightarrow> int \<Rightarrow> gostring list option" where
  "bytes_SplitAfter s sep n = bytes_genSplit s sep (length sep) n"

function bytes_Fields_count :: "gostring \<Rightarrow> (int \<Rightarrow> bool) \<Rightarrow> nat \<Rightarrow> bool \<Rightarrow> nat \<Rightarrow> nat" where
  "bytes_Fields_count s f i inField n =
     (if i < length s then
        let d = DecodeRune (drop i s); wasInField = inField; inField = (\<not> f (fst d)) in
        bytes_Fields_count s f (i + snd d) inField (if inField \<and> \<not> wasInField then n + 1 else n)
      else n)"
  by pat_completeness auto
termination
  by (relation "measure (\<lambda>(s, f, i, inField, n). length s - i)") (auto intro!: diff_less_mono2 DecodeRune_pos)

declare bytes_Fields_count.simps [simp del]

function bytes_Fields_loop :: "gostring \<Rightarrow> (int \<Rightarrow> bool) \<Rightarrow> nat \<Rightarrow> nat \<Rightarrow> nat \<Rightarrow> int \<Rightarrow> gostring list \<Rightarrow>
    (gostring list \<times> nat) option" where
  "bytes_Fields_loop s f n i na fieldStart a =
     (if i \<le> length s \<and> na < n then
        let d = DecodeRune (drop i s); rune = fst d; size = snd d in
        if fieldStart < 0 \<and> size > 0 \<and> \<not> f rune then bytes_Fields_loop s f n (i + size) na (int i) a
        else do {
          (a, na, fieldStart) \<leftarrow> (if fieldStart \<ge> 0 \<and> (size = 0 \<or> f rune) then do {
              t \<leftarrow> go_slice s fieldStart (int i);
              a \<leftarrow> go_set a (int na) t;
              Some (a, na + 1, -1)
            } else Some (a, na, fieldStart));
          if size = 0 then Some (a, na) else bytes_Fields_loop s f n (i + size) na fieldStart a
        }
      else Some (a, na))"
  by pat_completeness auto
termination
  by (relation "measure (\<lambda>(s, f, n, i, na, fieldStart, a). length s + 1 - i)") auto

declare bytes_Fields_loop.simps [simp del]

definition bytes_FieldsFunc :: "gostring \<Rightarrow> (int \<Rightarrow> bool) \<Rightarrow> gostring list option" where
  "bytes_FieldsFunc s f = do {
     let n = bytes_Fields_count s f 0 False 0;
     a \<leftarrow> go_make 12 (int n) [];
     (a, na) \<leftarrow> bytes_Fields_loop s f n 0 0 (-1) a;
     go_slice a 0 (int na)
   }"

definition bytes_Fields :: "gostring \<Rightarrow> gostring list option" where
  "bytes_Fields s = bytes_FieldsFunc s IsSpace"

fun bytes_Join_loop :: "gostring \<Rightarrow> nat \<Rightarrow> gostring list \<Rightarrow> gostring \<Rightarrow> gostring option" where
  "bytes_Join_loop b bp [] sep = Some b"
| "bytes_Join_loop b bp (s # a) sep = do {
     (b, bp) \<leftarrow> put_bytes b bp s;
     (b, bp) \<leftarrow> (if a \<noteq> [] then put_bytes b bp sep else Some (b, bp));
     bytes_Join_loop b bp a sep
   }"

definition bytes_Join :: "gostring list \<Rightarrow> gostring \<Rightarrow> gostring option" where
  "bytes_Join a sep =
     (if length a = 0 then Some []
      else if length a = 1 then Some (a ! 0)
      else do {
        b \<leftarrow> go_make 1 (int32 (int (length sep * (length a - 1) + sum_list (map length a)))) 0;
        bytes_Join_loop b 0 a sep
      })"

definition bytes_HasPrefix :: "gostring \<Rightarrow> gostring \<Rightarrow> bool" where
  "bytes_HasPrefix s prefix \<longleftrightarrow> length s \<ge> length prefix \<and> Equal (slice 0 (length prefix) s) prefix"

definition bytes_HasSuffix :: "gostring \<Rightarrow> gostring \<Rightarrow> bool" where
  "bytes_HasSuffix s suffix \<longleftrightarrow> length s \<ge> length suffix \<and> Equal (slice (length s - length suffix) (length s) s) suffix"

section \<open>Mapping\<close>

definition bytes_Map_put :: "gostring \<Rightarrow> nat \<Rightarrow> nat \<Rightarrow> int \<Rightarrow> (gostring \<times> nat \<times> nat) option" where
  "bytes_Map_put b maxbytes nbytes rune = do {
     (b, maxbytes) \<leftarrow>
       (if int32 (int nbytes + RuneLen rune) > int maxbytes then do {
          let maxbytes = int32 (int maxbytes * 2 + UTFMax);
          nb \<leftarrow> go_make 1 maxbytes 0;
          t \<leftarrow> go_slice b 0 (int nbytes);
          (nb, _) \<leftarrow> go_copy nb 0 t;
          Some (nb, nat maxbytes)
        } else Some (b, maxbytes));
     t \<leftarrow> go_slice b (int nbytes) (int maxbytes);
     (t, w) \<leftarrow> EncodeRune t rune;
     Some (take nbytes b @ t, maxbytes, nbytes + w)
   }"

function bytes_Map_loop :: "('s \<Rightarrow> int \<Rightarrow> int \<times> 's) \<Rightarrow> gostring \<Rightarrow> nat \<Rightarrow> 's \<Rightarrow> gostring \<Rightarrow> nat \<Rightarrow> nat \<Rightarrow>
    (gostring \<times> nat) option" where
  "bytes_Map_loop mapping s i st b maxbytes nbytes =
     (if i < length s then
        let d = (if uint (s ! i) \<ge> 0x80 then DecodeRune (drop i s) else (uint (s ! i), 1));
            m = mapping st (fst d) in
        if fst m \<ge> 0 then do {
          (b, maxbytes, nbytes) \<leftarrow> bytes_Map_put b maxbytes nbytes (fst m);
          bytes_Map_loop mapping s (i + snd d) (snd m) b maxbytes nbytes
        } else bytes_Map_loop mapping s (i + snd d) (snd m) b maxbytes nbytes
      else Some (b, nbytes))"
  by pat_completeness auto
termination
  by (relation "measure (\<lambda>(mapping, s, i, st, b, maxbytes, nbytes). length s - i)") (auto intro!: diff_less_mono2 DecodeRune_pos)

declare bytes_Map_loop.simps [simp del]

definition bytes_Map_closure :: "('s \<Rightarrow> int \<Rightarrow> int \<times> 's) \<Rightarrow> 's \<Rightarrow> gostring \<Rightarrow> gostring option" where
  "bytes_Map_closure mapping st s = do {
     let maxbytes = length s;
     b \<leftarrow> go_make 1 (int maxbytes) 0;
     (b, nbytes) \<leftarrow> bytes_Map_loop mapping s 0 st b maxbytes 0;
     go_slice b 0 (int nbytes)
   }"

definition bytes_Map :: "(int \<Rightarrow> int) \<Rightarrow> gostring \<Rightarrow> gostring option" where
  "bytes_Map mapping s = bytes_Map_closure (\<lambda>_ r. (mapping r, ())) () s"

fun bytes_Repeat_loop :: "gostring \<Rightarrow> nat \<Rightarrow> gostring \<Rightarrow> nat \<Rightarrow> gostring option" where
  "bytes_Repeat_loop nb bp b 0 = Some nb"
| "bytes_Repeat_loop nb bp b (Suc m) = do {
     (nb, bp) \<leftarrow> put_bytes nb bp b;
     bytes_Repeat_loop nb bp b m
   }"

definition bytes_Repeat :: "gostring \<Rightarrow> int \<Rightarrow> gostring option" where
  "bytes_Repeat b n = do {
     nb \<leftarrow> go_make 1 (int32 (int (length b) * n)) 0;
     bytes_Repeat_loop nb 0 b (nat n)
   }"

definition bytes_ToUpper :: "gostring \<Rightarrow> gostring option" where
  "bytes_ToUpper s = bytes_Map ToUpper s"

definition bytes_ToLower :: "gostring \<Rightarrow> gostring option" where
  "bytes_ToLower s = bytes_Map ToLower s"

definition bytes_ToTitle :: "gostring \<Rightarrow> gostring option" where
  "bytes_ToTitle s = bytes_Map ToTitle s"

definition bytes_ToUpperSpecial :: "SpecialCase \<Rightarrow> gostring \<Rightarrow> gostring option" where
  "bytes_ToUpperSpecial cas s = bytes_Map (Special_ToUpper cas) s"

definition bytes_ToLowerSpecial :: "SpecialCase \<Rightarrow> gostring \<Rightarrow> gostring option" where
  "bytes_ToLowerSpecial cas s = bytes_Map (Special_ToLower cas) s"

definition bytes_ToTitleSpecial :: "SpecialCase \<Rightarrow> gostring \<Rightarrow> gostring option" where
  "bytes_ToTitleSpecial cas s = bytes_Map (Special_ToTitle cas) s"

definition bytes_isSeparator :: "int \<Rightarrow> bool" where
  "bytes_isSeparator rune =
     (if rune \<le> 0x7F then
        (if 0x30 \<le> rune \<and> rune \<le> 0x39 then False
         else if 0x61 \<le> rune \<and> rune \<le> 0x7A then False
         else if 0x41 \<le> rune \<and> rune \<le> 0x5A then False
         else if rune = 0x5F then False
         else True)
      else if IsLetter rune \<or> IsDigit rune then False
      else IsSpace rune)"

definition bytes_Title :: "gostring \<Rightarrow> gostring option" where
  "bytes_Title s = bytes_Map_closure (\<lambda>prev r. (if bytes_isSeparator prev then (ToTitle r, r) else (r, r))) 0x20 s"

section \<open>Trimming\<close>

function bytes_indexFunc_loop :: "gostring \<Rightarrow> (int \<Rightarrow> bool) \<Rightarrow> bool \<Rightarrow> nat \<Rightarrow> int" where
  "bytes_indexFunc_loop s f truth start =
     (if start < length s then
        let d = (if uint (s ! start) \<ge> 0x80 then DecodeRune (drop start s) else (uint (s ! start), 1)) in
        if f (fst d) = truth then int start else bytes_indexFunc_loop s f truth (start + snd d)
      else -1)"
  by pat_completeness auto
termination
  by (relation "measure (\<lambda>(s, f, truth, start). length s - start)") (auto intro!: diff_less_mono2 DecodeRune_pos)

declare bytes_indexFunc_loop.simps [simp del]

definition bytes_indexFunc :: "gostring \<Rightarrow> (int \<Rightarrow> bool) \<Rightarrow> bool \<Rightarrow> int" where
  "bytes_indexFunc s f truth = bytes_indexFunc_loop s f truth 0"

function bytes_lastIndexFunc_loop :: "gostring \<Rightarrow> (int \<Rightarrow> bool) \<Rightarrow> bool \<Rightarrow> nat \<Rightarrow> int option" where
  "bytes_lastIndexFunc_loop s f truth i =
     (if i > 0 then do {
        t \<leftarrow> (if i \<le> length s then Some (take i s) else None);
        d \<leftarrow> DecodeLastRune t;
        if f (fst d) = truth then Some (int (i - snd d)) else bytes_lastIndexFunc_loop s f truth (i - snd d)
      } else Some (-1))"
  by pat_completeness auto
termination
  by (relation "measure (\<lambda>(s, f, truth, i). i)") (auto split: if_splits dest!: DecodeLastRune_le [rotated])

declare bytes_lastIndexFunc_loop.simps [simp del]

definition bytes_lastIndexFunc :: "gostring \<Rightarrow> (int \<Rightarrow> bool) \<Rightarrow> bool \<Rightarrow> int option" where
  "bytes_lastIndexFunc s f truth = bytes_lastIndexFunc_loop s f truth (length s)"

definition bytes_IndexFunc :: "gostring \<Rightarrow> (int \<Rightarrow> bool) \<Rightarrow> int" where
  "bytes_IndexFunc s f = bytes_indexFunc s f True"

definition bytes_LastIndexFunc :: "gostring \<Rightarrow> (int \<Rightarrow> bool) \<Rightarrow> int option" where
  "bytes_LastIndexFunc s f = bytes_lastIndexFunc s f True"

definition bytes_TrimLeftFunc :: "gostring \<Rightarrow> (int \<Rightarrow> bool) \<Rightarrow> gostring option" where
  "bytes_TrimLeftFunc s f = (let i = bytes_indexFunc s f False in
     if i = -1 then Some [] else go_slice s i (int (length s)))"

definition bytes_TrimRightFunc :: "gostring \<Rightarrow> (int \<Rightarrow> bool) \<Rightarrow> gostring option" where
  "bytes_TrimRightFunc s f = do {
     i \<leftarrow> bytes_lastIndexFunc s f False;
     big \<leftarrow> (if i \<ge> 0 then map_option (\<lambda>b. b \<ge> 0x80) (go_index s i) else Some False);
     i \<leftarrow> (if big then do {
         t \<leftarrow> go_slice s i (int (length s));
         Some (i + int (snd (DecodeRune t)))
       } else Some (i + 1));
     go_slice s 0 i
   }"

definition bytes_TrimFunc :: "gostring \<Rightarrow> (int \<Rightarrow> bool) \<Rightarrow> gostring option" where
  "bytes_TrimFunc s f = do { t \<leftarrow> bytes_TrimLeftFunc s f; bytes_TrimRightFunc t f }"

definition bytes_makeCutsetFunc :: "gostring \<Rightarrow> int \<Rightarrow> bool" where
  "bytes_makeCutsetFunc cutset = (\<lambda>rune. list_ex (\<lambda>(j, c). c = rune) (range_clause cutset))"

definition bytes_Trim :: "gostring \<Rightarrow> gostring \<Rightarrow> gostring option" where
  "bytes_Trim s cutset = bytes_TrimFunc s (bytes_makeCutsetFunc cutset)"

definition bytes_TrimLeft :: "gostring \<Rightarrow> gostring \<Rightarrow> gostring option" where
  "bytes_TrimLeft s cutset = bytes_TrimLeftFunc s (bytes_makeCutsetFunc cutset)"

definition bytes_TrimRight :: "gostring \<Rightarrow> gostring \<Rightarrow> gostring option" where
  "bytes_TrimRight s cutset = bytes_TrimRightFunc s (bytes_makeCutsetFunc cutset)"

definition bytes_TrimSpace :: "gostring \<Rightarrow> gostring option" where
  "bytes_TrimSpace s = bytes_TrimFunc s IsSpace"

section \<open>Runes and replacing\<close>

function Runes_loop :: "gostring \<Rightarrow> nat \<Rightarrow> int list \<Rightarrow> int list option" where
  "Runes_loop s i t =
     (if s \<noteq> [] then let d = DecodeRune s in do {
        t \<leftarrow> go_set t (int i) (fst d);
        Runes_loop (drop (snd d) s) (i + 1) t
      } else Some t)"
  by pat_completeness auto
termination
  by (relation "measure (\<lambda>(s, i, t). length s)") (auto simp: DecodeRune_pos)

declare Runes_loop.simps [simp del]

definition Runes :: "gostring \<Rightarrow> int list option" where
  "Runes s = do { t \<leftarrow> go_make 4 (int (RuneCount s)) 0; Runes_loop s 0 t }"

fun bytes_Replace_loop :: "gostring \<Rightarrow> gostring \<Rightarrow> gostring \<Rightarrow> nat \<Rightarrow> nat \<Rightarrow> gostring \<Rightarrow> nat \<Rightarrow> nat \<Rightarrow>
    (gostring \<times> nat \<times> nat) option" where
  "bytes_Replace_loop s old new 0 i t w start = Some (t, w, start)"
| "bytes_Replace_loop s old new (Suc m) i t w start = do {
     rest \<leftarrow> go_slice s (int start) (int (length s));
     let j = (if length old = 0 then (if i > 0 then int start + int (snd (DecodeRune rest)) else int start)
              else int start + bytes_Index rest old);
     u \<leftarrow> go_slice s (int start) j;
     (t, w) \<leftarrow> go_copy t w u;
     (t, w) \<leftarrow> go_copy t w new;
     bytes_Replace_loop s old new m (i + 1) t w (nat j + length old)
   }"

definition bytes_Replace :: "gostring \<Rightarrow> gostring \<Rightarrow> gostring \<Rightarrow> int \<Rightarrow> gostring option" where
  "bytes_Replace s old new n =
     (if n = 0 then Some s
      else let m = int (bytes_Count s old) in
      if m = 0 then Some s
      else let n = (if n \<le> 0 \<or> m < n then m else n) in do {
        t \<leftarrow> go_make 1 (int32 (int (length s) + n * (int (length new) - int (length old)))) 0;
        (t, w, start) \<leftarrow> bytes_Replace_loop s old new (nat n) 0 t 0 0;
        rest \<leftarrow> go_slice s (int start) (int (length s));
        (t, w) \<leftarrow> go_copy t w rest;
        go_slice t 0 (int w)
      })"

section \<open>The counterparts in package strings\<close>

lemma Equal_eq [simp]: "Equal a b \<longleftrightarrow> a = b"
proof -
  have "length a = length b \<Longrightarrow> Equal_loop a b \<longleftrightarrow> a = b" by (induction a b rule: list_induct2) auto
  then show ?thesis by (auto simp: Equal_def)
qed

lemma Compare_lexordp:
  "Compare a b = (if a = b then 0 else if ord_class.lexordp a b then -1 else 1)"
proof -
  have t: "Compare_loop (take (if length a > length b then length b else length a) a) b = Compare_loop a b" for a b :: gostring
    by (induction a b rule: Compare_loop.induct) (auto split: if_splits)
  show ?thesis unfolding Compare_def Let_def t
  proof (induction a b rule: Compare_loop.induct)
    case (1 ac a bc b)
    consider "ac < bc" "\<not> bc < ac" "ac \<noteq> bc" | "bc < ac" "\<not> ac < bc" "ac \<noteq> bc" | "ac = bc" by fastforce
    then show ?case
    proof cases
      case 3
      then show ?thesis using 1 by (simp split del: if_split cong: if_cong option.case_cong)
    qed simp_all
  qed auto
qed

lemma for_find_cong: "(\<And>k. i \<le> k \<Longrightarrow> k < i + n \<Longrightarrow> P k = Q k) \<Longrightarrow> for_find P i n = for_find Q i n"
  by (induction n arbitrary: i) auto

lemma for_find_down_cong: "(\<And>k. k < n \<Longrightarrow> P k = Q k) \<Longrightarrow> for_find_down P n = for_find_down Q n"
  by (induction n) auto

lemma occ_test:
  "sep \<noteq> [] \<Longrightarrow> i + length sep \<le> length s \<Longrightarrow>
   s ! i = sep ! 0 \<and> (length sep = 1 \<or> Equal (slice i (i + length sep) s) sep) \<longleftrightarrow> occ s sep i"
  using occ_match_split [of sep i s] by simp

lemma Index_occ: "sep \<noteq> [] \<Longrightarrow> Index s sep = for_find (occ s sep) 0 (length s + 1 - length sep)"
  by (simp add: Index_def Let_def) (intro conjI impI for_find_cong; simp add: occ_single occ_search)

lemma LastIndex_occ: "sep \<noteq> [] \<Longrightarrow> LastIndex s sep = for_find_down (occ s sep) (length s + 1 - length sep)"
  by (simp add: LastIndex_def Let_def) (intro conjI impI for_find_down_cong; simp add: occ_single occ_search)

lemma bytes_Index_eq: "bytes_Index s sep = Index s sep"
proof (cases "sep = []")
  case False
  have "bytes_Index s sep = for_find (occ s sep) 0 (length s + 1 - length sep)"
    using False unfolding bytes_Index_def Let_def by (simp only: length_0_conv if_False) (rule for_find_cong, rule occ_test, auto)
  then show ?thesis using Index_occ [OF False] by simp
qed (simp add: bytes_Index_def Index_def)

lemma bytes_LastIndex_eq: "bytes_LastIndex s sep = LastIndex s sep"
proof (cases "sep = []")
  case False
  have "bytes_LastIndex s sep = for_find_down (occ s sep) (length s + 1 - length sep)"
    using False unfolding bytes_LastIndex_def Let_def by (simp only: length_0_conv if_False) (rule for_find_down_cong, rule occ_test, auto)
  then show ?thesis using LastIndex_occ [OF False] by simp
qed (simp add: bytes_LastIndex_def LastIndex_def)

lemma bytes_Count_loop_eq: "sep \<noteq> [] \<Longrightarrow> bytes_Count_loop s sep i n = Count_loop s sep i n"
proof (induction s sep i n rule: bytes_Count_loop.induct)
  case (1 s sep i n)
  show ?case
  proof (cases "i + length sep \<le> length s")
    case True
    note t = occ_test [OF 1(3) True] occ_match [OF 1(3) True]
    show ?thesis unfolding bytes_Count_loop.simps [of s sep i n] Count_loop.simps [of s sep i n] t
      using 1(1) [OF True, unfolded t] 1(2) [OF True, unfolded t] 1(3) by simp
  qed (simp add: bytes_Count_loop.simps [of s sep i n] Count_loop.simps [of s sep i n])
qed

lemma bytes_Count_eq: "sep \<noteq> [] \<Longrightarrow> bytes_Count s sep = Count s sep"
  using Count_single [of sep s 0 0] by (simp add: bytes_Count_def Count_def bytes_Count_loop_eq)

lemma bytes_Count_empty: "in_range s \<Longrightarrow> bytes_Count s [] = Count s []"
  by (simp add: bytes_Count_def Count_def RuneCount_eq RuneCountInString_def range_string_eq)

lemma bytes_genSplit_loop_eq:
  "bytes_genSplit_loop s sep sepSave n i start na a = genSplit_loop s sep sepSave n i start na a"
proof (induction s sep sepSave n i start na a rule: bytes_genSplit_loop.induct)
  case (1 s sep sepSave n i start na a)
  then show ?case
    by (subst bytes_genSplit_loop.simps, subst genSplit_loop.simps) (auto intro!: bind_option_cong split: if_splits)
qed

text \<open>An element takes 12 bytes in a \<open>[][]byte\<close> and 8 in a \<open>[]string\<close>, so the two packages make slices of different
  greatest lengths.\<close>

lemma go_make_agree: "n \<le> 2 ^ 28 + 2 \<Longrightarrow> go_make 12 n x = go_make 8 n x"
  by (simp add: go_make_def)

lemma Count_le: "sep \<noteq> [] \<Longrightarrow> Count s sep \<le> length s + 1"
  using Count_pieces [of sep s "length s + 1" 0 0] length_pieces [of s sep 0 "length s + 1" 0 0] by simp

lemma bytes_genSplit_eq:
  assumes "sep \<noteq> []" "length s < 2 ^ 28" "n < 2 ^ 28"
  shows "bytes_genSplit s sep sepSave n = genSplit s sep sepSave n"
proof -
  define m where "m = (if n < 0 then int (Count s sep) + 1 else n)"
  have "m \<le> 2 ^ 28 + 2" using Count_le [OF assms(1), of s] assms(2,3) by (simp add: m_def)
  then have "go_make 12 m ([] :: gostring) = go_make 8 m []" by (rule go_make_agree)
  then show ?thesis
    using assms(1) by (cases "n < 0") (simp_all add: bytes_genSplit_def genSplit_def bytes_Count_eq bytes_genSplit_loop_eq m_def)
qed

lemma bytes_Join_eq: "bytes_Join a sep = Join a sep"
proof -
  have "bytes_Join_loop b bp a sep = Join_loop b bp a sep" for b bp
    by (induction a arbitrary: b bp) (auto intro!: bind_option_cong split: if_splits)
  then show ?thesis by (simp add: bytes_Join_def Join_def)
qed

lemma bytes_Repeat_eq: "bytes_Repeat b n = Repeat b n"
proof -
  have "bytes_Repeat_loop nb bp b m = Repeat_loop nb bp b m" for nb bp m
    by (induction m arbitrary: nb bp) (auto intro!: bind_option_cong)
  then show ?thesis by (simp add: bytes_Repeat_def Repeat_def)
qed

lemma bytes_indexFunc_eq: "bytes_indexFunc s f truth = indexFunc s f truth"
proof -
  have "bytes_indexFunc_loop s f truth i = indexFunc_loop s f truth i" for i
  proof (induction s f truth i rule: bytes_indexFunc_loop.induct)
    case (1 s f truth i)
    then show ?case unfolding bytes_indexFunc_loop.simps [of s f truth i] indexFunc_loop.simps [of s f truth i]
      by (simp add: DecodeRuneInString_eq Let_def)
  qed
  then show ?thesis by (simp add: bytes_indexFunc_def indexFunc_def)
qed

lemma bytes_lastIndexFunc_eq: "bytes_lastIndexFunc s f truth = lastIndexFunc s f truth"
proof -
  have "bytes_lastIndexFunc_loop s f truth i = lastIndexFunc_loop s f truth i" for i
  proof (induction s f truth i rule: bytes_lastIndexFunc_loop.induct)
    case (1 s f truth i)
    then show ?case
      by (subst bytes_lastIndexFunc_loop.simps, subst lastIndexFunc_loop.simps)
        (auto simp: DecodeLastRuneInString_eq intro!: bind_option_cong split: if_splits)
  qed
  then show ?thesis by (simp add: bytes_lastIndexFunc_def lastIndexFunc_def)
qed

lemma bytes_TrimFunc_eq: "bytes_TrimFunc s f = TrimFunc s f"
  unfolding bytes_TrimFunc_def TrimFunc_def bytes_TrimLeftFunc_def TrimLeftFunc_def bytes_TrimRightFunc_def TrimRightFunc_def
    bytes_indexFunc_eq bytes_lastIndexFunc_eq DecodeRuneInString_eq ..

lemma bytes_Replace_eq: "old \<noteq> [] \<Longrightarrow> old \<noteq> new \<Longrightarrow> bytes_Replace s old new n = Replace s old new n"
proof -
  have "bytes_Replace_loop s old new m i t w start = Replace_loop s old new m i t w start" for m i t w start
    by (induction m arbitrary: i t w start) (auto simp: bytes_Index_eq DecodeRuneInString_eq Let_def intro!: bind_option_cong split: if_splits)
  moreover assume "old \<noteq> []" "old \<noteq> new"
  ultimately show ?thesis by (simp add: bytes_Replace_def Replace_def bytes_Count_eq Let_def)
qed

text \<open>Searches over the runes of a slice, as searches in the list of its runes with their positions.\<close>

definition runes_at :: "gostring \<Rightarrow> nat \<Rightarrow> (nat \<times> int) list" where
  "runes_at s i = range_from i (decode_all (drop i s))"

lemma runes_at_end [simp]: "length s \<le> i \<Longrightarrow> runes_at s i = []"
  by (simp add: runes_at_def)

lemma runes_at_step: "i < length s \<Longrightarrow> runes_at s i = (i, fst (DecodeRune (drop i s))) # runes_at s (i + snd (DecodeRune (drop i s)))"
  by (cases "DecodeRune (drop i s)") (simp add: runes_at_def decode_all.simps [of "drop i s"] add.commute)

lemma range_clause_runes_at: "in_range s \<Longrightarrow> range_clause s = runes_at s 0"
  by (simp add: range_clause_def runes_at_def range_string_eq)

lemma DecodeRune_ascii: "i < length s \<Longrightarrow> uint (s ! i) < 0x80 \<Longrightarrow> DecodeRune (drop i s) = (uint (s ! i), 1)"
  by (simp add: DecodeRune_unfold Let_def byte_less_uint)

lemma decode_fast:
  assumes "i < length s"
  shows "(if uint (s ! i) \<ge> 0x80 then DecodeRune (drop i s) else (uint (s ! i), 1)) = DecodeRune (drop i s)"
    "(if uint (s ! i) < 0x80 then (uint (s ! i), 1) else DecodeRune (drop i s)) = DecodeRune (drop i s)"
  using DecodeRune_ascii [OF assms] by auto

fun find_rune :: "(int \<Rightarrow> bool) \<Rightarrow> (nat \<times> int) list \<Rightarrow> int" where
  "find_rune f [] = -1"
| "find_rune f ((i, r) # rs) = (if f r then int i else find_rune f rs)"

lemma bytes_indexFunc_loop_find: "bytes_indexFunc_loop s f True i = find_rune f (runes_at s i)"
proof (induction s f True i rule: bytes_indexFunc_loop.induct)
  case (1 s f i)
  show ?case
  proof (cases "i < length s")
    case True
    then show ?thesis using 1 by (simp add: bytes_indexFunc_loop.simps [of s f True i] decode_fast Let_def runes_at_step)
  qed (simp add: bytes_indexFunc_loop.simps)
qed

lemma bytes_IndexRune_find: "bytes_IndexRune_loop s rune i = find_rune (\<lambda>r. r = rune) (runes_at s i)"
proof (induction s rune i rule: bytes_IndexRune_loop.induct)
  case (1 s rune i)
  show ?case
  proof (cases "i < length s")
    case True
    then show ?thesis using 1 by (simp add: bytes_IndexRune_loop.simps [of s rune i] Let_def runes_at_step)
  qed (simp add: bytes_IndexRune_loop.simps)
qed

lemma bytes_IndexAny_find:
  "bytes_IndexAny_loop s chars i = find_rune (\<lambda>r. list_ex (\<lambda>(j, m). r = m) (range_clause chars)) (runes_at s i)"
proof (induction s chars i rule: bytes_IndexAny_loop.induct)
  case (1 s chars i)
  show ?case
  proof (cases "i < length s")
    case True
    then show ?thesis using 1 by (simp add: bytes_IndexAny_loop.simps [of s chars i] decode_fast Let_def runes_at_step)
  qed (simp add: bytes_IndexAny_loop.simps)
qed

lemma IndexAny_find: "IndexAny_range rs chars = find_rune (\<lambda>r. list_ex (\<lambda>(j, m). r = m) (range_clause chars)) rs"
  by (induction rs chars rule: IndexAny_range.induct) auto

lemma IndexRune_find: "IndexRune_range rs rune = find_rune (\<lambda>r. r = rune) rs"
  by (induction rs rune rule: IndexRune_range.induct) auto

lemma bytes_IndexAny_eq: "in_range s \<Longrightarrow> bytes_IndexAny s chars = IndexAny s chars"
  by (simp add: bytes_IndexAny_def IndexAny_def bytes_IndexAny_find IndexAny_find range_clause_runes_at)

lemma bytes_LastIndexAny_eq: "bytes_LastIndexAny s chars = LastIndexAny s chars"
proof -
  have "bytes_LastIndexAny_loop s chars i = LastIndexAny_loop s chars i" for i
  proof (induction s chars i rule: bytes_LastIndexAny_loop.induct)
    case (1 s chars i)
    then show ?case
      by (subst bytes_LastIndexAny_loop.simps, subst LastIndexAny_loop.simps)
        (auto simp: DecodeLastRuneInString_eq intro!: bind_option_cong split: if_splits)
  qed
  then show ?thesis by (simp add: bytes_LastIndexAny_def LastIndexAny_def)
qed

text \<open>An ASCII byte is a rune of its own wherever it stands.\<close>

lemma find_ascii:
  assumes "0 \<le> c" "c < 0x80"
  shows "find_rune (\<lambda>r. r = c) (runes_at s i) = for_find (\<lambda>k. s ! k = go_byte c) i (length s - i)"
proof (induction "length s - i" arbitrary: i rule: less_induct)
  case less
  show ?case
  proof (cases "i < length s")
    case True
    obtain r n where d: "DecodeRune (drop i s) = (r, n)" by force
    have n: "0 < n" "n \<le> length s - i" using DecodeRune_size [of "drop i s" r n] d True by auto
    have b: "s ! i = go_byte c \<longleftrightarrow> uint (s ! i) = c" using go_byte_uint [of "s ! i"] uint_byte_of_int [of c] assms by auto
    have skip: "for_find P i (length s - i) = for_find P (i + n) (length s - (i + n))" if "\<forall>k. i \<le> k \<and> k < i + n \<longrightarrow> \<not> P k" for P
      using that n
    proof (induction n arbitrary: i)
      case (Suc m)
      then have "length s - i = Suc (length s - Suc i)" by simp
      then have "for_find P i (length s - i) = for_find P (Suc i) (length s - Suc i)" using Suc(2) by simp
      then show ?case using Suc by (cases "m = 0") auto
    qed simp
    show ?thesis
    proof (cases "uint (s ! i) < 0x80")
      case asc: True
      then have "r = uint (s ! i)" "n = 1" using DecodeRune_ascii [OF True] d by auto
      moreover have "length s - i = Suc (length s - Suc i)" using True by simp
      ultimately show ?thesis using less [of "i + 1"] True b d by (simp add: runes_at_step)
    next
      case False
      have hi: "\<forall>k. i \<le> k \<and> k < i + n \<longrightarrow> s ! k \<noteq> go_byte c" "r \<noteq> c"
      proof -
        have "go_byte c \<noteq> x" if "0x80 \<le> uint x" for x using uint_byte_of_int [of c] assms that by auto
        moreover have "0x80 \<le> uint (s ! k)" if k: "i \<le> k" "k < i + n" for k
        proof (cases "k = i")
          case other: False
          then have "\<not> RuneStart (drop i s ! (k - i))" using DecodeRune_multi(2) [OF d, of "k - i"] k by simp
          then show ?thesis using not_start_bounds other k True n by simp
        qed (use False in simp)
        ultimately show "\<forall>k. i \<le> k \<and> k < i + n \<longrightarrow> s ! k \<noteq> go_byte c" by metis
        have "0x80 \<le> r" using d False True by (simp add: DecodeRune_unfold Let_def byte_less_uint RuneError_def split: if_splits)
        then show "r \<noteq> c" using assms by simp
      qed
      then show ?thesis using less [of "i + n"] True n d skip by (simp add: runes_at_step)
    qed
  qed simp
qed


lemma bytes_IndexRune_eq:
  assumes "in_range s" "0 \<le> rune"
  shows "bytes_IndexRune s rune = IndexRune s rune"
proof (cases "rune < 0x80")
  case True
  then show ?thesis using find_ascii [OF assms(2) True, of s 0] by (simp add: bytes_IndexRune_def IndexRune_def bytes_IndexRune_find)
next
  case False
  then show ?thesis by (simp add: bytes_IndexRune_def IndexRune_def bytes_IndexRune_find IndexRune_find range_clause_runes_at assms(1))
qed

text \<open>\<open>FieldsFunc\<close> stores the fields of the list of runes.\<close>

lemma bytes_Fields_count_eq: "bytes_Fields_count s f i inField n = FieldsFunc_count f (runes_at s i) inField n"
proof (induction s f i inField n rule: bytes_Fields_count.induct)
  case (1 s f i inField n)
  show ?case
  proof (cases "i < length s")
    case True
    then show ?thesis using 1 [OF True] by (simp add: bytes_Fields_count.simps [of s f i] runes_at_step Let_def)
  qed (simp add: bytes_Fields_count.simps)
qed

lemma bytes_Fields_loop_eq:
  "\<lbrakk>i \<le> length s; \<forall>k. st = Some k \<longrightarrow> k \<le> i; na + length (field_list s f (runes_at s i) st) = length a; n = length a\<rbrakk> \<Longrightarrow>
   bytes_Fields_loop s f n i na (field_start st) a = Some (take na a @ field_list s f (runes_at s i) st, n)"
proof (induction "length s - i" arbitrary: i st na a rule: less_induct)
  case less
  note prems = less.prems
  show ?case
  proof (cases "na < n")
    case False
    then have "length (field_list s f (runes_at s i) st) = 0" "na = length a" using prems(3,4) by linarith+
    then show ?thesis using prems(4) by (simp add: bytes_Fields_loop.simps [of s f "length a" i "length a"])
  next
    case na: True
    show ?thesis
    proof (cases "i < length s")
      case False
      then have i: "i = length s" "DecodeRune (drop i s) = (RuneError, 0)" using prems(1) by (simp_all add: DecodeRune_unfold)
      then obtain k where k: "st = Some k" "k \<le> length s" using na prems by (cases st) auto
      then have "length a = Suc na" using prems i by simp
      then have "take na a @ [drop k s] = a[na := drop k s]" by (simp add: list_update_append take_Suc_conv_app_nth upd_conv_take_nth_drop)
      then show ?thesis using i k na \<open>length a = Suc na\<close> prems(4)
        by (subst bytes_Fields_loop.simps) (simp add: field_start_def go_slice_def go_set_def)
    next
      case True
      obtain r w where d: "DecodeRune (drop i s) = (r, w)" by force
      have w: "0 < w" "i + w \<le> length s" "length s - (i + w) < length s - i" using DecodeRune_size [OF d] True by auto
      have rs: "runes_at s i = (i, r) # runes_at s (i + w)" using runes_at_step [OF True] d by simp
      note IH = less.hyps [OF w(3) w(2)]
      show ?thesis
      proof (cases st)
        case None
        then show ?thesis using IH [of None na a] IH [of "Some i" na a] prems na d w rs
          by (subst bytes_Fields_loop.simps) (auto simp: field_start_def)
      next
        case (Some k)
        then have k: "k \<le> i" using prems(2) by simp
        show ?thesis
        proof (cases "f r")
          case False
          then show ?thesis using IH [of "Some k" na a] prems na d w rs k Some
            by (subst bytes_Fields_loop.simps) (auto simp: field_start_def)
        next
          case True
          have "take (Suc na) (a[na := slice k i s]) = take na a @ [slice k i s]"
            using na prems(4) by (simp add: take_Suc_conv_app_nth)
          moreover have "go_slice s (int k) (int i) = Some (slice k i s)" "go_set a (int na) (slice k i s) = Some (a[na := slice k i s])"
            using k prems(1) na prems(4) by (simp_all add: go_slice_def go_set_def slice_def)
          ultimately show ?thesis using IH [of None "na + 1" "a[na := slice k i s]"] prems na d w rs Some True
            by (subst bytes_Fields_loop.simps) (simp add: field_start_def)
        qed
      qed
    qed
  qed
qed

lemma bytes_FieldsFunc_list: "bytes_FieldsFunc s f =
    (let fs = field_list s f (runes_at s 0) None in if 12 * length fs < 2 ^ 32 then Some fs else None)"
proof -
  let ?l = "field_list s f (runes_at s 0) None"
  have n: "bytes_Fields_count s f 0 False 0 = length ?l"
    using FieldsFunc_count_list [of f "runes_at s 0" None 0 s] by (simp add: bytes_Fields_count_eq)
  have "bytes_Fields_loop s f (length ?l) 0 0 (-1) (replicate (length ?l) []) = Some (?l, length ?l)"
    using bytes_Fields_loop_eq [of 0 s None 0 f "replicate (length ?l) []" "length ?l"] by (simp add: field_start_def)
  then show ?thesis by (simp add: bytes_FieldsFunc_def n go_make_nat go_slice_def Let_def)
qed

lemma field_list_length: "length (field_list s f rs st) \<le> length rs + (if st = None then 0 else 1)"
  by (induction s f rs st rule: field_list.induct) auto

lemma bytes_FieldsFunc_eq:
  assumes "in_range s" "length s < 2 ^ 28"
  shows "bytes_FieldsFunc s f = FieldsFunc s f"
proof -
  let ?fs = "field_list s f (runes_at s 0) None"
  have "length (runes_at s 0) = length (runes s)"
    using arg_cong [OF range_clause_runes [of s], of length] assms(1) by (simp add: range_clause_runes_at)
  then have "length ?fs < 2 ^ 28" using field_list_length [of s f "runes_at s 0" None] length_runes [of s] assms(2) by simp
  then have "12 * length ?fs < 2 ^ 32" "8 * length ?fs < 2 ^ 32" by simp_all
  then show ?thesis using assms(1) unfolding bytes_FieldsFunc_list FieldsFunc_list Let_def
    by (simp only: range_clause_runes_at if_True)
qed

lemma bytes_Map_put_eq: "0 \<le> r \<Longrightarrow> bytes_Map_put b maxbytes nbytes r = Map_put b maxbytes nbytes r"
proof -
  assume "0 \<le> r"
  then have "(if r \<ge> 0x80 then RuneLen r else 1) = RuneLen r" by (simp add: RuneLen_def)
  then show ?thesis by (simp add: bytes_Map_put_def Map_put_def)
qed

lemma bytes_Map_loop_eq:
  "bytes_Map_loop mapping s i st b maxbytes nbytes = Map_loop mapping (runes_at s i) st b maxbytes nbytes"
proof (induction mapping s i st b maxbytes nbytes rule: bytes_Map_loop.induct)
  case (1 mapping s i st b maxbytes nbytes)
  show ?case
  proof (cases "i < length s")
    case True
    show ?thesis unfolding bytes_Map_loop.simps [of mapping s i] runes_at_step [OF True] Let_def decode_fast [OF True]
      using 1 [OF True, unfolded Let_def decode_fast [OF True], OF refl refl] True
      by (auto simp: bytes_Map_put_eq split: prod.splits intro!: bind_option_cong)
  qed (simp add: bytes_Map_loop.simps)
qed

lemma bytes_Map_closure_eq: "in_range s \<Longrightarrow> bytes_Map_closure mapping st s = Map_closure mapping st s"
  by (simp add: bytes_Map_closure_def Map_closure_def bytes_Map_loop_eq range_clause_runes_at)

text \<open>\<open>explode\<close> and \<open>Runes\<close> follow the chunks of the forward decoding.\<close>

lemma chunks_bytes: "concat (map snd (chunks s (decode_all s))) = s"
  by (induction s rule: decode_all_induct) (simp_all add: decode_all_rec)

lemma length_chunks [simp]: "length (chunks s rs) = length rs"
  by (induction s rs rule: chunks.induct) auto

definition exploded :: "gostring \<Rightarrow> nat \<Rightarrow> gostring list" where
  "exploded s n = (let c = map snd (chunks s (decode_all s)) in
     if length c \<le> n then c else take (n - 1) c @ [concat (drop (n - 1) c)])"

lemma exploded_Nil [simp]: "exploded [] n = []"
  by (simp add: exploded_def)

lemma exploded_one: "s \<noteq> [] \<Longrightarrow> exploded s (Suc 0) = [s]"
  using chunks_bytes [of s] by (auto simp: exploded_def Let_def decode_all.simps [of s] length_Suc_conv le_Suc_eq split: prod.splits)

lemma exploded_rec:
  "s \<noteq> [] \<Longrightarrow> DecodeRune s = (r, w) \<Longrightarrow> exploded s (Suc (Suc n)) = take w s # exploded (drop w s) (Suc n)"
  by (simp add: exploded_def Let_def decode_all_rec)

lemma concat_exploded [simp]: "concat (exploded s n) = s"
proof -
  have "concat (take k c) @ concat (drop k c) = concat c" for k and c :: "gostring list"
    unfolding concat_append [symmetric] by simp
  then show ?thesis using chunks_bytes [of s] by (simp add: exploded_def Let_def)
qed

lemma exploded_length: "0 < n \<Longrightarrow> length (exploded s n) \<le> n"
  by (simp add: exploded_def Let_def)

lemma bytes_explode_loop_eq:
  "length a = na + Suc k \<Longrightarrow> bytes_explode_loop s (int (na + Suc k)) na a =
     Some (take na a @ exploded s (Suc k) @ drop (na + length (exploded s (Suc k))) a, na + length (exploded s (Suc k)))"
proof (induction s arbitrary: na a k rule: decode_all_induct)
  case Nil
  then show ?case by (simp add: bytes_explode_loop.simps)
next
  case (Rune p r n)
  show ?case
  proof (cases k)
    case 0
    then show ?thesis using Rune
      by (simp add: bytes_explode_loop.simps [of p] exploded_one go_set_def upd_conv_take_nth_drop)
  next
    case (Suc j)
    have "take (Suc na) (a[na := take n p]) = take na a @ [take n p]" "drop (Suc na + m) (a[na := take n p]) = drop (Suc na + m) a" for m
      using Rune.prems by (simp_all add: take_Suc_conv_app_nth)
    then show ?thesis using Rune Rune.IH [of "a[na := take n p]" "Suc na" j] Suc
      by (simp add: bytes_explode_loop.simps [of p] exploded_rec go_set_def)
  qed
qed

lemma decode_all_le: "length (decode_all s) \<le> length s"
  by (induction s rule: decode_all_induct) (auto simp: decode_all_rec)

lemma bytes_explode_eq:
  defines "m \<equiv> \<lambda>s n. if n \<le> 0 then length s else nat n"
  shows "bytes_explode s n = (if 12 * m s n < 2 ^ 32 then Some (exploded s (m s n)) else None)"
proof -
  have m: "(if n \<le> 0 then int (length s) else n) = int (m s n)" by (simp add: m_def)
  have mk: "go_make 12 (int (m s n)) ([] :: gostring) = (if 12 * m s n < 2 ^ 32 then Some (replicate (m s n) []) else None)"
    by (rule go_make_nat) simp
  show ?thesis
  proof (cases "m s n")
    case 0
    then have "s = []" by (auto simp: m_def split: if_splits)
    then show ?thesis using 0 mk unfolding bytes_explode_def m
      by (simp add: go_slice_def bytes_explode_loop.simps)
  next
    case (Suc k)
    have "length (exploded s (Suc k)) \<le> Suc k" by (rule exploded_length) simp
    then show ?thesis
      using bytes_explode_loop_eq [of "replicate (Suc k) []" 0 k s] mk
      unfolding bytes_explode_def m Let_def Suc
      by (simp add: go_slice_def del: of_nat_Suc replicate_Suc)
  qed
qed

lemma Runes_loop_eq:
  "i + length (decode_all s) = length t \<Longrightarrow> Runes_loop s i t = Some (take i t @ map fst (decode_all s))"
proof (induction s arbitrary: i t rule: decode_all_induct)
  case Nil
  then show ?case by (simp add: Runes_loop.simps)
next
  case (Rune p r n)
  then have "i < length t" by (simp add: decode_all_rec)
  then have "take (Suc i) (t[i := r]) = take i t @ [r]" by (simp add: take_Suc_conv_app_nth)
  then show ?case using Rune.hyps Rune.prems Rune.IH [of "Suc i" "t[i := r]"] \<open>i < length t\<close>
    by (simp add: Runes_loop.simps [of p] decode_all_rec go_set_def)
qed

lemma Runes_eq: "Runes s = (if 4 * RuneCount s < 2 ^ 32 then Some (map fst (decode_all s)) else None)"
  using Runes_loop_eq [of 0 s "replicate (RuneCount s) 0"] by (simp add: Runes_def go_make_nat RuneCount_eq)

section \<open>Properties\<close>

text \<open>C25: The two packages agree. The functions of package bytes return what their counterparts of package strings return
  (a panic included). Searching for a sequence, joining, repeating and trimming agree on all arguments. Counting,
  splitting and replacing agree for a separator that is not empty, splitting for a slice and a limit below \<open>2 ^ 28\<close> (a
  \<open>[]byte\<close> takes 12 bytes and a \<open>string\<close> 8, so \<open>make\<close> panics at different lengths), replacing for \<open>old\<close> different from
  \<open>new\<close>. Counting runes, searching for a rune, fields (below \<open>2 ^ 28\<close> bytes) and mapping, where the one decodes with
  \<open>utf8.DecodeRune\<close> and the other with the range clause, agree on the sequences without encodings above \<open>MaxRune\<close>. Where
  these conditions fail they differ: on F4 90 80 80 they count one and four runes, searching for a negative rune
  \<open>strings.IndexRune\<close> finds the byte it is truncated to, and splitting FF 61 with an empty separator \<open>bytes.Split\<close> keeps the
  byte FF and \<open>strings.Split\<close> returns the three bytes of the error rune.\<close>

theorem bytes_strings_agree:
  "bytes_Index s sep = Index s sep \<and> bytes_LastIndex s sep = LastIndex s sep \<and>
   bytes_LastIndexAny s sep = LastIndexAny s sep \<and>
   bytes_HasPrefix s sep = HasPrefix s sep \<and> bytes_HasSuffix s sep = HasSuffix s sep \<and>
   bytes_Join ss sep = Join ss sep \<and> bytes_Repeat s n = Repeat s n \<and>
   bytes_IndexFunc s f = IndexFunc s f \<and> bytes_LastIndexFunc s f = LastIndexFunc s f \<and>
   bytes_TrimFunc s f = TrimFunc s f \<and> bytes_TrimSpace s = TrimSpace s \<and>
   (sep \<noteq> [] \<longrightarrow> bytes_Count s sep = Count s sep \<and>
      (length s < 2 ^ 28 \<and> n < 2 ^ 28 \<longrightarrow> bytes_Split s sep n = Split s sep n \<and> bytes_SplitAfter s sep n = SplitAfter s sep n) \<and>
      (sep \<noteq> new \<longrightarrow> bytes_Replace s sep new n = Replace s sep new n)) \<and>
   (in_range s \<longrightarrow> bytes_Count s [] = Count s [] \<and> bytes_IndexAny s sep = IndexAny s sep \<and>
      (0 \<le> rune \<longrightarrow> bytes_IndexRune s rune = IndexRune s rune) \<and>
      (length s < 2 ^ 28 \<longrightarrow> bytes_FieldsFunc s f = FieldsFunc s f \<and> bytes_Fields s = Fields s) \<and>
      bytes_Map g s = Map g s \<and> bytes_ToUpper s = strings_ToUpper s \<and> bytes_ToLower s = strings_ToLower s \<and>
      bytes_ToTitle s = strings_ToTitle s \<and> bytes_Title s = strings_Title s) \<and>
   bytes_Count above_max [] = 2 \<and> Count above_max [] = 5 \<and>
   bytes_IndexRune [0xFF] (-1) = -1 \<and> IndexRune [0xFF] (-1) = 0 \<and>
   bytes_Split [0xFF, 0x61] [] (-1) = Some [[0xFF], [0x61]] \<and>
   Split [0xFF, 0x61] [] (-1) = Some [[0xEF, 0xBF, 0xBD], [0x61]]"
proof -
  have d: "DecodeRune above_max = (0x110000, 4)" "DecodeRune [0xFF] = (RuneError, 1)" by code_simp+
  have "bytes_Count above_max [] = 2"
    using d unfolding above_max_def by (simp add: bytes_Count_def RuneCount_eq decode_all.simps)
  moreover have "Count above_max [] = 5"
    by (simp add: Count_def range_above_max RuneCountInString_def)
  moreover have "bytes_IndexRune [0xFF] (-1) = -1"
    using d(2) by (simp add: bytes_IndexRune_def bytes_IndexRune_loop.simps RuneError_def)
  moreover have "IndexRune [0xFF] (-1) = 0" by code_simp
  moreover have "bytes_genSplit [0xFF, 0x61] [] 0 (-1) = Some [[0xFF], [0x61]]" by code_simp
  moreover have "genSplit [0xFF, 0x61] [] 0 (-1) = Some [[0xEF, 0xBF, 0xBD], [0x61]]" by code_simp
  moreover have "bytes_isSeparator = isSeparator" by (rule ext) (simp add: bytes_isSeparator_def isSeparator_def)
  ultimately show ?thesis
    by (simp add: bytes_Index_eq bytes_LastIndex_eq bytes_LastIndexAny_eq bytes_HasPrefix_def HasPrefix_def
        bytes_HasSuffix_def HasSuffix_def bytes_Join_eq bytes_Repeat_eq bytes_IndexFunc_def IndexFunc_def
        bytes_LastIndexFunc_def LastIndexFunc_def bytes_indexFunc_eq bytes_lastIndexFunc_eq bytes_TrimFunc_eq
        bytes_TrimSpace_def TrimSpace_def bytes_Count_eq bytes_Split_def Split_def bytes_SplitAfter_def SplitAfter_def
        bytes_genSplit_eq bytes_Replace_eq bytes_Count_empty bytes_IndexAny_eq bytes_IndexRune_eq bytes_FieldsFunc_eq
        bytes_Fields_def Fields_def bytes_Map_def Map_def bytes_Map_closure_eq bytes_ToUpper_def strings_ToUpper_def
        bytes_ToLower_def strings_ToLower_def bytes_ToTitle_def strings_ToTitle_def bytes_Title_def strings_Title_def)
qed

theorem bytes_strings_agree_witness:
  "in_range sample_str \<and> bytes_IndexRune sample_str 0x20AC = IndexRune sample_str 0x20AC \<and>
   bytes_Split sample_str [0x62] (-1) = Split sample_str [0x62] (-1) \<and>
   bytes_Replace sample_str [0x62] [] 1 = Replace sample_str [0x62] [] 1"
  using bytes_strings_agree [where s = sample_str and sep = "[0x62]" and n = "-1" and rune = "0x20AC"]
    bytes_strings_agree [where s = sample_str and sep = "[0x62]" and n = 1 and new = "[]"] sample_in_range
  by (simp add: sample_str_def)

text \<open>Exploding and decoding. Unless the slice of slices is too large to make, \<open>explode\<close> cuts a slice into the chunks of
  its forward decoding, an invalid byte being a chunk of its own, with the bytes left over in the last one when there
  are more than n; put together they are the slice. \<open>Runes\<close> returns the runes of that decoding. \<open>Compare\<close> is the
  lexicographic order, so it returns 0 exactly on equal slices, for which \<open>Equal\<close> holds.\<close>

theorem bytes_explode_Runes:
  "(if 12 * (if n \<le> 0 then length s else nat n) < 2 ^ 32
    then \<exists>ps. bytes_explode s n = Some ps \<and> concat ps = s \<and> (n > 0 \<longrightarrow> int (length ps) \<le> n) \<and>
      (let c = map snd (chunks s (decode_all s)) in
       if n \<le> 0 \<or> int (length c) \<le> n then ps = c else ps = take (nat n - 1) c @ [concat (drop (nat n - 1) c)])
    else bytes_explode s n = None) \<and>
   Runes s = (if 4 * RuneCount s < 2 ^ 32 then Some (map fst (decode_all s)) else None) \<and>
   Compare s t = (if Equal s t then 0 else if ord_class.lexordp s t then -1 else 1)"
proof -
  let ?n = "if n \<le> 0 then length s else nat n"
  have "n > 0 \<Longrightarrow> int (length (exploded s (nat n))) \<le> n" using exploded_length [of "nat n" s] by linarith
  moreover have "int (length (decode_all s)) \<le> n \<longleftrightarrow> length (decode_all s) \<le> nat n" if "n > 0" using that by linarith
  ultimately show ?thesis using decode_all_le [of s]
    by (simp add: bytes_explode_eq Runes_eq Compare_lexordp) (auto simp: exploded_def Let_def)
qed

theorem bytes_explode_Runes_witness:
  "\<exists>ps. bytes_explode sample_str 2 = Some ps \<and> concat ps = sample_str \<and> int (length ps) \<le> 2"
  using bytes_explode_Runes [where s = sample_str and n = 2 and t = "[]"] by (auto split: if_splits)

end
