(* ===== verification/Go_IO.thy ===== *)
theory Go_IO
  imports Strings
begin

text \<open>
  Package io (\<open>io.go\<close>): the interfaces \<open>Reader\<close> and \<open>Writer\<close>, the loops \<open>ReadAtLeast\<close>, \<open>ReadFull\<close>, \<open>Copy\<close>
  and \<open>Copyn\<close> over them, and the readers \<open>limitedReader\<close> and \<open>SectionReader\<close>.

  An implementation of an interface is a function on a state that may panic (\<^term>\<open>None\<close>): \<open>Read(p)\<close> takes the bytes of
  \<open>p\<close> and returns the count, the error, the bytes of \<open>p\<close> after the call (all of which it may use as scratch space) and
  the new state; \<open>Write(p)\<close> takes the bytes and returns the count, the error and the new state. What the comments of \<open>io.go\<close> promise of an
  implementation are the laws of the locales \<open>reader\<close> and \<open>writer\<close>; the model of \<open>strings.Reader\<close> is shown
  to keep them here and the model of \<open>bytes.Buffer\<close> in its own theory. A loop that calls an
  implementation may run forever: it is a \<open>partial_function\<close>, and \<^term>\<open>None\<close> is a panic or no return.
\<close>

section \<open>Errors and interfaces\<close>

datatype os_Error = EOF | EINVAL | ERANGE | ErrorString gostring | io_Error gostring | bufio_Error gostring

type_synonym 'r io_Reader = "'r \<Rightarrow> gostring \<Rightarrow> (nat \<times> os_Error option \<times> gostring \<times> 'r) option"
type_synonym 'w io_Writer = "'w \<Rightarrow> gostring \<Rightarrow> (nat \<times> os_Error option \<times> 'w) option"
type_synonym 'r io_ReaderAt = "'r \<Rightarrow> gostring \<Rightarrow> int \<Rightarrow> (nat \<times> os_Error option \<times> gostring \<times> 'r) option"

definition ErrShortWrite :: os_Error where "ErrShortWrite = io_Error (bs ''short write'')"
definition ErrShortBuffer :: os_Error where "ErrShortBuffer = io_Error (bs ''short buffer'')"
definition ErrUnexpectedEOF :: os_Error where "ErrUnexpectedEOF = io_Error (bs ''unexpected EOF'')"

section \<open>Reading and copying\<close>

definition WriteString :: "'w io_Writer \<Rightarrow> 'w \<Rightarrow> gostring \<Rightarrow> (nat \<times> os_Error option \<times> 'w) option" where
  "WriteString wr w s = wr w s"

partial_function (option) ReadAtLeast_loop ::
    "'r io_Reader \<Rightarrow> 'r \<Rightarrow> gostring \<Rightarrow> nat \<Rightarrow> int \<Rightarrow> (nat \<times> os_Error option \<times> gostring \<times> 'r) option" where
  "ReadAtLeast_loop rd r buf n least =
     (if int n < least then do {
        p \<leftarrow> go_slice buf (int n) (int (length buf));
        (nn, e, p, r) \<leftarrow> rd r p;
        let buf = take n buf @ p;
        let n = n + nn;
        (case e of
           Some e \<Rightarrow> Some (n, Some (if e = EOF \<and> n > 0 then ErrUnexpectedEOF else e), buf, r)
         | None \<Rightarrow> ReadAtLeast_loop rd r buf n least)
      } else Some (n, None, buf, r))"

definition ReadAtLeast ::
    "'r io_Reader \<Rightarrow> 'r \<Rightarrow> gostring \<Rightarrow> int \<Rightarrow> (nat \<times> os_Error option \<times> gostring \<times> 'r) option" where
  "ReadAtLeast rd r buf least =
     (if int (length buf) < least then Some (0, Some ErrShortBuffer, buf, r) else ReadAtLeast_loop rd r buf 0 least)"

definition ReadFull :: "'r io_Reader \<Rightarrow> 'r \<Rightarrow> gostring \<Rightarrow> (nat \<times> os_Error option \<times> gostring \<times> 'r) option" where
  "ReadFull rd r buf = ReadAtLeast rd r buf (int (length buf))"

text \<open>What \<open>Copy\<close> and \<open>Copyn\<close> do with the bytes of one \<open>Read\<close>: the new count, and the error that ends the loop.\<close>

definition copy_write :: "'w io_Writer \<Rightarrow> 'w \<Rightarrow> gostring \<Rightarrow> int \<Rightarrow> (int \<times> os_Error option \<times> 'w) option" where
  "copy_write wr w d written =
     (if length d > 0 then do {
        (nw, ew, w) \<leftarrow> wr w d;
        let written = int64 (written + int nw);
        Some (written, if ew \<noteq> None then ew else if length d \<noteq> nw then Some ErrShortWrite else None, w)
      } else Some (written, None, w))"

record 'r limitedReader =
  l_r :: 'r
  l_n :: int

definition LimitReader :: "'r \<Rightarrow> int \<Rightarrow> 'r limitedReader" where
  "LimitReader r n = \<lparr>l_r = r, l_n = n\<rparr>"

definition limitedReader_Read :: "'r io_Reader \<Rightarrow> 'r limitedReader io_Reader" where
  "limitedReader_Read rd l p =
     (if l_n l \<le> 0 then Some (0, Some EOF, p, l)
      else do {
        q \<leftarrow> (if int (length p) > l_n l then go_slice p 0 (l_n l) else Some p);
        (n, err, q, r) \<leftarrow> rd (l_r l) q;
        Some (n, err, q @ drop (length q) p, l\<lparr>l_r := r, l_n := int64 (l_n l - int n)\<rparr>)
      })"

text \<open>The optional methods that \<open>Copyn\<close> and \<open>Copy\<close> look for with a type assertion are optional arguments: \<open>rt\<close> is
  \<open>dst.ReadFrom\<close>, which \<open>Copyn\<close> calls on a \<open>limitedReader\<close>, and \<open>wt\<close> is \<open>src.WriteTo\<close>.\<close>

type_synonym ('w, 'r) io_transfer = "'w \<Rightarrow> 'r \<Rightarrow> (int \<times> os_Error option \<times> 'w \<times> 'r) option"

partial_function (option) Copyn_loop :: "'w io_Writer \<Rightarrow> 'r io_Reader \<Rightarrow> 'w \<Rightarrow> 'r \<Rightarrow> gostring \<Rightarrow> int \<Rightarrow> int \<Rightarrow>
    (int \<times> os_Error option \<times> 'w \<times> 'r) option" where
  "Copyn_loop wr rd w r buf n written =
     (if written < n then do {
        let l = (if int64 (n - written) < int (length buf) then int32 (int64 (n - written)) else int (length buf));
        p \<leftarrow> go_slice buf 0 l;
        (nr, er, p, r) \<leftarrow> rd r p;
        let buf = p @ drop (length p) buf;
        d \<leftarrow> go_slice buf 0 (int nr);
        (written, err, w) \<leftarrow> copy_write wr w d written;
        (if err \<noteq> None then Some (written, err, w, r)
         else if er \<noteq> None then Some (written, er, w, r)
         else Copyn_loop wr rd w r buf n written)
      } else Some (written, None, w, r))"

definition Copyn :: "('w, 'r limitedReader) io_transfer option \<Rightarrow> 'w io_Writer \<Rightarrow> 'r io_Reader \<Rightarrow> 'w \<Rightarrow> 'r \<Rightarrow> int \<Rightarrow>
    (int \<times> os_Error option \<times> 'w \<times> 'r) option" where
  "Copyn rt wr rd dst src n = (case rt of
     Some rt \<Rightarrow> do {
       (written, err, dst, l) \<leftarrow> rt dst (LimitReader src n);
       Some (written, if written < n \<and> err = None then Some EOF else err, dst, l_r l)
     }
   | None \<Rightarrow> do {
       buf \<leftarrow> go_make 1 (32 * 1024) 0;
       Copyn_loop wr rd dst src buf n 0
     })"

partial_function (option) Copy_loop :: "'w io_Writer \<Rightarrow> 'r io_Reader \<Rightarrow> 'w \<Rightarrow> 'r \<Rightarrow> gostring \<Rightarrow> int \<Rightarrow>
    (int \<times> os_Error option \<times> 'w \<times> 'r) option" where
  "Copy_loop wr rd w r buf written = do {
     (nr, er, buf, r) \<leftarrow> rd r buf;
     d \<leftarrow> go_slice buf 0 (int nr);
     (written, err, w) \<leftarrow> copy_write wr w d written;
     (if err \<noteq> None then Some (written, err, w, r)
      else if er = Some EOF then Some (written, None, w, r)
      else if er \<noteq> None then Some (written, er, w, r)
      else Copy_loop wr rd w r buf written)
   }"

definition Copy :: "('w, 'r) io_transfer option \<Rightarrow> ('w, 'r) io_transfer option \<Rightarrow> 'w io_Writer \<Rightarrow> 'r io_Reader \<Rightarrow> 'w \<Rightarrow> 'r \<Rightarrow>
    (int \<times> os_Error option \<times> 'w \<times> 'r) option" where
  "Copy rt wt wr rd dst src = (case rt of
     Some rt \<Rightarrow> rt dst src
   | None \<Rightarrow> (case wt of
       Some wt \<Rightarrow> wt dst src
     | None \<Rightarrow> do {
         buf \<leftarrow> go_make 1 (32 * 1024) 0;
         Copy_loop wr rd dst src buf 0
       }))"

section \<open>Section readers\<close>

record 'r SectionReader =
  s_r :: 'r
  s_base :: int
  s_off :: int
  s_limit :: int

definition NewSectionReader :: "'r \<Rightarrow> int \<Rightarrow> int \<Rightarrow> 'r SectionReader" where
  "NewSectionReader r off n = \<lparr>s_r = r, s_base = off, s_off = off, s_limit = int64 (off + n)\<rparr>"

definition SectionReader_Read :: "'r io_ReaderAt \<Rightarrow> 'r SectionReader io_Reader" where
  "SectionReader_Read rdat s p =
     (if s_off s \<ge> s_limit s then Some (0, Some EOF, p, s)
      else do {
        let max = int64 (s_limit s - s_off s);
        q \<leftarrow> (if int (length p) > max then go_slice p 0 max else Some p);
        (n, err, q, r) \<leftarrow> rdat (s_r s) q (s_off s);
        Some (n, err, q @ drop (length q) p, s\<lparr>s_r := r, s_off := int64 (s_off s + int n)\<rparr>)
      })"

definition SectionReader_Seek :: "'r SectionReader \<Rightarrow> int \<Rightarrow> int \<Rightarrow> int \<times> os_Error option \<times> 'r SectionReader" where
  "SectionReader_Seek s offset whence =
     (if whence \<noteq> 0 \<and> whence \<noteq> 1 \<and> whence \<noteq> 2 then (0, Some EINVAL, s)
      else let offset = int64 (offset + (if whence = 0 then s_base s else if whence = 1 then s_off s else s_limit s)) in
        if offset < s_base s \<or> offset > s_limit s then (0, Some EINVAL, s)
        else (int64 (offset - s_base s), None, s\<lparr>s_off := offset\<rparr>))"

definition SectionReader_ReadAt :: "'r io_ReaderAt \<Rightarrow> 'r SectionReader io_ReaderAt" where
  "SectionReader_ReadAt rdat s p off =
     (if off < 0 \<or> off \<ge> int64 (s_limit s - s_base s) then Some (0, Some EOF, p, s)
      else do {
        let off = int64 (off + s_base s);
        let max = int64 (s_limit s - off);
        q \<leftarrow> (if int (length p) > max then go_slice p 0 max else Some p);
        (n, err, q, r) \<leftarrow> rdat (s_r s) q off;
        Some (n, err, q @ drop (length q) p, s\<lparr>s_r := r\<rparr>)
      })"

definition SectionReader_Size :: "'r SectionReader \<Rightarrow> int" where
  "SectionReader_Size s = int64 (s_limit s - s_base s)"

section \<open>The contracts\<close>

text \<open>The bytes that are left in a reader, and the bytes a writer has taken, in the states that satisfy an
  invariant. A reader gives its bytes in order and never more than asked for; one that ends with
  \<open>os.EOF\<close> has none left. A \<open>live_reader\<close> does not panic, it fails only at the end, and each call gives a byte or the end. The
  length of a slice is below \<open>2 ^ 31\<close>.\<close>

locale reader =
  fixes rd :: "'r io_Reader" and stream :: "'r \<Rightarrow> gostring" and rinv :: "'r \<Rightarrow> bool"
  assumes read_inv: "rinv r \<Longrightarrow> rd r p = Some (n, e, p', r') \<Longrightarrow> rinv r'"
    and read_le: "rinv r \<Longrightarrow> rd r p = Some (n, e, p', r') \<Longrightarrow> n \<le> length p \<and> length p' = length p"
    and read_stream: "rinv r \<Longrightarrow> rd r p = Some (n, e, p', r') \<Longrightarrow> stream r = take n p' @ stream r'"
    and read_EOF: "rinv r \<Longrightarrow> rd r p = Some (n, Some EOF, p', r') \<Longrightarrow> p \<noteq> [] \<Longrightarrow> stream r' = []"

locale live_reader = reader +
  assumes read_returns: "rinv r \<Longrightarrow> \<exists>n e p' r'. rd r p = Some (n, e, p', r')"
    and read_err: "rinv r \<Longrightarrow> rd r p = Some (n, Some e, p', r') \<Longrightarrow> e = EOF"
    and read_progress: "rinv r \<Longrightarrow> rd r p = Some (n, None, p', r') \<Longrightarrow> p \<noteq> [] \<Longrightarrow> 0 < n"

locale writer =
  fixes wr :: "'w io_Writer" and out :: "'w \<Rightarrow> gostring" and winv :: "'w \<Rightarrow> bool"
  assumes write_inv: "winv w \<Longrightarrow> length p < 2 ^ 31 \<Longrightarrow> wr w p = Some (n, e, w') \<Longrightarrow> winv w'"
    and write_le: "winv w \<Longrightarrow> length p < 2 ^ 31 \<Longrightarrow> wr w p = Some (n, e, w') \<Longrightarrow> n \<le> length p"
    and write_out: "winv w \<Longrightarrow> length p < 2 ^ 31 \<Longrightarrow> wr w p = Some (n, e, w') \<Longrightarrow> out w' = out w @ take n p"
    and write_short: "winv w \<Longrightarrow> length p < 2 ^ 31 \<Longrightarrow> wr w p = Some (n, None, w') \<Longrightarrow> n = length p"

context live_reader
begin

lemma read_cases:
  assumes "rinv r"
  obtains n e p' r' where "rd r p = Some (n, e, p', r')" "rinv r'" "n \<le> length p" "length p' = length p"
    "stream r = take n p' @ stream r'" "e = None \<or> e = Some EOF" "p \<noteq> [] \<Longrightarrow> e \<noteq> None \<Longrightarrow> stream r' = []"
    "p \<noteq> [] \<Longrightarrow> e = None \<Longrightarrow> 0 < n"
proof -
  obtain n e p' r' where rd: "rd r p = Some (n, e, p', r')" using read_returns [OF assms] by blast
  have "e = None \<or> e = Some EOF" using read_err [OF assms] rd by (cases e) auto
  with rd that read_inv [OF assms rd] read_le [OF assms rd] read_stream [OF assms rd] read_EOF [OF assms, of p n p' r']
    read_progress [OF assms, of p n p' r'] show ?thesis by auto
qed

lemma ReadAtLeast_loop_spec:
  "rinv r \<Longrightarrow> n \<le> length buf \<Longrightarrow> least \<le> int (length buf) \<Longrightarrow>
   \<exists>d e buf' r'. ReadAtLeast_loop rd r buf n least = Some (n + length d, e, buf', r') \<and> length buf' = length buf \<and>
     take (n + length d) buf' = take n buf @ d \<and> stream r = d @ stream r' \<and> n + length d \<le> length buf \<and>
     (e = None \<longrightarrow> least \<le> int (n + length d)) \<and>
     (e \<noteq> None \<longrightarrow> stream r' = [] \<and> e = Some (if n + length d = 0 then EOF else ErrUnexpectedEOF))"
proof (induction "length buf - n" arbitrary: n buf r rule: less_induct)
  case less
  show ?case
  proof (cases "int n < least")
    case False
    then show ?thesis using less.prems by (subst ReadAtLeast_loop.simps) auto
  next
    case True
    then have lt: "n < length buf" using less.prems(3) by linarith
    then have ne: "drop n buf \<noteq> []" by simp
    obtain m e p r1 where rd: "rd r (drop n buf) = Some (m, e, p, r1)" "rinv r1" "m \<le> length buf - n"
      "length p = length buf - n" "stream r = take m p @ stream r1" "e = None \<or> e = Some EOF"
      "e \<noteq> None \<Longrightarrow> stream r1 = []" "e = None \<Longrightarrow> 0 < m"
      using read_cases [OF less.prems(1), of "drop n buf"] ne by (metis length_drop)
    let ?buf = "take n buf @ p"
    have len: "length ?buf = length buf" using rd(4) lt by simp
    have eq: "ReadAtLeast_loop rd r buf n least = (case e of
        Some e \<Rightarrow> Some (n + m, Some (if e = EOF \<and> n + m > 0 then ErrUnexpectedEOF else e), ?buf, r1)
      | None \<Rightarrow> ReadAtLeast_loop rd r1 ?buf (n + m) least)"
      using True lt rd(1) by (subst ReadAtLeast_loop.simps) (simp add: Let_def slice_drop split: option.split)
    have tk: "take (n + m) ?buf = take n buf @ take m p" using lt by simp
    show ?thesis
    proof (cases e)
      case (Some x)
      then have "x = EOF" "stream r1 = []" using rd(6,7) by auto
      then show ?thesis unfolding eq using Some rd(3,4,5) tk len lt
        by (intro exI [of _ "take m p"] exI [of _ ?buf]) (auto simp: min_absorb2)
    next
      case None
      have "length ?buf - (n + m) < length buf - n" using rd(8) [OF None] lt len by linarith
      moreover have "n + m \<le> length ?buf" "least \<le> int (length ?buf)" using len rd(3) lt less.prems(3) by simp_all
      ultimately obtain d2 e2 buf2 r2 where
        ih: "ReadAtLeast_loop rd r1 ?buf (n + m) least = Some (n + m + length d2, e2, buf2, r2)" "length buf2 = length buf"
          "take (n + m + length d2) buf2 = take (n + m) ?buf @ d2" "stream r1 = d2 @ stream r2" "n + m + length d2 \<le> length buf"
          "e2 = None \<longrightarrow> least \<le> int (n + m + length d2)"
          "e2 \<noteq> None \<longrightarrow> stream r2 = [] \<and> e2 = Some (if n + m + length d2 = 0 then EOF else ErrUnexpectedEOF)"
        using less.hyps [OF _ rd(2), of ?buf "n + m"] unfolding len by blast
      have "length (take m p) = m" using rd(3,4) by simp
      with ih tk eq None rd(5) show ?thesis
        by (intro exI [of _ "take m p @ d2"] exI [of _ e2] exI [of _ buf2] exI [of _ r2]) (simp add: add.assoc)
    qed
  qed
qed

lemma ReadFull_spec:
  "rinv r \<Longrightarrow> \<exists>e buf' r'. ReadFull rd r buf = Some (min (length buf) (length (stream r)), e, buf', r') \<and>
     length buf' = length buf \<and>
     take (min (length buf) (length (stream r))) buf' = take (length buf) (stream r) \<and>
     stream r' = drop (length buf) (stream r) \<and> (e = None \<or> stream r' = []) \<and>
     (length (stream r) < length buf \<longrightarrow> e = Some (if stream r = [] then EOF else ErrUnexpectedEOF))"
proof -
  assume "rinv r"
  from ReadAtLeast_loop_spec [OF this, of 0 buf "int (length buf)"] obtain d e buf' r' where
    l: "ReadAtLeast_loop rd r buf 0 (int (length buf)) = Some (length d, e, buf', r')" "length buf' = length buf"
      "take (length d) buf' = d" "stream r = d @ stream r'" "length d \<le> length buf" "e = None \<longrightarrow> length buf \<le> length d"
      "e \<noteq> None \<longrightarrow> stream r' = [] \<and> e = Some (if d = [] then EOF else ErrUnexpectedEOF)" by auto
  then show ?thesis by (cases e) (auto simp: ReadFull_def ReadAtLeast_def)
qed

end

section \<open>strings.Reader\<close>

lemma Reader_Read_loop_eq:
  "n \<le> length s \<Longrightarrow> n \<le> length b \<Longrightarrow> length s - n \<le> m \<Longrightarrow> take n b = take n s \<Longrightarrow>
   Reader_Read_loop s b n m = (take (length b) s @ drop (length s) b, min (length s) (length b))"
proof (induction m arbitrary: n b)
  case 0
  then show ?case by (simp add: min_def) (metis append_take_drop_id order_refl)
next
  case (Suc m)
  show ?case
  proof (cases "n < length s \<and> n < length b")
    case True
    then have "take (Suc n) (b[n := s ! n]) = take (Suc n) s" using Suc.prems(4) by (simp add: take_Suc_conv_app_nth)
    moreover have "drop (length s) (b[n := s ! n]) = drop (length s) b" using True by (simp add: drop_update_cancel)
    ultimately show ?thesis using Suc.IH [of "Suc n" "b[n := s ! n]"] Suc.prems True by simp
  next
    case False
    then have "n = length s \<or> n = length b" using Suc.prems by auto
    then show ?thesis using False Suc.prems
      by (elim disjE) (simp_all add: min_def, metis append_take_drop_id)
  qed
qed

definition strings_Read :: "Reader io_Reader" where
  "strings_Read s p = (let (s', b, n, eof) = Reader_Read s p in Some (n, if eof then Some EOF else None, b, s'))"

lemma strings_Read_eq: "strings_Read s p = Some (min (length s) (length p), if s = [] then Some EOF else None,
    take (length p) s @ drop (length s) p, drop (length p) s)"
  using Reader_Read_loop_eq [of 0 s p "length s"]
  by (auto simp: strings_Read_def Reader_Read_def Let_def min_def)

interpretation sr: live_reader strings_Read "\<lambda>s. s" "\<lambda>_. True"
  by unfold_locales (auto simp: strings_Read_eq min_def split: if_splits)

section \<open>Properties\<close>

text \<open>A reader that reports the end of the input together with the last bytes, as the interface allows, and that uses the
  rest of the slice as scratch space.\<close>

definition eager_Read :: "gostring io_Reader" where
  "eager_Read s p = Some (min (length s) (length p), if length s \<le> length p then Some EOF else None,
     take (length p) s @ replicate (length p - length s) 0xFF, drop (length p) s)"

interpretation er: live_reader eager_Read "\<lambda>s. s" "\<lambda>_. True"
  by unfold_locales (auto simp: eager_Read_def min_def split: if_splits)

text \<open>C28: Reading a block. Over every reader that keeps the interface, does not panic, makes progress and fails only at the
  end, \<open>ReadFull\<close> returns; the count is the number of bytes that it stores at the front of the buffer, the next bytes of
  the input, as many as there are; the rest of the input is left, and a short read is reported as \<open>os.EOF\<close> when there
  was nothing and as \<open>ErrUnexpectedEOF\<close> otherwise. The bytes of the buffer behind the count may change, since a reader may
  use them as scratch space. \<open>ReadFull\<close> also reports \<open>ErrUnexpectedEOF\<close> on a block that it has read in full, if the
  reader returns its last bytes together with \<open>os.EOF\<close>.\<close>

theorem ReadFull_reads:
  assumes "live_reader rd stream rinv" "rinv r"
  shows "(\<exists>e buf' r'. ReadFull rd r buf = Some (min (length buf) (length (stream r)), e, buf', r') \<and>
     length buf' = length buf \<and>
     take (min (length buf) (length (stream r))) buf' = take (length buf) (stream r) \<and>
     stream r' = drop (length buf) (stream r) \<and> (e = None \<or> stream r' = []) \<and>
     (length (stream r) < length buf \<longrightarrow> e = Some (if stream r = [] then EOF else ErrUnexpectedEOF))) \<and>
   ReadFull eager_Read (bs ''ab'') [0, 0] = Some (2, Some ErrUnexpectedEOF, bs ''ab'', [])"
proof
  show "ReadFull eager_Read (bs ''ab'') [0, 0] = Some (2, Some ErrUnexpectedEOF, bs ''ab'', [])"
    by (simp add: ReadFull_def ReadAtLeast_def ReadAtLeast_loop.simps eager_Read_def go_slice_def slice_def Let_def)
qed (rule live_reader.ReadFull_spec [OF assms])

theorem ReadFull_reads_witness:
  "\<exists>e r'. ReadFull strings_Read (bs ''abc'') [0, 0] = Some (2, e, bs ''ab'', r') \<and> r' = bs ''c''"
  using ReadFull_reads [OF sr.live_reader_axioms TrueI, of "bs ''abc''" "[0, 0]"]
  by (auto simp: numeral_2_eq_2)

end
