(* ===== verification/Bytes_Buffer.thy ===== *)
theory Bytes_Buffer
  imports Go_IO
begin

text \<open>
  Type \<open>Buffer\<close> of package bytes (\<open>buffer.go\<close>). The slice \<open>buf\<close> is its memory up to the capacity
  (\<open>b_mem\<close>) with its length (\<open>b_len\<close>), since \<open>grow\<close> and \<open>Truncate\<close> reslice it up to the capacity; \<open>b_nil\<close> says
  that it is nil. Sizes are 32-bit. The specification is the sequence of unread bytes (\<open>contents\<close>): every
  operation is shown to act on it as on a queue of bytes.
\<close>

datatype readOp = opInvalid | opReadRune | opRead

record Buffer =
  b_mem :: gostring
  b_len :: nat
  b_nil :: bool
  b_off :: nat
  b_runeBytes :: gostring
  b_bootstrap :: gostring
  b_lastRead :: readOp

definition zero_Buffer :: Buffer where
  "zero_Buffer = \<lparr>b_mem = [], b_len = 0, b_nil = True, b_off = 0, b_runeBytes = replicate 4 0,
     b_bootstrap = replicate 64 0, b_lastRead = opInvalid\<rparr>"

text \<open>The slice \<open>b.buf[off:]\<close>.\<close>

definition contents :: "Buffer \<Rightarrow> gostring" where
  "contents b = drop (b_off b) (take (b_len b) (b_mem b))"

definition Buffer_Bytes :: "Buffer \<Rightarrow> gostring option" where
  "Buffer_Bytes b = go_slice (take (b_len b) (b_mem b)) (int (b_off b)) (int (b_len b))"

definition Buffer_String :: "Buffer option \<Rightarrow> gostring option" where
  "Buffer_String b = (case b of None \<Rightarrow> Some (bs ''<nil>'') | Some b \<Rightarrow> Buffer_Bytes b)"

definition Buffer_Len :: "Buffer \<Rightarrow> int" where
  "Buffer_Len b = int (b_len b) - int (b_off b)"

text \<open>The assignment \<open>b.buf = b.buf[0:n]\<close>, which may extend the slice up to its capacity.\<close>

definition reslice :: "Buffer \<Rightarrow> int \<Rightarrow> Buffer option" where
  "reslice b n = (if 0 \<le> n \<and> n \<le> int (length (b_mem b)) then Some (b\<lparr>b_len := nat n\<rparr>) else None)"

definition Truncate :: "Buffer \<Rightarrow> int \<Rightarrow> Buffer option" where
  "Truncate b n = (let b = b\<lparr>b_lastRead := opInvalid\<rparr>; b = (if n = 0 then b\<lparr>b_off := 0\<rparr> else b) in
     reslice b (int32 (int (b_off b) + n)))"

definition Reset :: "Buffer \<Rightarrow> Buffer option" where
  "Reset b = Truncate b 0"

definition grow_mem :: "Buffer \<Rightarrow> nat \<Rightarrow> Buffer option" where
  "grow_mem b n =
     (if int32 (int (b_len b) + int n) > int (length (b_mem b)) then
        (if b_nil b \<and> n \<le> length (b_bootstrap b) then
           Some (b\<lparr>b_mem := b_bootstrap b, b_len := length (b_bootstrap b), b_nil := False, b_off := 0\<rparr>)
         else do {
           buf \<leftarrow> go_make 1 (int32 (2 * int (length (b_mem b)) + int n)) 0;
           (buf, _) \<leftarrow> go_copy buf 0 (contents b);
           Some (b\<lparr>b_mem := buf, b_len := length buf, b_nil := False, b_off := 0\<rparr>)
         })
      else Some b)"

definition grow :: "Buffer \<Rightarrow> nat \<Rightarrow> (Buffer \<times> nat) option" where
  "grow b n = do {
     let m = nat (Buffer_Len b);
     b \<leftarrow> (if m = 0 \<and> b_off b \<noteq> 0 then Truncate b 0 else Some b);
     b \<leftarrow> grow_mem b n;
     b \<leftarrow> reslice b (int32 (int (b_off b) + int m + int n));
     Some (b, b_off b + m)
   }"

text \<open>\<open>copy(b.buf[m:], p)\<close>: the count, and the buffer with the bytes stored.\<close>

definition copy_into :: "Buffer \<Rightarrow> nat \<Rightarrow> gostring \<Rightarrow> (Buffer \<times> nat) option" where
  "copy_into b m p =
     (if m \<le> b_len b then
        let n = min (b_len b - m) (length p) in
        Some (b\<lparr>b_mem := take m (b_mem b) @ take n p @ drop (m + n) (b_mem b)\<rparr>, n)
      else None)"

definition Buffer_Write :: "Buffer \<Rightarrow> gostring \<Rightarrow> (Buffer \<times> nat) option" where
  "Buffer_Write b p = do {
     let b = b\<lparr>b_lastRead := opInvalid\<rparr>;
     (b, m) \<leftarrow> grow b (length p);
     (b, _) \<leftarrow> copy_into b m p;
     Some (b, length p)
   }"

definition Buffer_WriteString :: "Buffer \<Rightarrow> gostring \<Rightarrow> (Buffer \<times> nat) option" where
  "Buffer_WriteString b s = do {
     let b = b\<lparr>b_lastRead := opInvalid\<rparr>;
     (b, m) \<leftarrow> grow b (length s);
     copy_into b m s
   }"

definition MinRead :: nat where "MinRead = 512"

text \<open>One round of \<open>ReadFrom\<close> makes space for \<open>MinRead\<close> bytes, at the front if the bytes read leave enough.\<close>

definition ReadFrom_space :: "Buffer \<Rightarrow> Buffer option" where
  "ReadFrom_space b =
     (if length (b_mem b) - b_len b < MinRead then
        (if b_off b + length (b_mem b) - b_len b \<ge> MinRead then
           Some (b\<lparr>b_mem := contents b @ drop (b_len b - b_off b) (b_mem b), b_len := b_len b - b_off b, b_off := 0\<rparr>)
         else do {
           buf \<leftarrow> go_make 1 (int32 (2 * (int (length (b_mem b)) - int (b_off b)) + int MinRead)) 0;
           newBuf \<leftarrow> (if b_len b - b_off b \<le> length buf then Some (contents b @ drop (b_len b - b_off b) buf) else None);
           Some (b\<lparr>b_mem := newBuf, b_len := b_len b - b_off b, b_nil := False, b_off := 0\<rparr>)
         })
      else Some b)"

partial_function (option) ReadFrom_loop :: "'r io_Reader \<Rightarrow> 'r \<Rightarrow> Buffer \<Rightarrow> int \<Rightarrow>
    (Buffer \<times> int \<times> os_Error option \<times> 'r) option" where
  "ReadFrom_loop rd r b n = do {
     b \<leftarrow> ReadFrom_space b;
     (m, e, p, r) \<leftarrow> rd r (drop (b_len b) (b_mem b));
     b \<leftarrow> reslice (b\<lparr>b_mem := take (b_len b) (b_mem b) @ p\<rparr>) (int32 (int (b_len b) + int m));
     let n = int64 (n + int m);
     (if e = Some EOF then Some (b, n, None, r)
      else if e \<noteq> None then Some (b, n, e, r)
      else ReadFrom_loop rd r b n)
   }"

definition ReadFrom :: "'r io_Reader \<Rightarrow> 'r \<Rightarrow> Buffer \<Rightarrow> (Buffer \<times> int \<times> os_Error option \<times> 'r) option" where
  "ReadFrom rd r b = do {
     let b = b\<lparr>b_lastRead := opInvalid\<rparr>;
     b \<leftarrow> (if b_off b \<ge> b_len b then Truncate b 0 else Some b);
     ReadFrom_loop rd r b 0
   }"

definition WriteTo :: "'w io_Writer \<Rightarrow> 'w \<Rightarrow> Buffer \<Rightarrow> (Buffer \<times> int \<times> os_Error option \<times> 'w) option" where
  "WriteTo wr w b = (let b = b\<lparr>b_lastRead := opInvalid\<rparr> in
     if b_off b < b_len b then do {
       (m, e, w) \<leftarrow> wr w (contents b);
       let b = b\<lparr>b_off := b_off b + m\<rparr>;
       (if e \<noteq> None then Some (b, int m, e, w)
        else do { b \<leftarrow> Truncate b 0; Some (b, int m, None, w) })
     }
     else do { b \<leftarrow> Truncate b 0; Some (b, 0, None, w) })"

definition Buffer_WriteByte :: "Buffer \<Rightarrow> byte \<Rightarrow> Buffer option" where
  "Buffer_WriteByte b c = do {
     let b = b\<lparr>b_lastRead := opInvalid\<rparr>;
     (b, m) \<leftarrow> grow b 1;
     (if m < b_len b then Some (b\<lparr>b_mem := (b_mem b)[m := c]\<rparr>) else None)
   }"

definition Buffer_WriteRune :: "Buffer \<Rightarrow> int \<Rightarrow> (Buffer \<times> nat) option" where
  "Buffer_WriteRune b r =
     (if r < 0x80 then do { b \<leftarrow> Buffer_WriteByte b (go_byte r); Some (b, 1) }
      else do {
        (rb, n) \<leftarrow> EncodeRune (b_runeBytes b) r;
        let b = b\<lparr>b_runeBytes := rb\<rparr>;
        (b, _) \<leftarrow> Buffer_Write b (take n rb);
        Some (b, n)
      })"

definition Buffer_Read :: "Buffer \<Rightarrow> nat \<Rightarrow> (Buffer \<times> gostring \<times> os_Error option) option" where
  "Buffer_Read b p = (let b = b\<lparr>b_lastRead := opInvalid\<rparr> in
     if b_off b \<ge> b_len b then do { b \<leftarrow> Truncate b 0; Some (b, [], Some EOF) }
     else let d = take p (contents b); b = b\<lparr>b_off := b_off b + length d\<rparr> in
       Some (if length d > 0 then b\<lparr>b_lastRead := opRead\<rparr> else b, d, None))"

definition Next :: "Buffer \<Rightarrow> int \<Rightarrow> (Buffer \<times> gostring) option" where
  "Next b n = do {
     let b = b\<lparr>b_lastRead := opInvalid\<rparr>;
     let m = Buffer_Len b;
     let n = (if n > m then m else n);
     data \<leftarrow> go_slice (b_mem b) (int (b_off b)) (int (b_off b) + n);
     let b = b\<lparr>b_off := nat (int (b_off b) + n)\<rparr>;
     Some (if n > 0 then b\<lparr>b_lastRead := opRead\<rparr> else b, data)
   }"

definition Buffer_ReadByte :: "Buffer \<Rightarrow> (Buffer \<times> byte \<times> os_Error option) option" where
  "Buffer_ReadByte b = (let b = b\<lparr>b_lastRead := opInvalid\<rparr> in
     if b_off b \<ge> b_len b then do { b \<leftarrow> Truncate b 0; Some (b, 0, Some EOF) }
     else Some (b\<lparr>b_off := b_off b + 1, b_lastRead := opRead\<rparr>, b_mem b ! b_off b, None))"

definition Buffer_ReadRune :: "Buffer \<Rightarrow> (Buffer \<times> int \<times> nat \<times> os_Error option) option" where
  "Buffer_ReadRune b = (let b = b\<lparr>b_lastRead := opInvalid\<rparr> in
     if b_off b \<ge> b_len b then do { b \<leftarrow> Truncate b 0; Some (b, 0, 0, Some EOF) }
     else let b = b\<lparr>b_lastRead := opReadRune\<rparr>; c = b_mem b ! b_off b in
       if c < RuneSelf then Some (b\<lparr>b_off := b_off b + 1\<rparr>, uint c, 1, None)
       else let (r, n) = DecodeRune (contents b) in Some (b\<lparr>b_off := b_off b + n\<rparr>, r, n, None))"

definition Buffer_UnreadRune :: "Buffer \<Rightarrow> (Buffer \<times> os_Error option) option" where
  "Buffer_UnreadRune b =
     (if b_lastRead b \<noteq> opReadRune then
        Some (b, Some (ErrorString (bs ''bytes.Buffer: UnreadRune: previous operation was not ReadRune'')))
      else let b = b\<lparr>b_lastRead := opInvalid\<rparr> in
        if b_off b > 0 then do {
          (_, n) \<leftarrow> DecodeLastRune (take (b_off b) (b_mem b));
          Some (b\<lparr>b_off := b_off b - n\<rparr>, None)
        } else Some (b, None))"

definition Buffer_UnreadByte :: "Buffer \<Rightarrow> Buffer \<times> os_Error option" where
  "Buffer_UnreadByte b =
     (if b_lastRead b \<noteq> opReadRune \<and> b_lastRead b \<noteq> opRead then
        (b, Some (ErrorString (bs ''bytes.Buffer: UnreadByte: previous operation was not a read'')))
      else let b = b\<lparr>b_lastRead := opInvalid\<rparr> in
        (if b_off b > 0 then b\<lparr>b_off := b_off b - 1\<rparr> else b, None))"

definition IndexByte :: "gostring \<Rightarrow> byte \<Rightarrow> int" where
  "IndexByte s c = for_find (\<lambda>i. s ! i = c) 0 (length s)"

definition Buffer_ReadBytes :: "Buffer \<Rightarrow> byte \<Rightarrow> Buffer \<times> gostring \<times> os_Error option" where
  "Buffer_ReadBytes b delim = (let i = IndexByte (contents b) delim;
     size = (if i < 0 then b_len b - b_off b else nat (i + 1));
     err = (if i < 0 then Some EOF else None);
     line = take size (contents b) in
     (b\<lparr>b_off := b_off b + size\<rparr>, line, err))"

definition Buffer_ReadString :: "Buffer \<Rightarrow> byte \<Rightarrow> Buffer \<times> gostring \<times> os_Error option" where
  "Buffer_ReadString b delim = Buffer_ReadBytes b delim"

text \<open>The argument of \<open>NewBuffer\<close> is a slice: its memory, its length and whether it is nil.\<close>

definition NewBuffer :: "gostring \<Rightarrow> nat \<Rightarrow> bool \<Rightarrow> Buffer" where
  "NewBuffer mem len isnil = zero_Buffer\<lparr>b_mem := mem, b_len := len, b_nil := isnil\<rparr>"

definition NewBufferString :: "gostring \<Rightarrow> Buffer" where
  "NewBufferString s = zero_Buffer\<lparr>b_mem := s, b_len := length s, b_nil := False\<rparr>"

section \<open>The buffer as a queue\<close>

definition buf_ok :: "nat \<Rightarrow> Buffer \<Rightarrow> bool" where
  "buf_ok T b \<longleftrightarrow> b_off b \<le> b_len b \<and> b_len b \<le> length (b_mem b) \<and> b_len b \<le> T \<and>
     length (b_mem b) \<le> 3 * T + 64 \<and> (b_nil b \<longrightarrow> b_mem b = []) \<and>
     length (b_runeBytes b) = 4 \<and> length (b_bootstrap b) = 64"

lemma buf_ok_mono: "buf_ok T b \<Longrightarrow> T \<le> T' \<Longrightarrow> buf_ok T' b"
  by (simp add: buf_ok_def)

lemma buf_ok_lastRead [simp]: "buf_ok T (b\<lparr>b_lastRead := x\<rparr>) = buf_ok T b"
  by (simp add: buf_ok_def)

lemma contents_lastRead [simp]: "contents (b\<lparr>b_lastRead := x\<rparr>) = contents b"
  by (simp add: contents_def)

lemma length_contents: "buf_ok T b \<Longrightarrow> length (contents b) = b_len b - b_off b"
  by (simp add: buf_ok_def contents_def)

lemma contents_empty: "buf_ok T b \<Longrightarrow> contents b = [] \<longleftrightarrow> b_len b \<le> b_off b"
  using length_contents [of T b] by auto

lemma int32_nat [simp]: "n < 2 ^ 31 \<Longrightarrow> int32 (int n) = int n"
  by (intro int32_id) (simp add: is_int32_def)

lemma reslice_nat: "reslice b (int n) = (if n \<le> length (b_mem b) then Some (b\<lparr>b_len := n\<rparr>) else None)"
  by (simp add: reslice_def)

lemma Truncate_0: "Truncate b 0 = Some (b\<lparr>b_lastRead := opInvalid, b_off := 0, b_len := 0\<rparr>)"
  by (simp add: Truncate_def reslice_def int32_mod)

lemma Truncate_spec:
  assumes "buf_ok T b" "n \<le> b_len b - b_off b" "T < 2 ^ 31"
  shows "\<exists>b'. Truncate b (int n) = Some b' \<and> buf_ok T b' \<and> contents b' = take n (contents b)"
proof (cases "n = 0")
  case True
  then show ?thesis using assms(1) by (simp add: Truncate_0 buf_ok_def contents_def)
next
  case False
  have "b_off b + n < 2 ^ 31" using assms unfolding buf_ok_def by linarith
  then have "int32 (int (b_off b) + int n) = int (b_off b + n)" using int32_nat [of "b_off b + n"] by simp
  then have "Truncate b (int n) = reslice (b\<lparr>b_lastRead := opInvalid\<rparr>) (int (b_off b + n))"
    using False by (simp add: Truncate_def Let_def del: of_nat_add)
  moreover have "b_off b + n \<le> b_len b" using assms(1,2) unfolding buf_ok_def by linarith
  ultimately show ?thesis
    using assms(1) by (simp add: reslice_nat buf_ok_def contents_def drop_take min_absorb1 del: of_nat_add)
qed

definition buf_inv :: "Buffer \<Rightarrow> bool" where
  "buf_inv b \<longleftrightarrow> b_off b \<le> b_len b \<and> b_len b \<le> length (b_mem b) \<and> length (b_mem b) < 2 ^ 31 \<and> (b_nil b \<longrightarrow> b_mem b = []) \<and>
     length (b_runeBytes b) = 4 \<and> length (b_bootstrap b) = 64"

lemma buf_inv_ok: "buf_inv b \<Longrightarrow> buf_ok (length (b_mem b)) b"
  by (simp add: buf_inv_def buf_ok_def)

text \<open>Near the largest size the sums of \<open>grow\<close> wrap around. It then panics: a wrapped size is negative or
  too small for the bytes to come.\<close>

lemma int32_wrap:
  "2 ^ 31 \<le> x \<Longrightarrow> x < 2 ^ 32 \<Longrightarrow> int32 x < 0"
  "2 ^ 32 \<le> x \<Longrightarrow> x < 2 ^ 32 + 2 ^ 31 \<Longrightarrow> int32 x = x - 2 ^ 32"
  "2 ^ 32 + 2 ^ 31 \<le> x \<Longrightarrow> x < 2 ^ 33 \<Longrightarrow> int32 x < 0"
proof -
  have "(x + 2 ^ 31) mod 2 ^ 32 = (x + 2 ^ 31 - k * 2 ^ 32) mod 2 ^ 32" for k :: int
    using mod_mult_self1 [of "x + 2 ^ 31 - k * 2 ^ 32" k "2 ^ 32"] by simp
  note m = this [of 1] this [of 2]
  show "2 ^ 31 \<le> x \<Longrightarrow> x < 2 ^ 32 \<Longrightarrow> int32 x < 0"
    unfolding int32_mod m(1) by (subst mod_pos_pos_trivial) simp_all
  show "2 ^ 32 \<le> x \<Longrightarrow> x < 2 ^ 32 + 2 ^ 31 \<Longrightarrow> int32 x = x - 2 ^ 32"
    unfolding int32_mod m(1) by (subst mod_pos_pos_trivial) simp_all
  show "2 ^ 32 + 2 ^ 31 \<le> x \<Longrightarrow> x < 2 ^ 33 \<Longrightarrow> int32 x < 0"
    unfolding int32_mod m(2) by (subst mod_pos_pos_trivial) simp_all
qed

text \<open>What \<open>grow\<close> leaves in \<open>b.buf\<close> before the last slice expression, for \<open>k\<close> bytes of contents.\<close>

definition grown :: "Buffer \<Rightarrow> nat \<Rightarrow> Buffer \<Rightarrow> bool" where
  "grown b n b' \<longleftrightarrow> (let k = length (contents b) in
     b_off b' + k + n \<le> length (b_mem b') \<and> b_off b' + k \<le> b_len b \<and> length (b_mem b') < 2 ^ 31 \<and>
     take k (drop (b_off b') (b_mem b')) = contents b \<and> (b_nil b' \<longrightarrow> b_mem b' = []) \<and>
     (length (b_mem b') = length (b_mem b) \<or> length (b_mem b') = 64 \<or> length (b_mem b') \<le> 3 * (b_len b + n)) \<and>
     b_lastRead b' = b_lastRead b \<and> b_runeBytes b' = b_runeBytes b \<and> b_bootstrap b' = b_bootstrap b)"

lemma grow_mem_cases:
  assumes inv: "buf_inv b" and n: "n < 2 ^ 31"
  shows "(\<exists>b'. grow_mem b n = Some b' \<and> grown b n b') \<or> 2 ^ 31 \<le> 2 * length (b_mem b) + n \<and>
    grow_mem b n \<bind> (\<lambda>b'. reslice b' (int32 (int (b_off b') + int (length (contents b)) + int n))) = None"
proof -
  define k where "k = length (contents b)"
  let ?cap = "length (b_mem b)"
  have k: "k = b_len b - b_off b" using length_contents [OF buf_inv_ok [OF inv]] by (simp add: k_def)
  have b: "b_off b \<le> b_len b" "b_len b \<le> ?cap" "?cap < 2 ^ 31" "b_nil b \<longrightarrow> b_mem b = []" "length (b_bootstrap b) = 64"
    using inv by (simp_all add: buf_inv_def)
  consider (over) "2 ^ 31 \<le> b_len b + n" | (room) "b_len b + n < 2 ^ 31" "b_len b + n \<le> ?cap"
    | (boot) "b_len b + n < 2 ^ 31" "?cap < b_len b + n" "b_nil b" "n \<le> 64"
    | (alloc) "?cap < b_len b + n" "\<not> (b_nil b \<and> n \<le> 64)" "2 * ?cap + n < 2 ^ 31"
    | (wrap) "b_len b + n < 2 ^ 31" "?cap < b_len b + n" "\<not> (b_nil b \<and> n \<le> 64)" "2 ^ 31 \<le> 2 * ?cap + n" by linarith
  then show ?thesis
  proof cases
    case over
    have "int32 (int (b_len b) + int n) < 0" using int32_wrap(1) [of "int (b_len b) + int n"] over b n by simp
    then have "grow_mem b n = Some b" "reslice b (int32 (int (b_off b) + int k + int n)) = None"
      using b(1) k by (simp_all add: grow_mem_def reslice_def)
    then show ?thesis using over b(2) k_def by simp
  next
    case room
    then have "grow_mem b n = Some b" using int32_nat [of "b_len b + n"] by (simp add: grow_mem_def)
    then show ?thesis using room b k k_def by (auto simp: grown_def contents_def drop_take Let_def)
  next
    case boot
    then have "grow_mem b n = Some (b\<lparr>b_mem := b_bootstrap b, b_len := 64, b_nil := False, b_off := 0\<rparr>)"
      using int32_nat [of "b_len b + n"] b by (simp add: grow_mem_def)
    then show ?thesis using boot b k k_def by (auto simp: grown_def contents_def Let_def)
  next
    case alloc
    then have i: "int32 (int (b_len b) + int n) = int (b_len b + n)" "int32 (2 * int ?cap + int n) = int (2 * ?cap + n)"
      using int32_nat [of "b_len b + n"] int32_nat [of "2 * ?cap + n"] b by simp_all
    have "go_copy (replicate (2 * ?cap + n) 0) 0 (contents b) = Some (contents b @ replicate (2 * ?cap + n - k) 0, k)"
      using k k_def b by (simp add: go_copy_eq)
    moreover have "go_make 1 (int (2 * ?cap + n)) 0 = Some (replicate (2 * ?cap + n) (0 :: byte))"
      using alloc(3) go_make_bytes [of "2 * ?cap + n"] by (simp del: of_nat_add)
    ultimately have "grow_mem b n = Some (b\<lparr>b_mem := contents b @ replicate (2 * ?cap + n - k) 0, b_len := 2 * ?cap + n, b_nil := False, b_off := 0\<rparr>)"
      using alloc(1,2) b k k_def unfolding grow_mem_def i by (auto simp del: of_nat_add One_nat_def)
    then show ?thesis using alloc b k k_def by (auto simp: grown_def contents_def Let_def)
  next
    case wrap
    let ?v = "int32 (2 * int ?cap + int n)"
    have v: "?v < int n" using wrap b n int32_wrap [of "2 * int ?cap + int n"] by simp linarith
    have i: "int32 (int (b_len b) + int n) = int (b_len b + n)" "int32 (int k + int n) = int (k + n)"
      using int32_nat [of "b_len b + n"] int32_nat [of "k + n"] wrap k by simp_all
    have "go_copy buf 0 x = Some (buf', m) \<Longrightarrow> length buf' = length buf" for buf x and buf' :: gostring and m
      by (auto simp: go_copy_def Let_def split: if_splits)
    then have "grow_mem b n \<bind> (\<lambda>b'. reslice b' (int32 (int (b_off b') + int k + int n))) = None"
      using wrap(2,3) b(5) v unfolding grow_mem_def i(1)
      by (auto simp: go_make_byte reslice_def i(2) Let_def split: Option.bind_splits if_splits)
    then show ?thesis using wrap(4) k_def by simp
  qed
qed

text \<open>\<open>grow\<close> keeps the contents, in front of \<open>n\<close> more bytes of the slice, or panics on an overflow.\<close>

lemma grow_cases:
  assumes inv: "buf_inv b" and n: "n < 2 ^ 31"
  shows "grow b n = None \<and> 2 ^ 31 \<le> 2 * length (b_mem b) + n \<or>
    (\<exists>b' m. grow b n = Some (b', m) \<and> buf_inv b' \<and> b_len b' = m + n \<and> b_off b' \<le> m \<and> m \<le> b_len b \<and>
      drop (b_off b') (take m (b_mem b')) = contents b \<and>
      (length (b_mem b') = length (b_mem b) \<or> length (b_mem b') = 64 \<or> length (b_mem b') \<le> 3 * (b_len b + n)) \<and>
      b_lastRead b' = (if contents b = [] \<and> b_off b \<noteq> 0 then opInvalid else b_lastRead b))"
proof -
  define k where "k = length (contents b)"
  have k: "k = b_len b - b_off b" "nat (Buffer_Len b) = k"
    using length_contents [OF buf_inv_ok [OF inv]] by (simp_all add: k_def Buffer_Len_def)
  define b1 where "b1 = (if k = 0 \<and> b_off b \<noteq> 0 then b\<lparr>b_lastRead := opInvalid, b_off := 0, b_len := 0\<rparr> else b)"
  have b1: "(if k = 0 \<and> b_off b \<noteq> 0 then Truncate b 0 else Some b) = Some b1" by (simp add: b1_def Truncate_0)
  have ok1: "buf_inv b1" "contents b1 = contents b" "b_mem b1 = b_mem b" "b_len b1 \<le> b_len b"
    "b_lastRead b1 = (if contents b = [] \<and> b_off b \<noteq> 0 then opInvalid else b_lastRead b)"
    using inv k k_def by (auto simp: b1_def buf_inv_def contents_def)
  have g: "grow b n = grow_mem b1 n \<bind> (\<lambda>b. reslice b (int32 (int (b_off b) + int k + int n)) \<bind> (\<lambda>b. Some (b, b_off b + k)))"
    unfolding grow_def k(2) Let_def b1 bind.bind_lunit by (rule refl)
  from grow_mem_cases [OF ok1(1) n] show ?thesis
  proof
    assume "\<exists>b'. grow_mem b1 n = Some b' \<and> grown b1 n b'"
    then obtain b2 where b2: "grow_mem b1 n = Some b2" "grown b1 n b2" by blast
    then have r: "b_off b2 + k + n \<le> length (b_mem b2)" "length (b_mem b2) < 2 ^ 31" by (simp_all add: grown_def Let_def ok1(2) k_def)
    then have "int32 (int (b_off b2) + int k + int n) = int (b_off b2 + k + n)" using int32_nat [of "b_off b2 + k + n"] by simp
    then have "grow b n = Some (b2\<lparr>b_len := b_off b2 + k + n\<rparr>, b_off b2 + k)"
      using b2(1) r(1) by (simp add: g reslice_nat del: of_nat_add)
    then show ?thesis using b2(2) r ok1 by (auto simp: grown_def buf_inv_def drop_take Let_def k_def)
  next
    assume "2 ^ 31 \<le> 2 * length (b_mem b1) + n \<and>
      grow_mem b1 n \<bind> (\<lambda>b'. reslice b' (int32 (int (b_off b') + int (length (contents b1)) + int n))) = None"
    then show ?thesis using ok1(2,3) k_def by (auto simp: g split: Option.bind_splits)
  qed
qed

lemma grow_spec:
  assumes "buf_ok T b" "6 * (T + n) + 200 < 2 ^ 31"
  shows "\<exists>b' m. grow b n = Some (b', m) \<and> buf_ok (T + n) b' \<and> b_len b' = m + n \<and> b_off b' \<le> m \<and>
    drop (b_off b') (take m (b_mem b')) = contents b \<and> b_lastRead b' = (if contents b = [] \<and> b_off b \<noteq> 0 then opInvalid else b_lastRead b)"
proof -
  have "buf_inv b" "n < 2 ^ 31" "2 * length (b_mem b) + n < 2 ^ 31" using assms by (auto simp: buf_ok_def buf_inv_def)
  with grow_cases [of b n] obtain b' m where
    g: "grow b n = Some (b', m)" "buf_inv b'" "b_len b' = m + n" "b_off b' \<le> m" "m \<le> b_len b"
      "drop (b_off b') (take m (b_mem b')) = contents b"
      "length (b_mem b') = length (b_mem b) \<or> length (b_mem b') = 64 \<or> length (b_mem b') \<le> 3 * (b_len b + n)"
      "b_lastRead b' = (if contents b = [] \<and> b_off b \<noteq> 0 then opInvalid else b_lastRead b)" by fastforce
  then have "buf_ok (T + n) b'" using assms(1) by (auto simp: buf_ok_def buf_inv_def)
  with g show ?thesis by blast
qed

lemma contents_store:
  assumes "b_off b \<le> m" "m + length p \<le> length (b_mem b)" "b_len b = m + length p"
  shows "contents (b\<lparr>b_mem := take m (b_mem b) @ p @ drop (m + length p) (b_mem b)\<rparr>) =
    drop (b_off b) (take m (b_mem b)) @ p"
  using assms by (simp add: contents_def)

lemma Write_spec:
  assumes "buf_ok T b" "6 * (T + length p) + 200 < 2 ^ 31"
  shows "\<exists>b'. Buffer_Write b p = Some (b', length p) \<and> Buffer_WriteString b p = Some (b', length p) \<and>
    buf_ok (T + length p) b' \<and> contents b' = contents b @ p \<and> b_lastRead b' = opInvalid"
proof -
  from grow_spec [of T "b\<lparr>b_lastRead := opInvalid\<rparr>" "length p"] assms obtain b1 m where
    g: "grow (b\<lparr>b_lastRead := opInvalid\<rparr>) (length p) = Some (b1, m)" "buf_ok (T + length p) b1" "b_len b1 = m + length p"
      "b_off b1 \<le> m" "drop (b_off b1) (take m (b_mem b1)) = contents b" "b_lastRead b1 = opInvalid" by auto
  have l: "m + length p \<le> length (b_mem b1)" using g(2,3) by (simp add: buf_ok_def)
  define b' where "b' = b1\<lparr>b_mem := take m (b_mem b1) @ p @ drop (m + length p) (b_mem b1)\<rparr>"
  have "copy_into b1 m p = Some (b', length p)" using g(3) by (simp add: copy_into_def b'_def Let_def)
  moreover have "buf_ok (T + length p) b'"
    using g(2) l by (auto simp: buf_ok_def b'_def)
  moreover have "contents b' = contents b @ p" unfolding b'_def using contents_store [of b1 m p] g l by simp
  ultimately show ?thesis using g(1,6) by (simp add: Buffer_Write_def Buffer_WriteString_def b'_def)
qed

lemma WriteByte_spec:
  assumes "buf_ok T b" "6 * (T + 1) + 200 < 2 ^ 31"
  shows "\<exists>b'. Buffer_WriteByte b c = Some b' \<and> buf_ok (T + 1) b' \<and> contents b' = contents b @ [c] \<and> b_lastRead b' = opInvalid"
proof -
  from grow_spec [of T "b\<lparr>b_lastRead := opInvalid\<rparr>" 1] assms obtain b1 m where
    g: "grow (b\<lparr>b_lastRead := opInvalid\<rparr>) 1 = Some (b1, m)" "buf_ok (T + 1) b1" "b_len b1 = m + 1"
      "b_off b1 \<le> m" "drop (b_off b1) (take m (b_mem b1)) = contents b" "b_lastRead b1 = opInvalid" by auto
  have l: "m + 1 \<le> length (b_mem b1)" using g(2,3) by (simp add: buf_ok_def)
  then have "(b_mem b1)[m := c] = take m (b_mem b1) @ [c] @ drop (m + length [c]) (b_mem b1)"
    by (simp add: upd_conv_take_nth_drop)
  moreover have "contents (b1\<lparr>b_mem := (b_mem b1)[m := c]\<rparr>) = contents b @ [c]"
    unfolding calculation using contents_store [of b1 m "[c]"] g l by simp
  ultimately show ?thesis using g by (auto simp: Buffer_WriteByte_def buf_ok_def)
qed

lemma Read_spec:
  assumes "buf_ok T b"
  shows "\<exists>b'. Buffer_Read b n = Some (b', take n (contents b), if contents b = [] then Some EOF else None) \<and>
    buf_ok T b' \<and> contents b' = drop n (contents b)"
proof (cases "contents b = []")
  case True
  then have "b_len b \<le> b_off b" using contents_empty [OF assms] by simp
  then show ?thesis using True assms by (simp add: Buffer_Read_def Truncate_0 buf_ok_def contents_def)
next
  case False
  then have l: "b_off b < b_len b" using contents_empty [OF assms] by simp
  let ?d = "take n (contents b)"
  have "b_off b + length ?d \<le> b_len b" using length_contents [OF assms] l by simp
  moreover have "drop (b_off b + length ?d) (take (b_len b) (b_mem b)) = drop n (contents b)"
    using length_contents [OF assms] by (simp add: contents_def min_def add.commute)
  ultimately show ?thesis
    using False l assms by (auto simp: Buffer_Read_def Let_def buf_ok_def contents_def)
qed

lemma Next_spec:
  assumes "buf_ok T b"
  shows "\<exists>b'. Next b (int n) = Some (b', take n (contents b)) \<and> buf_ok T b' \<and> contents b' = drop n (contents b)"
proof -
  define k where "k = min n (b_len b - b_off b)"
  have b: "b_off b \<le> b_len b" "b_len b \<le> length (b_mem b)" using assms by (simp_all add: buf_ok_def)
  have k: "(if int n > Buffer_Len b then Buffer_Len b else int n) = int k" using b by (auto simp: Buffer_Len_def k_def)
  have le: "b_off b + k \<le> b_len b" using b by (simp add: k_def)
  have "go_slice (b_mem b) (int (b_off b)) (int (b_off b) + int k) = Some (take k (contents b))"
    using le b go_slice_nat [of "b_mem b" "b_off b" "b_off b + k"]
    by (simp add: slice_def contents_def drop_take min_absorb1)
  moreover have "take k (contents b) = take n (contents b)" "drop k (contents b) = drop n (contents b)"
    using length_contents [OF assms] by (auto simp: k_def min_def)
  moreover have "contents (b\<lparr>b_off := b_off b + k\<rparr>) = drop k (contents b)" by (simp add: contents_def add.commute)
  moreover have lb: "Buffer_Len (b\<lparr>b_lastRead := opInvalid\<rparr>) = Buffer_Len b" by (simp add: Buffer_Len_def)
  ultimately have "Next b (int n) = Some (b\<lparr>b_lastRead := (if 0 < k then opRead else opInvalid), b_off := b_off b + k\<rparr>, take n (contents b))"
    by (simp only: Next_def Let_def lb k) (simp add: nat_add_distrib)
  moreover have "buf_ok T (b\<lparr>b_lastRead := (if 0 < k then opRead else opInvalid), b_off := b_off b + k\<rparr>)"
    using assms le by (simp add: buf_ok_def)
  ultimately show ?thesis using \<open>drop k (contents b) = drop n (contents b)\<close>
    by (simp add: contents_def add.commute)
qed

lemma ReadByte_spec:
  assumes "buf_ok T b"
  shows "\<exists>b'. Buffer_ReadByte b = Some (b', if contents b = [] then 0 else hd (contents b), if contents b = [] then Some EOF else None) \<and>
    buf_ok T b' \<and> contents b' = drop 1 (contents b)"
proof (cases "contents b = []")
  case True
  then have "b_len b \<le> b_off b" using contents_empty [OF assms] by simp
  then show ?thesis using True assms by (simp add: Buffer_ReadByte_def Truncate_0 buf_ok_def contents_def)
next
  case False
  then have l: "b_off b < b_len b" using contents_empty [OF assms] by simp
  then show ?thesis
    using False assms by (auto simp: Buffer_ReadByte_def Let_def buf_ok_def contents_def hd_drop_conv_nth drop_Suc [symmetric] tl_drop)
qed

lemma ReadRune_spec:
  assumes "buf_ok T b"
  shows "\<exists>b'. Buffer_ReadRune b = Some (b', if contents b = [] then 0 else fst (DecodeRune (contents b)),
      snd (DecodeRune (contents b)), if contents b = [] then Some EOF else None) \<and>
    buf_ok T b' \<and> contents b' = drop (snd (DecodeRune (contents b))) (contents b) \<and>
    (contents b \<noteq> [] \<longrightarrow> b' = b\<lparr>b_lastRead := opReadRune, b_off := b_off b + snd (DecodeRune (contents b))\<rparr>)"
proof (cases "contents b = []")
  case True
  then have "b_len b \<le> b_off b" using contents_empty [OF assms] by simp
  moreover have "DecodeRune [] = (RuneError, 0)" by (simp add: DecodeRune_unfold)
  ultimately show ?thesis using True assms by (simp add: Buffer_ReadRune_def Truncate_0 buf_ok_def contents_def)
next
  case False
  then have l: "b_off b < b_len b" "b_len b \<le> length (b_mem b)"
    using contents_empty [OF assms] assms by (simp_all add: buf_ok_def)
  obtain r n where d: "DecodeRune (contents b) = (r, n)" by fastforce
  have n: "n \<le> b_len b - b_off b" using DecodeRune_size [OF d] length_contents [OF assms] by simp
  have "contents b ! 0 = b_mem b ! b_off b" using l by (simp add: contents_def)
  then have asc: "b_mem b ! b_off b < RuneSelf \<Longrightarrow> (r, n) = (uint (b_mem b ! b_off b), 1)"
    unfolding d [symmetric] using False by (simp add: DecodeRune_unfold Let_def RuneSelf_def)
  have "Buffer_ReadRune b = Some (b\<lparr>b_lastRead := opReadRune, b_off := b_off b + n\<rparr>, r, n, None)"
    using l asc d by (auto simp: Buffer_ReadRune_def Let_def)
  moreover have "contents (b\<lparr>b_lastRead := opReadRune, b_off := b_off b + n\<rparr>) = drop n (contents b)"
    by (simp add: contents_def add.commute)
  ultimately show ?thesis using False d n l assms by (simp add: buf_ok_def)
qed

lemma IndexByte_cases:
  "IndexByte s c = -1 \<and> c \<notin> set s \<or> (\<exists>k < length s. IndexByte s c = int k \<and> s ! k = c \<and> c \<notin> set (take k s))"
proof -
  have "(\<forall>j. 0 \<le> j \<and> j < k \<longrightarrow> s ! j \<noteq> c) \<longleftrightarrow> c \<notin> set (take k s)" if "k \<le> length s" for k
    using that by (auto simp: in_set_conv_nth)
  from this [of "length s"] this show ?thesis
    using for_find_cases [of "\<lambda>i. s ! i = c" 0 "length s"] unfolding IndexByte_def by auto
qed

text \<open>Up to and including the first occurrence of a delimiter, or all.\<close>

definition until_delim :: "byte \<Rightarrow> gostring \<Rightarrow> nat" where
  "until_delim c s = (if c \<in> set s then length (takeWhile (\<lambda>x. x \<noteq> c) s) + 1 else length s)"

lemma until_delim_le: "until_delim c s \<le> length s"
  by (induction s) (auto simp: until_delim_def split: if_splits)

lemma IndexByte_until:
  "IndexByte s c = (if c \<in> set s then int (until_delim c s) - 1 else -1)"
proof -
  have "length (takeWhile (\<lambda>x. x \<noteq> c) s) = k" if "k < length s" "s ! k = c" "c \<notin> set (take k s)" for k
    using that by (subst takeWhile_eq_take_P_nth [of k]) (auto simp: in_set_conv_nth)
  then show ?thesis using IndexByte_cases [of s c] by (auto simp: until_delim_def)
qed

lemma ReadBytes_spec:
  assumes "buf_ok T b"
  shows "\<exists>b'. Buffer_ReadBytes b delim = (b', take (until_delim delim (contents b)) (contents b),
      if delim \<in> set (contents b) then None else Some EOF) \<and>
    buf_ok T b' \<and> contents b' = drop (until_delim delim (contents b)) (contents b) \<and> b_lastRead b' = b_lastRead b"
proof -
  let ?u = "until_delim delim (contents b)"
  have u: "?u \<le> length (contents b)" by (rule until_delim_le)
  have "(if IndexByte (contents b) delim < 0 then b_len b - b_off b else nat (IndexByte (contents b) delim + 1)) = ?u"
    using length_contents [OF assms] by (auto simp: IndexByte_until until_delim_def)
  moreover have "(IndexByte (contents b) delim < 0) \<longleftrightarrow> delim \<notin> set (contents b)"
    by (auto simp: IndexByte_until until_delim_def)
  moreover have "contents (b\<lparr>b_off := b_off b + ?u\<rparr>) = drop ?u (contents b)" by (simp add: contents_def add.commute)
  moreover have "b_off b + ?u \<le> b_len b" using u length_contents [OF assms] assms unfolding buf_ok_def by linarith
  ultimately show ?thesis using assms by (simp add: Buffer_ReadBytes_def Let_def buf_ok_def)
qed

lemma WriteRune_spec:
  assumes "buf_ok T b" "is_int32 r"
  defines "p \<equiv> (if r < 0x80 then [go_byte r] else utf8_bytes (valid_rune r))"
  assumes "6 * (T + length p) + 200 < 2 ^ 31"
  shows "\<exists>b'. Buffer_WriteRune b r = Some (b', length p) \<and> buf_ok (T + length p) b' \<and> contents b' = contents b @ p \<and> b_lastRead b' = opInvalid"
proof (cases "r < 0x80")
  case True
  then show ?thesis using WriteByte_spec [of T b "go_byte r"] assms(1,4) by (auto simp: p_def Buffer_WriteRune_def)
next
  case False
  have l: "length (utf8_bytes x) \<le> 4" for x by (simp add: utf8_bytes_def)
  have rb: "length (b_runeBytes b) = 4" using assms(1) by (simp add: buf_ok_def)
  define rb' where "rb' = p @ drop (length p) (b_runeBytes b)"
  have e: "EncodeRune (b_runeBytes b) r = Some (rb', length p)"
    using EncodeRune_eq [OF assms(2), of "b_runeBytes b"] l rb False by (simp add: p_def rb'_def)
  have "buf_ok T (b\<lparr>b_runeBytes := rb'\<rparr>)" "contents (b\<lparr>b_runeBytes := rb'\<rparr>) = contents b"
    using assms(1) l rb False by (simp_all add: buf_ok_def rb'_def p_def contents_def)
  with Write_spec [of T "b\<lparr>b_runeBytes := rb'\<rparr>" p] assms(4) obtain b' where
    "Buffer_Write (b\<lparr>b_runeBytes := rb'\<rparr>) p = Some (b', length p)" "buf_ok (T + length p) b'"
    "contents b' = contents b @ p" "b_lastRead b' = opInvalid" by auto
  moreover have "take (length p) rb' = p" by (simp add: rb'_def)
  ultimately show ?thesis using False e by (simp add: Buffer_WriteRune_def)
qed

section \<open>The buffer as a reader and a writer\<close>

text \<open>The methods with the types of \<open>io.Reader\<close> and \<open>io.Writer\<close>.\<close>

definition buffer_Reader :: "Buffer io_Reader" where
  "buffer_Reader b p = do { (b, d, e) \<leftarrow> Buffer_Read b (length p); Some (length d, e, d @ drop (length d) p, b) }"

definition buffer_Writer :: "Buffer io_Writer" where
  "buffer_Writer b p = do { (b, n) \<leftarrow> Buffer_Write b p; Some (n, None, b) }"

lemma buffer_Reader_spec:
  assumes "buf_inv b"
  shows "\<exists>b'. buffer_Reader b p = Some (min (length (contents b)) (length p), if contents b = [] then Some EOF else None,
      take (length p) (contents b) @ drop (length (contents b)) p, b') \<and> buf_inv b' \<and>
    contents b' = drop (length p) (contents b)"
proof -
  from Read_spec [OF buf_inv_ok [OF assms], of "length p"] obtain b' where
    b': "Buffer_Read b (length p) = Some (b', take (length p) (contents b), if contents b = [] then Some EOF else None)"
      "buf_ok (length (b_mem b)) b'" "contents b' = drop (length p) (contents b)" by blast
  then have "b_mem b' = b_mem b" by (auto simp: Buffer_Read_def Truncate_0 Let_def split: if_splits)
  with b' assms have "buf_inv b'" by (simp add: buf_inv_def buf_ok_def)
  with b' show ?thesis by (simp add: buffer_Reader_def min_def)
qed

interpretation br: live_reader buffer_Reader contents buf_inv
proof
  fix r p n e p' r'
  assume "buf_inv r" "buffer_Reader r p = Some (n, e, p', r')"
  with buffer_Reader_spec [of r p] have s: "n = min (length (contents r)) (length p)"
    "p' = take (length p) (contents r) @ drop (length (contents r)) p" "buf_inv r'" "contents r' = drop (length p) (contents r)"
    by auto
  show "buf_inv r'" "n \<le> length p \<and> length p' = length p" "contents r = take n p' @ contents r'"
    using s by (auto simp: min_def)
next
  fix r p n p' r'
  assume "buf_inv r" "buffer_Reader r p = Some (n, Some EOF, p', r')"
  with buffer_Reader_spec [of r p] show "contents r' = []" by (auto split: if_splits)
next
  fix r p
  assume "buf_inv r"
  from buffer_Reader_spec [OF this, of p] show "\<exists>n e p' r'. buffer_Reader r p = Some (n, e, p', r')" by blast
next
  fix r p n e p' r'
  assume "buf_inv r" "buffer_Reader r p = Some (n, Some e, p', r')"
  with buffer_Reader_spec [of r p] show "e = EOF" by (auto split: if_splits)
next
  fix r and p :: gostring and n p' r'
  assume "buf_inv r" "buffer_Reader r p = Some (n, None, p', r')" "p \<noteq> []"
  with buffer_Reader_spec [of r p] show "0 < n" by (auto split: if_splits)
qed

lemma copy_into_end:
  "b_len b = m + length p \<Longrightarrow>
   copy_into b m p = Some (b\<lparr>b_mem := take m (b_mem b) @ p @ drop (m + length p) (b_mem b)\<rparr>, length p)"
  by (simp add: copy_into_def Let_def)

lemma Write_panics_or_appends:
  assumes "buf_inv b" "length p < 2 ^ 31"
  shows "Buffer_Write b p = None \<and> 2 ^ 31 \<le> 2 * length (b_mem b) + length p \<or>
    (\<exists>b'. Buffer_Write b p = Some (b', length p) \<and> buf_inv b' \<and> contents b' = contents b @ p)"
proof -
  let ?b = "b\<lparr>b_lastRead := opInvalid\<rparr>"
  have inv: "buf_inv ?b" using assms(1) by (simp add: buf_inv_def)
  show ?thesis
  proof (cases "grow ?b (length p)")
    case None
    then show ?thesis using grow_cases [OF inv assms(2)] by (simp add: Buffer_Write_def)
  next
    case (Some r)
    then obtain b1 m where g: "grow ?b (length p) = Some (b1, m)" by (cases r) simp
    with grow_cases [OF inv assms(2)] have b1: "buf_inv b1" "b_len b1 = m + length p" "b_off b1 \<le> m"
      "drop (b_off b1) (take m (b_mem b1)) = contents b" by simp_all
    define b' where "b' = b1\<lparr>b_mem := take m (b_mem b1) @ p @ drop (m + length p) (b_mem b1)\<rparr>"
    have l: "m + length p \<le> length (b_mem b1)" using b1(1,2) by (simp add: buf_inv_def)
    have "Buffer_Write b p = Some (b', length p)" using g copy_into_end [OF b1(2)] by (simp add: Buffer_Write_def b'_def)
    moreover have "buf_inv b'" using b1(1,2) l by (auto simp: buf_inv_def b'_def)
    moreover have "contents b' = contents b @ p" unfolding b'_def using contents_store [of b1 m p] b1 l by simp
    ultimately show ?thesis by blast
  qed
qed

interpretation bw: writer buffer_Writer contents buf_inv
proof
  fix w :: Buffer and p :: gostring and n e w'
  assume "buf_inv w" "length p < 2 ^ 31" "buffer_Writer w p = Some (n, e, w')"
  with Write_panics_or_appends [of w p] have s: "n = length p" "buf_inv w'" "contents w' = contents w @ p"
    by (auto simp: buffer_Writer_def)
  show "buf_inv w'" "n \<le> length p" "contents w' = contents w @ take n p" using s by simp_all
next
  fix w :: Buffer and p :: gostring and n w'
  assume "buf_inv w" "length p < 2 ^ 31" "buffer_Writer w p = Some (n, None, w')"
  with Write_panics_or_appends [of w p] show "n = length p" by (auto simp: buffer_Writer_def)
qed

section \<open>Sequences of operations\<close>

text \<open>A call of a method and its result: the bytes, the number (a count or a rune) and the error it returns. On
  the specification side the state is the sequence of unread bytes.\<close>

datatype buf_op = OpWrite gostring | OpWriteString gostring | OpWriteByte byte | OpWriteRune int
  | OpRead nat | OpNext nat | OpReadByte | OpReadRune | OpReadBytes byte | OpReset

type_synonym buf_res = "gostring \<times> int \<times> os_Error option"

fun buf_step :: "Buffer \<Rightarrow> buf_op \<Rightarrow> (Buffer \<times> buf_res) option" where
  "buf_step b (OpWrite p) = do { (b, n) \<leftarrow> Buffer_Write b p; Some (b, [], int n, None) }"
| "buf_step b (OpWriteString p) = do { (b, n) \<leftarrow> Buffer_WriteString b p; Some (b, [], int n, None) }"
| "buf_step b (OpWriteByte c) = do { b \<leftarrow> Buffer_WriteByte b c; Some (b, [], 0, None) }"
| "buf_step b (OpWriteRune r) = do { (b, n) \<leftarrow> Buffer_WriteRune b r; Some (b, [], int n, None) }"
| "buf_step b (OpRead n) = do { (b, d, e) \<leftarrow> Buffer_Read b n; Some (b, d, int (length d), e) }"
| "buf_step b (OpNext n) = do { (b, d) \<leftarrow> Next b (int n); Some (b, d, 0, None) }"
| "buf_step b OpReadByte = do { (b, c, e) \<leftarrow> Buffer_ReadByte b; Some (b, [c], 0, e) }"
| "buf_step b OpReadRune = do { (b, r, n, e) \<leftarrow> Buffer_ReadRune b; Some (b, replicate n 0, r, e) }"
| "buf_step b (OpReadBytes c) = (let (b, d, e) = Buffer_ReadBytes b c in Some (b, d, 0, e))"
| "buf_step b OpReset = do { b \<leftarrow> Reset b; Some (b, [], 0, None) }"

definition rune_out :: "int \<Rightarrow> gostring" where
  "rune_out r = (if r < 0x80 then [go_byte r] else utf8_bytes (valid_rune r))"

definition at_end :: "gostring \<Rightarrow> os_Error option" where
  "at_end q = (if q = [] then Some EOF else None)"

fun queue_step :: "gostring \<Rightarrow> buf_op \<Rightarrow> gostring \<times> buf_res" where
  "queue_step q (OpWrite p) = (q @ p, [], int (length p), None)"
| "queue_step q (OpWriteString p) = (q @ p, [], int (length p), None)"
| "queue_step q (OpWriteByte c) = (q @ [c], [], 0, None)"
| "queue_step q (OpWriteRune r) = (q @ rune_out r, [], int (length (rune_out r)), None)"
| "queue_step q (OpRead n) = (drop n q, take n q, int (min n (length q)), at_end q)"
| "queue_step q (OpNext n) = (drop n q, take n q, 0, None)"
| "queue_step q OpReadByte = (drop 1 q, [if q = [] then 0 else hd q], 0, at_end q)"
| "queue_step q OpReadRune = (let (r, n) = DecodeRune q in (drop n q, replicate n 0, if q = [] then 0 else r, at_end q))"
| "queue_step q (OpReadBytes c) = (let n = until_delim c q in (drop n q, take n q, 0, if c \<in> set q then None else Some EOF))"
| "queue_step q OpReset = ([], [], 0, None)"

fun op_size :: "buf_op \<Rightarrow> nat" where
  "op_size (OpWrite p) = length p"
| "op_size (OpWriteString p) = length p"
| "op_size (OpWriteByte c) = 1"
| "op_size (OpWriteRune r) = length (rune_out r)"
| "op_size _ = 0"

fun op_int32 :: "buf_op \<Rightarrow> bool" where
  "op_int32 (OpWriteRune r) = is_int32 r"
| "op_int32 _ = True"

fun buf_run :: "Buffer \<Rightarrow> buf_op list \<Rightarrow> (Buffer \<times> buf_res list) option" where
  "buf_run b [] = Some (b, [])"
| "buf_run b (x # xs) = do { (b, r) \<leftarrow> buf_step b x; (b, rs) \<leftarrow> buf_run b xs; Some (b, r # rs) }"

fun queue_run :: "gostring \<Rightarrow> buf_op list \<Rightarrow> gostring \<times> buf_res list" where
  "queue_run q [] = (q, [])"
| "queue_run q (x # xs) = (let (q, r) = queue_step q x; (q, rs) = queue_run q xs in (q, r # rs))"

lemma Reset_spec: "buf_ok T b \<Longrightarrow> \<exists>b'. Reset b = Some b' \<and> buf_ok T b' \<and> contents b' = []"
  by (simp add: Reset_def Truncate_0 buf_ok_def contents_def)

lemma buf_step_refines:
  assumes "buf_ok T b" "op_int32 x" "6 * (T + op_size x) + 200 < 2 ^ 31"
  shows "\<exists>b'. buf_step b x = Some (b', snd (queue_step (contents b) x)) \<and> buf_ok (T + op_size x) b' \<and>
    contents b' = fst (queue_step (contents b) x)"
proof (cases x)
  case (OpWrite p)
  then show ?thesis using Write_spec [of T b p] assms by auto
next
  case (OpWriteString p)
  then show ?thesis using Write_spec [of T b p] assms by auto
next
  case (OpWriteByte c)
  then show ?thesis using WriteByte_spec [of T b c] assms by auto
next
  case (OpWriteRune r)
  then show ?thesis using WriteRune_spec [of T b r] assms unfolding rune_out_def [symmetric] by auto
next
  case (OpRead n)
  then show ?thesis using Read_spec [OF assms(1), of n] by (auto simp: at_end_def min.commute)
next
  case (OpNext n)
  then show ?thesis using Next_spec [OF assms(1), of n] by auto
next
  case OpReadByte
  then show ?thesis using ReadByte_spec [OF assms(1)] by (auto simp: at_end_def)
next
  case OpReadRune
  then show ?thesis using ReadRune_spec [OF assms(1)] by (auto simp: at_end_def split: prod.split)
next
  case (OpReadBytes c)
  then show ?thesis using ReadBytes_spec [OF assms(1), of c] by (auto simp: Let_def)
next
  case OpReset
  then show ?thesis using Reset_spec [OF assms(1)] by auto
qed

lemma buf_run_refines:
  assumes "buf_ok T b" "list_all op_int32 xs" "6 * (T + sum_list (map op_size xs)) + 200 < 2 ^ 31"
  shows "\<exists>b'. buf_run b xs = Some (b', snd (queue_run (contents b) xs)) \<and> buf_ok (T + sum_list (map op_size xs)) b' \<and>
    contents b' = fst (queue_run (contents b) xs)"
  using assms
proof (induction xs arbitrary: T b)
  case (Cons x xs)
  then obtain b1 where b1: "buf_step b x = Some (b1, snd (queue_step (contents b) x))" "buf_ok (T + op_size x) b1"
    "contents b1 = fst (queue_step (contents b) x)" using buf_step_refines [of T b x] by auto
  from Cons.IH [OF b1(2)] Cons.prems obtain b2 where "buf_run b1 xs = Some (b2, snd (queue_run (contents b1) xs))"
    "buf_ok (T + op_size x + sum_list (map op_size xs)) b2" "contents b2 = fst (queue_run (contents b1) xs)" by auto
  with b1 show ?case by (simp add: split_beta Let_def add.assoc)
qed simp

text \<open>C26: A \<open>bytes.Buffer\<close> is a queue of bytes. From the zero value, any sequence of calls of \<open>Write\<close>, \<open>WriteString\<close>,
  \<open>WriteByte\<close>, \<open>WriteRune\<close>, \<open>Read\<close>, \<open>Next\<close> (of a count that is not negative), \<open>ReadByte\<close>, \<open>ReadRune\<close>, \<open>ReadBytes\<close> and \<open>Reset\<close> that
  writes \<open>T\<close> bytes in all, with \<open>6 * T + 200 < 2 ^ 31\<close>, runs without a panic, returns in every call what a queue of
  bytes returns (for \<open>ReadRune\<close> the rune and width of the decoder on the unread bytes, for \<open>ReadBytes\<close> the bytes up to
  the delimiter), and ends with the bytes of the queue; \<open>Bytes\<close> and \<open>Len\<close> describe them. \<open>Truncate\<close>, \<open>UnreadByte\<close>,
  \<open>UnreadRune\<close>, \<open>ReadFrom\<close> and \<open>WriteTo\<close> are not among the calls.\<close>

theorem Buffer_queue:
  assumes "list_all op_int32 xs" "6 * sum_list (map op_size xs) + 200 < 2 ^ 31"
  shows "\<exists>b. buf_run zero_Buffer xs = Some (b, snd (queue_run [] xs)) \<and>
    Buffer_Bytes b = Some (fst (queue_run [] xs)) \<and> Buffer_Len b = int (length (fst (queue_run [] xs)))"
proof -
  have z: "buf_ok 0 zero_Buffer" "contents zero_Buffer = []" by (simp_all add: buf_ok_def zero_Buffer_def contents_def)
  from buf_run_refines [OF z(1) assms(1)] assms(2) z(2) obtain b where
    b: "buf_run zero_Buffer xs = Some (b, snd (queue_run [] xs))" "buf_ok (sum_list (map op_size xs)) b"
      "contents b = fst (queue_run [] xs)" by auto
  have "b_off b \<le> b_len b" "b_len b \<le> length (b_mem b)" using b(2) by (simp_all add: buf_ok_def)
  then have "Buffer_Bytes b = Some (contents b)" "Buffer_Len b = int (length (contents b))"
    using length_contents [OF b(2)] by (simp_all add: Buffer_Bytes_def Buffer_Len_def contents_def slice_def of_nat_diff)
  with b show ?thesis by auto
qed

theorem Buffer_queue_witness:
  "\<exists>b. buf_run zero_Buffer [OpWriteString (bs ''a,b''), OpReadBytes 0x2C, OpWriteRune 0x20AC, OpReadByte, OpReadRune, OpReadByte] =
     Some (b, [([], 3, None), (bs ''a,'', 0, None), ([], 3, None), (bs ''b'', 0, None), (replicate 3 0, 0x20AC, None), ([0], 0, Some EOF)]) \<and>
   Buffer_Bytes b = Some [] \<and> Buffer_Len b = 0"
proof -
  let ?xs = "[OpWriteString (bs ''a,b''), OpReadBytes 0x2C, OpWriteRune 0x20AC, OpReadByte, OpReadRune, OpReadByte]"
  have "list_all op_int32 ?xs" "sum_list (map op_size ?xs) = 6" by code_simp+
  moreover have "queue_run [] ?xs = ([], [([], 3, None), (bs ''a,'', 0, None), ([], 3, None), (bs ''b'', 0, None),
    (replicate 3 0, 0x20AC, None), ([0], 0, Some EOF)])" by code_simp
  ultimately show ?thesis using Buffer_queue [of ?xs] by simp
qed

section \<open>Unreading\<close>

text \<open>C27: \<open>UnreadRune\<close> after \<open>ReadRune\<close> restores the unread bytes if the read began at a rune boundary of the
  bytes in the buffer, and a second \<open>UnreadRune\<close> fails. It decodes the bytes before the offset backward and does
  not know the width that was read: after a \<open>ReadByte\<close> inside the encoding E2 82 AC and two calls of \<open>ReadRune\<close>,
  which return the invalid bytes 82 and AC, it steps back over all three bytes.\<close>

theorem UnreadRune_restores:
  assumes "buf_ok T b" "contents b \<noteq> []" "k < length (decode_all (take (b_len b) (b_mem b)))"
    "b_off b = rune_pos (decode_all (take (b_len b) (b_mem b))) k"
  shows "(\<exists>b1 b2 r n. Buffer_ReadRune b = Some (b1, r, n, None) \<and> Buffer_UnreadRune b1 = Some (b2, None) \<and>
      contents b2 = contents b \<and> (\<exists>e. Buffer_UnreadRune b2 = Some (b2, Some e))) \<and>
    (\<exists>b3 b4. buf_run (NewBufferString [0xE2, 0x82, 0xAC]) [OpReadByte, OpReadRune, OpReadRune] =
        Some (b3, [([0xE2], 0, None), ([0], RuneError, None), ([0], RuneError, None)]) \<and>
      contents b3 = [] \<and> Buffer_UnreadRune b3 = Some (b4, None) \<and> contents b4 = [0xE2, 0x82, 0xAC])"
proof
  let ?s = "take (b_len b) (b_mem b)"
  let ?n = "snd (DecodeRune (contents b))"
  have d: "DecodeRune (contents b) = decode_all ?s ! k" using decode_at(1) [OF assms(3)] assms(4) by (simp add: contents_def)
  from ReadRune_spec [OF assms(1)] assms(2) obtain b1 where
    b1: "Buffer_ReadRune b = Some (b1, fst (DecodeRune (contents b)), ?n, None)"
      "b1 = b\<lparr>b_lastRead := opReadRune, b_off := b_off b + ?n\<rparr>" by auto
  have p: "b_off b1 = rune_pos (decode_all ?s) (Suc k)" using assms(3,4) d b1(2) by (simp add: rune_pos_Suc)
  have le: "b_off b1 \<le> b_len b"
    using rune_pos_le [of "Suc k" ?s] assms(3) p by (simp add: Suc_le_eq)
  have "0 < ?n" using assms(2) DecodeRune_size [of "contents b" "fst (DecodeRune (contents b))" ?n] by simp
  then have pos: "0 < b_off b1" using b1(2) by simp
  have t: "take (b_off b1) (b_mem b1) = take (rune_pos (decode_all ?s) (Suc k)) ?s" using le p b1(2) by (simp add: min_absorb1)
  have ne: "take (b_off b1) (b_mem b1) \<noteq> []" using pos le assms(1) b1(2) by (auto simp: buf_ok_def)
  have "DecodeLastRune (take (b_off b1) (b_mem b1)) = Some (decode_all ?s ! k)"
    unfolding t DecodeLastRune_last [OF ne [unfolded t]] decode_all_take [OF Suc_leI [OF assms(3)]]
    using assms(3) by (simp add: take_Suc_conv_app_nth)
  moreover have "snd (decode_all ?s ! k) = ?n" by (simp add: d)
  ultimately have "Buffer_UnreadRune b1 = Some (b\<lparr>b_lastRead := opInvalid\<rparr>, None)"
    using pos b1(2) by (simp add: Buffer_UnreadRune_def split_beta)
  then show "\<exists>b1 b2 r n. Buffer_ReadRune b = Some (b1, r, n, None) \<and> Buffer_UnreadRune b1 = Some (b2, None) \<and>
      contents b2 = contents b \<and> (\<exists>e. Buffer_UnreadRune b2 = Some (b2, Some e))"
    using b1(1) by (auto simp: Buffer_UnreadRune_def)
next
  let ?b = "NewBufferString [0xE2, 0x82, 0xAC]"
  have "buf_run ?b [OpReadByte, OpReadRune, OpReadRune] =
      Some (?b\<lparr>b_off := 3, b_lastRead := opReadRune\<rparr>, [([0xE2], 0, None), ([0], RuneError, None), ([0], RuneError, None)])"
    by code_simp
  moreover have "Buffer_UnreadRune (?b\<lparr>b_off := 3, b_lastRead := opReadRune\<rparr>) = Some (?b, None)" by code_simp
  moreover have "contents (?b\<lparr>b_off := 3, b_lastRead := opReadRune\<rparr>) = []" "contents ?b = [0xE2, 0x82, 0xAC]" by code_simp+
  ultimately show "\<exists>b3 b4. buf_run ?b [OpReadByte, OpReadRune, OpReadRune] =
        Some (b3, [([0xE2], 0, None), ([0], RuneError, None), ([0], RuneError, None)]) \<and>
      contents b3 = [] \<and> Buffer_UnreadRune b3 = Some (b4, None) \<and> contents b4 = [0xE2, 0x82, 0xAC]" by blast
qed

theorem UnreadRune_restores_witness:
  "\<exists>b1 b2 r n. Buffer_ReadRune (NewBufferString [0x41, 0xE2, 0x82, 0xAC]\<lparr>b_off := 1\<rparr>) = Some (b1, r, n, None) \<and>
     Buffer_UnreadRune b1 = Some (b2, None) \<and> contents b2 = [0xE2, 0x82, 0xAC]"
proof -
  let ?b = "NewBufferString [0x41, 0xE2, 0x82, 0xAC]\<lparr>b_off := 1\<rparr>"
  have d: "DecodeRune [0x41, 0xE2, 0x82, 0xAC] = (0x41, 1)" "DecodeRune [0xE2, 0x82, 0xAC] = (0x20AC, 3)" by code_simp+
  have a: "decode_all [0x41, 0xE2, 0x82, 0xAC] = [(0x41, 1), (0x20AC, 3)]" using d by (simp add: decode_all.simps)
  have f: "b_len ?b = 4" "b_mem ?b = [0x41, 0xE2, 0x82, 0xAC]" "b_off ?b = 1" "contents ?b = [0xE2, 0x82, 0xAC]" "buf_ok 4 ?b"
    by code_simp+
  have t: "decode_all (take (b_len ?b) (b_mem ?b)) = [(0x41, 1), (0x20AC, 3)]" unfolding f(1,2) using a by simp
  have "contents ?b \<noteq> []" "1 < length (decode_all (take (b_len ?b) (b_mem ?b)))"
    "b_off ?b = rune_pos (decode_all (take (b_len ?b) (b_mem ?b))) 1" unfolding t f(3,4) by (simp_all add: rune_pos_def)
  from UnreadRune_restores [OF f(5) this] show ?thesis unfolding f(4) by blast
qed

end
