(* ===== verification/Strconv.thy ===== *)
theory Strconv
  imports Go_IO
begin

text \<open>
  Integers and booleans of package strconv (\<open>itoa.go\<close>, \<open>atoi.go\<close>, \<open>atob.go\<close>). An \<open>uint64\<close> is a 64-bit word, an
  \<open>int64\<close> and an \<open>int\<close> are HOL integers of 64 and 32 bits, and a base is an integer. A conversion that fails returns
  a value and a \<open>NumError\<close>. The lemmas compare the loops, with their tests for overflow, with the value of a list
  of digits.
\<close>

section \<open>Integers to strings\<close>

definition lowerdigits :: gostring where
  "lowerdigits = bs ''0123456789abcdefghijklmnopqrstuvwxyz''"

partial_function (option) Uitob64_loop :: "64 word \<Rightarrow> 64 word \<Rightarrow> gostring \<Rightarrow> int \<Rightarrow> (gostring \<times> int) option" where
  "Uitob64_loop b u buf j =
     (if u > 0 then do {
        let j = j - 1;
        c \<leftarrow> go_index lowerdigits (uint (u mod b));
        buf \<leftarrow> go_set buf j c;
        Uitob64_loop b (u div b) buf j
      } else Some (buf, j))"

definition Uitob64 :: "64 word \<Rightarrow> int \<Rightarrow> gostring option" where
  "Uitob64 u base =
     (if base < 2 \<or> 36 < base then None
      else if u = 0 then Some (bs ''0'')
      else do {
        (buf, j) \<leftarrow> Uitob64_loop (word_of_int base) u (replicate 64 0) 64;
        go_slice buf j 64
      })"

definition Itob64 :: "int \<Rightarrow> int \<Rightarrow> gostring option" where
  "Itob64 i base =
     (if i = 0 then Some (bs ''0'')
      else if i < 0 then do { s \<leftarrow> Uitob64 (- word_of_int i) base; Some (bs ''-'' @ s) }
      else Uitob64 (word_of_int i) base)"

definition Itoa64 :: "int \<Rightarrow> gostring option" where
  "Itoa64 i = Itob64 i 10"

definition Uitoa64 :: "64 word \<Rightarrow> gostring option" where
  "Uitoa64 i = Uitob64 i 10"

definition Uitob :: "32 word \<Rightarrow> int \<Rightarrow> gostring option" where
  "Uitob i base = Uitob64 (ucast i) base"

definition Itob :: "int \<Rightarrow> int \<Rightarrow> gostring option" where
  "Itob i base = Itob64 i base"

definition Itoa :: "int \<Rightarrow> gostring option" where
  "Itoa i = Itob64 i 10"

definition Uitoa :: "32 word \<Rightarrow> gostring option" where
  "Uitoa i = Uitob64 (ucast i) 10"

section \<open>Strings to integers\<close>

datatype NumError = NumError gostring os_Error

partial_function (option) computeIntsize_loop :: "nat \<Rightarrow> nat option" where
  "computeIntsize_loop siz = (if int32 (2 ^ siz) \<noteq> 0 then computeIntsize_loop (siz * 2) else Some siz)"

definition IntSize :: "nat option" where
  "IntSize = computeIntsize_loop 8"

definition cutoff64 :: "int \<Rightarrow> 64 word" where
  "cutoff64 base = (if base < 2 then 0 else (- 1) div word_of_int base + 1)"

definition digit_val :: "byte \<Rightarrow> byte option" where
  "digit_val d =
     (if 0x30 \<le> d \<and> d \<le> 0x39 then Some (d - 0x30)
      else if 0x61 \<le> d \<and> d \<le> 0x7A then Some (d - 0x61 + 10)
      else if 0x41 \<le> d \<and> d \<le> 0x5A then Some (d - 0x41 + 10)
      else None)"

fun Btoui64_loop :: "int \<Rightarrow> 64 word \<Rightarrow> 64 word \<Rightarrow> gostring \<Rightarrow> 64 word \<times> os_Error option" where
  "Btoui64_loop b cutoff n [] = (n, None)"
| "Btoui64_loop b cutoff n (d # s) =
     (case digit_val d of
        None \<Rightarrow> (0, Some EINVAL)
      | Some v \<Rightarrow>
         if uint v \<ge> b then (0, Some EINVAL)
         else if n \<ge> cutoff then (- 1, Some ERANGE)
         else let n = n * word_of_int b; n1 = n + ucast v in
           if n1 < n then (- 1, Some ERANGE) else Btoui64_loop b cutoff n1 s)"

definition Btoui64_digits :: "gostring \<Rightarrow> int \<Rightarrow> 64 word \<times> os_Error option" where
  "Btoui64_digits s b = Btoui64_loop b (cutoff64 b) 0 s"

definition numError :: "gostring \<Rightarrow> 64 word \<times> os_Error option \<Rightarrow> 64 word \<times> NumError option" where
  "numError s0 r = (case r of (n, None) \<Rightarrow> (n, None) | (n, Some e) \<Rightarrow> (n, Some (NumError s0 e)))"

definition Btoui64 :: "gostring \<Rightarrow> int \<Rightarrow> (64 word \<times> NumError option) option" where
  "Btoui64 s b =
     (if length s < 1 then Some (0, Some (NumError s EINVAL))
      else if 2 \<le> b \<and> b \<le> 36 then Some (numError s (Btoui64_digits s b))
      else if b = 0 then
        (if s ! 0 = 0x30 \<and> length s > 1 \<and> (s ! 1 = 0x78 \<or> s ! 1 = 0x58) then
           (if length (drop 2 s) < 1 then Some (0, Some (NumError s EINVAL))
            else Some (numError s (Btoui64_digits (drop 2 s) 16)))
         else if s ! 0 = 0x30 then Some (numError s (Btoui64_digits s 8))
         else Some (numError s (Btoui64_digits s 10)))
      else do {
        a \<leftarrow> Itoa b;
        Some (0, Some (NumError s (ErrorString (bs ''invalid base '' @ a))))
      })"

definition Atoui64 :: "gostring \<Rightarrow> (64 word \<times> NumError option) option" where
  "Atoui64 s = Btoui64 s 10"

fun not_range :: "NumError option \<Rightarrow> bool" where
  "not_range None = False"
| "not_range (Some (NumError s e)) = (e \<noteq> ERANGE)"

fun set_Num :: "gostring \<Rightarrow> NumError option \<Rightarrow> NumError option" where
  "set_Num s0 None = None"
| "set_Num s0 (Some (NumError s e)) = Some (NumError s0 e)"

definition Btoi64 :: "gostring \<Rightarrow> int \<Rightarrow> (int \<times> NumError option) option" where
  "Btoi64 s base =
     (if length s = 0 then Some (0, Some (NumError s EINVAL))
      else do {
        let neg = (s ! 0 = 0x2D);
        let s1 = (if s ! 0 = 0x2B then drop 1 s else if neg then drop 1 s else s);
        (un, err) \<leftarrow> Btoui64 s1 base;
        (if not_range err then Some (0, set_Num s err)
         else if \<not> neg \<and> un \<ge> push_bit 63 1 then Some (2 ^ 63 - 1, Some (NumError s ERANGE))
         else if neg \<and> un > push_bit 63 1 then Some (- (2 ^ 63), Some (NumError s ERANGE))
         else let n = int64 (uint un) in Some (if neg then int64 (- n) else n, None))
      })"

definition Atoi64 :: "gostring \<Rightarrow> (int \<times> NumError option) option" where
  "Atoi64 s = Btoi64 s 10"

definition Atoui :: "gostring \<Rightarrow> (32 word \<times> NumError option) option" where
  "Atoui s = do {
     (i1, e1) \<leftarrow> Atoui64 s;
     (if not_range e1 then Some (0, e1)
      else let i = ucast i1 in
        if ucast i \<noteq> i1 then Some (- 1, Some (NumError s ERANGE)) else Some (i, None))
   }"

definition Atoi :: "gostring \<Rightarrow> (int \<times> NumError option) option" where
  "Atoi s = do {
     (i1, e1) \<leftarrow> Atoi64 s;
     (if not_range e1 then Some (0, e1)
      else let i = int32 i1 in
        if i \<noteq> i1 then do {
          size \<leftarrow> IntSize;
          Some (if i1 < 0 then - (2 ^ (size - 1)) else 2 ^ (size - 1) - 1, Some (NumError s ERANGE))
        } else Some (i, None))
   }"

definition Atob :: "gostring \<Rightarrow> bool \<times> NumError option" where
  "Atob str =
     (if str \<in> set (map bs [''1'', ''t'', ''T'', ''true'', ''TRUE'', ''True'']) then (True, None)
      else if str \<in> set (map bs [''0'', ''f'', ''F'', ''false'', ''FALSE'', ''False'']) then (False, None)
      else (False, Some (NumError str EINVAL)))"

definition Btoa :: "bool \<Rightarrow> gostring" where
  "Btoa b = (if b then bs ''true'' else bs ''false'')"

section \<open>The value of a list of digits\<close>

definition digit_ok :: "nat \<Rightarrow> byte \<Rightarrow> bool" where
  "digit_ok b d = (case digit_val d of None \<Rightarrow> False | Some v \<Rightarrow> unat v < b)"

definition digits_value :: "nat \<Rightarrow> nat \<Rightarrow> gostring \<Rightarrow> nat" where
  "digits_value b n s = foldl (\<lambda>n d. n * b + unat (the (digit_val d))) n s"

lemma digits_value_simps [simp]:
  "digits_value b n [] = n"
  "digits_value b n (d # s) = digits_value b (n * b + unat (the (digit_val d))) s"
  "digits_value b n (s @ t) = digits_value b (digits_value b n s) t"
  by (simp_all add: digits_value_def)

lemma digits_value_ge: "0 < b \<Longrightarrow> n \<le> digits_value b n s"
proof (induction s arbitrary: n)
  case (Cons d s)
  have "n \<le> n * b + unat (the (digit_val d))" using Cons.prems by (simp add: trans_le_add1)
  then show ?case using Cons.IH [of "n * b + unat (the (digit_val d))"] Cons.prems by simp
qed simp

lemma unat_less: "unat x < 2 ^ LENGTH('a)" for x :: "'a::len word"
  by (rule unsigned_less)

lemma uint_le_unat: "int b \<le> uint x \<longleftrightarrow> b \<le> unat x"
proof -
  have "int (unat x) = uint x" by (rule of_nat_unat)
  then show ?thesis by linarith
qed

lemma unat_cutoff64:
  assumes "2 \<le> b" "b \<le> 36"
  shows "unat (cutoff64 (int b)) = (2 ^ 64 - 1) div b + 1"
proof -
  have b: "unat (word_of_nat b :: 64 word) = b" using assms by (simp add: unat_of_nat take_bit_eq_mod)
  have "(2 ^ 64 - 1) div b \<le> (2 ^ 64 - 1) div 2" by (rule div_le_mono2) (use assms in simp_all)
  then have "unat ((- 1 :: 64 word) div word_of_nat b) + unat (1 :: 64 word) < 2 ^ LENGTH(64)"
    by (simp add: unat_div b unsigned_minus_1_eq_mask mask_eq_exp_minus_1)
  then have "unat ((- 1 :: 64 word) div word_of_nat b + 1) = unat ((- 1 :: 64 word) div word_of_nat b) + unat (1 :: 64 word)"
    by (rule iffD1 [OF unat_add_lem])
  then show ?thesis using assms by (simp add: cutoff64_def unat_div b unsigned_minus_1_eq_mask mask_eq_exp_minus_1)
qed

text \<open>The two tests of the loop find exactly the overflows.\<close>

lemma cutoff64_iff:
  assumes "2 \<le> b" "b \<le> 36"
  shows "n \<ge> cutoff64 (int b) \<longleftrightarrow> 2 ^ 64 \<le> unat n * b"
proof -
  have "cutoff64 (int b) \<le> n \<longleftrightarrow> (2 ^ 64 - 1) div b < unat n" by (simp add: word_le_nat_alt unat_cutoff64 [OF assms] Suc_le_eq)
  also have "\<dots> \<longleftrightarrow> 2 ^ 64 - 1 < unat n * b" using assms(1) by (intro div_less_iff_less_mult) simp
  finally show ?thesis by (simp add: less_eq_Suc_le)
qed

lemma word_add_wraps:
  fixes x :: "'a::len word"
  shows "x + y < x \<longleftrightarrow> 2 ^ LENGTH('a) \<le> unat x + unat y"
    "\<not> x + y < x \<Longrightarrow> unat (x + y) = unat x + unat y"
proof -
  have *: "x + y < x \<longleftrightarrow> \<not> unat x + unat y < 2 ^ LENGTH('a)"
  proof (cases "unat x + unat y < 2 ^ LENGTH('a)")
    case True
    then have "unat (x + y) = unat x + unat y" by (rule iffD1 [OF unat_add_lem])
    then show ?thesis using True by (simp add: word_less_nat_alt)
  next
    case False
    have "unat (x + y) = (unat x + unat y) mod 2 ^ LENGTH('a)" by (simp add: unat_word_ariths)
    also have "\<dots> = (unat x + unat y - 2 ^ LENGTH('a)) mod 2 ^ LENGTH('a)" using False by (intro le_mod_geq) simp
    also have "\<dots> = unat x + unat y - 2 ^ LENGTH('a)"
      using unat_less [of x] unat_less [of y] by (intro mod_less) linarith
    finally have "unat (x + y) = unat x + unat y - 2 ^ LENGTH('a)" .
    then show ?thesis unfolding word_less_nat_alt using False unat_less [of y] unat_less [of x] by linarith
  qed
  then show "x + y < x \<longleftrightarrow> 2 ^ LENGTH('a) \<le> unat x + unat y" by (simp add: not_less)
  show "\<not> x + y < x \<Longrightarrow> unat (x + y) = unat x + unat y" using * iffD1 [OF unat_add_lem, of x y] by blast
qed

lemma Btoui64_loop_value:
  assumes "2 \<le> b" "b \<le> 36"
  defines "ok \<equiv> takeWhile (digit_ok b)"
  shows "Btoui64_loop (int b) (cutoff64 (int b)) n s =
    (if 2 ^ 64 \<le> digits_value b (unat n) (ok s) then (- 1, Some ERANGE)
     else if list_all (digit_ok b) s then (word_of_nat (digits_value b (unat n) s), None)
     else (0, Some EINVAL))"
proof (induction s arbitrary: n)
  case Nil
  then show ?case using unat_less [of n] by (simp add: ok_def not_le)
next
  case (Cons d s)
  show ?case
  proof (cases "digit_ok b d")
    case False
    then show ?thesis using unat_less [of n]
      by (auto simp: ok_def digit_ok_def not_le uint_le_unat split: option.splits)
  next
    case True
    then obtain v where v: "digit_val d = Some v" "unat v < b" by (auto simp: digit_ok_def split: option.splits)
    then have uv: "\<not> uint v \<ge> int b" by (simp add: uint_le_unat)
    have vv: "unat (ucast v :: 64 word) = unat v" using unat_less [of v] by (simp add: unsigned_ucast_eq take_bit_eq_mod)
    let ?m = "unat n * b + unat v"
    have ds: "digits_value b (unat n) (ok (d # s)) = digits_value b ?m (ok s)" using True v(1) by (simp add: ok_def)
    have ge: "?m \<le> digits_value b ?m (ok s)" using assms(1) by (intro digits_value_ge) simp
    let ?l = "\<lambda>x. Btoui64_loop (int b) (cutoff64 (int b)) x s"
    let ?n = "n * word_of_nat b"
    have l: "Btoui64_loop (int b) (cutoff64 (int b)) n (d # s) =
      (if n \<ge> cutoff64 (int b) then (- 1, Some ERANGE)
       else if ?n + ucast v < ?n then (- 1, Some ERANGE) else ?l (?n + ucast v))"
      using v uv by (simp add: Let_def)
    show ?thesis
    proof (cases "2 ^ 64 \<le> unat n * b")
      case True
      then show ?thesis unfolding l ds cutoff64_iff [OF assms(1,2)] using ge by simp
    next
      case False
      have "unat (word_of_nat b :: 64 word) = b" using assms by (simp add: unat_of_nat take_bit_eq_mod)
      then have n: "unat ?n = unat n * b" using False unat_mult_lem [of n "word_of_nat b"] by simp
      have w: "?n + ucast v < ?n \<longleftrightarrow> 2 ^ 64 \<le> ?m" using word_add_wraps(1) [of ?n "ucast v"] by (simp add: n vv)
      show ?thesis
      proof (cases "2 ^ 64 \<le> ?m")
        case True
        then show ?thesis unfolding l ds cutoff64_iff [OF assms(1,2)] w using ge by simp
      next
        case m: False
        then have "unat (?n + ucast v) = ?m" using word_add_wraps(2) [of ?n "ucast v"] w n vv by simp
        then show ?thesis unfolding l ds cutoff64_iff [OF assms(1,2)] w using m False True Cons.IH [of "?n + ucast v"] v(1) by simp
      qed
    qed
  qed
qed

section \<open>The digits of a number\<close>

function digs :: "nat \<Rightarrow> nat \<Rightarrow> gostring" where
  "digs b u = (if u = 0 \<or> b < 2 then [] else digs b (u div b) @ [lowerdigits ! (u mod b)])"
  by auto
termination by (relation "measure snd") auto

declare digs.simps [simp del]

lemma digs_0 [simp]: "digs b 0 = []"
  by (simp add: digs.simps)

lemma digs_rec: "u \<noteq> 0 \<Longrightarrow> 2 \<le> b \<Longrightarrow> digs b u = digs b (u div b) @ [lowerdigits ! (u mod b)]"
  by (simp add: digs.simps [of b u])

lemma lowerdigits_val: "d < 36 \<Longrightarrow> digit_val (lowerdigits ! d) = Some (word_of_nat d)"
proof -
  have "list_all (\<lambda>d. digit_val (lowerdigits ! d) = Some (word_of_nat d)) [0..<36]" by code_simp
  then show "d < 36 \<Longrightarrow> ?thesis" by (simp add: list_all_iff)
qed

lemma lowerdigits_unat: "d < 36 \<Longrightarrow> unat (the (digit_val (lowerdigits ! d))) = d"
  by (simp add: lowerdigits_val unat_of_nat take_bit_eq_mod)

lemma digs_value:
  assumes "2 \<le> b" "b \<le> 36"
  shows "digits_value b 0 (digs b u) = u" "list_all (digit_ok b) (digs b u)"
proof -
  have "digits_value b 0 (digs b u) = u \<and> list_all (digit_ok b) (digs b u)"
    using assms
  proof (induction b u rule: digs.induct)
    case (1 b u)
    show ?case
    proof (cases "u = 0")
      case False
      have m: "u mod b < b" "u mod b < 36" using 1(2,3) mod_less_divisor [of b u] by linarith+
      then have "digit_ok b (lowerdigits ! (u mod b))"
        using lowerdigits_val [of "u mod b"] lowerdigits_unat [of "u mod b"] by (simp add: digit_ok_def)
      with False 1 m show ?thesis by (simp add: digs_rec lowerdigits_unat)
    qed simp
  qed
  then show "digits_value b 0 (digs b u) = u" "list_all (digit_ok b) (digs b u)" by blast+
qed

lemma takeWhile_all: "list_all P s \<Longrightarrow> takeWhile P s = s"
  by (simp add: list_all_iff takeWhile_eq_all_conv)

lemma Uitob64_loop_digs:
  assumes "2 \<le> b" "b \<le> 36" "j \<le> length buf" "unat u < b ^ j"
  shows "length (digs b (unat u)) \<le> j \<and> Uitob64_loop (word_of_nat b) u buf (int j) =
    Some (take (j - length (digs b (unat u))) buf @ digs b (unat u) @ drop j buf, int (j - length (digs b (unat u))))"
  using assms(3,4)
proof (induction j arbitrary: u buf)
  case 0
  then have "u = 0" by (simp add: unat_eq_zero)
  then show ?case by (simp add: Uitob64_loop.simps)
next
  case (Suc j)
  show ?case
  proof (cases "u = 0")
    case True
    then show ?thesis by (simp add: Uitob64_loop.simps)
  next
    case False
    let ?u = "u div word_of_nat b"
    have b: "unat (word_of_nat b :: 64 word) = b" using assms(2) by (simp add: unat_of_nat take_bit_eq_mod)
    have u: "unat ?u = unat u div b" "uint (u mod word_of_nat b) = int (unat u mod b)"
      using of_nat_unat [of "u mod word_of_nat b", where ?'a = int] by (simp_all add: unat_div unat_mod b)
    have m: "unat u mod b < 36" using assms(1,2) mod_less_divisor [of b "unat u"] by linarith
    let ?c = "lowerdigits ! (unat u mod b)"
    have "length lowerdigits = 36" by code_simp
    then have i: "go_index lowerdigits (uint (u mod word_of_nat b)) = Some ?c" unfolding u(2) using m by simp
    have lt: "unat ?u < b ^ j" using Suc.prems(2) by (simp add: u(1) less_mult_imp_div_less mult.commute)
    have buf: "j < length buf" "j \<le> length (buf[j := ?c])" using Suc.prems(1) by simp_all
    have d: "digs b (unat u) = digs b (unat ?u) @ [?c]" using False assms(1) by (simp add: digs_rec u(1) unat_eq_zero)
    note IH = Suc.IH [OF buf(2) lt]
    have "Uitob64_loop (word_of_nat b) u buf (int (Suc j)) = Uitob64_loop (word_of_nat b) ?u (buf[j := ?c]) (int j)"
      using False buf(1) i by (subst Uitob64_loop.simps) (simp add: word_gt_0)
    moreover have "drop j (buf[j := ?c]) = ?c # drop (Suc j) buf" using buf(1) by (simp add: drop_update_swap Cons_nth_drop_Suc [symmetric])
    ultimately show ?thesis using IH unfolding d by simp
  qed
qed

lemma Uitob64_digs:
  assumes "2 \<le> b" "b \<le> 36"
  shows "Uitob64 u (int b) = Some (if u = 0 then bs ''0'' else digs b (unat u))"
proof (cases "u = 0")
  case False
  have "(2 :: nat) ^ 64 \<le> b ^ 64" by (rule power_mono) (use assms in simp_all)
  then have "unat u < b ^ 64" using unat_less [of u] by simp
  from Uitob64_loop_digs [OF assms, of 64 "replicate 64 0", OF _ this]
  have l: "length (digs b (unat u)) \<le> 64" "Uitob64_loop (word_of_nat b) u (replicate 64 0) 64 =
    Some (replicate (64 - length (digs b (unat u))) 0 @ digs b (unat u), int (64 - length (digs b (unat u))))" by simp_all
  moreover have "go_slice (replicate (64 - length (digs b (unat u))) 0 @ digs b (unat u)) (int (64 - length (digs b (unat u)))) (int 64) =
    Some (digs b (unat u))" using l(1) by (subst go_slice_nat) (simp add: slice_def)
  ultimately show ?thesis using False assms by (simp add: Uitob64_def)
qed (use assms in \<open>simp add: Uitob64_def\<close>)

lemma Btoui64_value:
  assumes "2 \<le> b" "b \<le> 36" "s \<noteq> []"
  shows "Btoui64 s (int b) = Some (
    if 2 ^ 64 \<le> digits_value b 0 (takeWhile (digit_ok b) s) then (- 1, Some (NumError s ERANGE))
    else if list_all (digit_ok b) s then (word_of_nat (digits_value b 0 s), None)
    else (0, Some (NumError s EINVAL)))"
  using assms by (simp add: Btoui64_def Btoui64_digits_def Btoui64_loop_value numError_def Suc_le_eq)

lemma Btoui64_Uitob64:
  assumes "2 \<le> b" "b \<le> 36"
  shows "\<exists>s. Uitob64 u (int b) = Some s \<and> Btoui64 s (int b) = Some (u, None) \<and> s \<noteq> [] \<and> list_all (digit_ok b) s"
proof (cases "u = 0")
  case True
  have "digit_val 0x30 = Some 0" by code_simp
  then show ?thesis using assms True Btoui64_value [OF assms, of "bs ''0''"]
    by (simp add: Uitob64_digs digit_ok_def)
next
  case False
  have "digs b (unat u) \<noteq> []" using False assms digs_rec [of "unat u" b] by (simp add: unat_eq_zero)
  then show ?thesis using assms False Btoui64_value [OF assms, of "digs b (unat u)"] digs_value [OF assms, of "unat u"] unat_less [of u]
    by (simp add: Uitob64_digs takeWhile_all)
qed

section \<open>Signs and ranges\<close>

lemma unat_word64: "n < 2 ^ 64 \<Longrightarrow> unat (word_of_nat n :: 64 word) = n"
  by (simp add: unat_of_nat take_bit_eq_mod)

lemma sign_no_digit: "digit_ok b 0x2B = False" "digit_ok b 0x2D = False"
proof -
  have "digit_val 0x2B = None" "digit_val 0x2D = None" by code_simp+
  then show "digit_ok b 0x2B = False" "digit_ok b 0x2D = False" by (simp_all add: digit_ok_def)
qed

lemma push_bit_63: "push_bit 63 (1 :: 64 word) = 2 ^ 63"
  by (simp add: push_bit_eq_mult)

lemma int64_uint_neg:
  assumes "unat un \<le> 2 ^ 63"
  shows "int64 (- int64 (uint (un :: 64 word))) = - int (unat un)"
proof -
  define k where "k = unat un"
  have u: "uint un = int k" by (simp add: k_def)
  show ?thesis
  proof (cases "k = 2 ^ 63")
    case True
    then show ?thesis unfolding u k_def [symmetric] by (simp add: int64_mod)
  next
    case False
    then have "is_int64 (int k)" "is_int64 (- int k)" using assms by (simp_all add: is_int64_def k_def [symmetric])
    then show ?thesis unfolding u k_def [symmetric] by simp
  qed
qed

definition in_int64 :: "int \<Rightarrow> int" where
  "in_int64 v = max (- (2 ^ 63)) (min (2 ^ 63 - 1) v)"

definition in_int32 :: "int \<Rightarrow> int" where
  "in_int32 v = max (- (2 ^ 31)) (min (2 ^ 31 - 1) v)"

definition parsed :: "nat \<Rightarrow> gostring \<Rightarrow> gostring \<Rightarrow> 64 word \<times> NumError option" where
  "parsed b s0 s =
     (if 2 ^ 64 \<le> digits_value b 0 (takeWhile (digit_ok b) s) then (- 1, Some (NumError s0 ERANGE))
      else if list_all (digit_ok b) s then (word_of_nat (digits_value b 0 s), None)
      else (0, Some (NumError s0 EINVAL)))"

text \<open>The value of digits after an optional sign.\<close>

definition signed_value :: "nat \<Rightarrow> gostring \<Rightarrow> gostring \<Rightarrow> int" where
  "signed_value b sg ds = (if sg = bs ''-'' then - int (digits_value b 0 ds) else int (digits_value b 0 ds))"

lemma Btoi64_value:
  assumes "2 \<le> b" "b \<le> 36" "ds \<noteq> []" "list_all (digit_ok b) ds" "sg \<in> {[], bs ''+'', bs ''-''}"
  defines "v \<equiv> signed_value b sg ds"
  shows "Btoi64 (sg @ ds) (int b) =
    Some (in_int64 v, if is_int64 v then None else Some (NumError (sg @ ds) ERANGE))"
proof -
  let ?V = "digits_value b 0 ds"
  define un :: "64 word" where "un = (if 2 ^ 64 \<le> ?V then - 1 else word_of_nat ?V)"
  obtain err where B: "Btoui64 ds (int b) = Some (un, err)" "\<not> not_range err"
    using Btoui64_value [OF assms(1-3)] assms(4) by (cases "2 ^ 64 \<le> ?V") (auto simp: takeWhile_all un_def)
  have un: "unat un = min ?V (2 ^ 64 - 1)"
    by (auto simp: un_def unsigned_minus_1_eq_mask mask_eq_exp_minus_1 unat_of_nat take_bit_eq_mod)
  have ge: "push_bit 63 1 \<le> un \<longleftrightarrow> 2 ^ 63 \<le> ?V" "push_bit 63 1 < un \<longleftrightarrow> 2 ^ 63 < ?V"
    unfolding word_le_nat_alt word_less_nat_alt un push_bit_63 by auto
  have hd: "ds ! 0 \<noteq> 0x2B" "ds ! 0 \<noteq> 0x2D" using assms(3,4) sign_no_digit by (cases ds; auto)+
  let ?neg = "sg = bs ''-''"
  have "Btoi64 (sg @ ds) (int b) = (if \<not> ?neg \<and> un \<ge> push_bit 63 1 then Some (2 ^ 63 - 1, Some (NumError (sg @ ds) ERANGE))
      else if ?neg \<and> un > push_bit 63 1 then Some (- (2 ^ 63), Some (NumError (sg @ ds) ERANGE))
      else let n = int64 (uint un) in Some (if ?neg then int64 (- n) else n, None))"
    using assms(3,5) hd B by (auto simp: Btoi64_def nth_append Let_def)
  also have "\<dots> = Some (in_int64 v, if is_int64 v then None else Some (NumError (sg @ ds) ERANGE))"
  proof (cases ?neg)
    case True
    then show ?thesis unfolding ge using un int64_uint_neg [of un]
      by (auto simp: v_def signed_value_def in_int64_def is_int64_def Let_def min_def max_def)
  next
    case False
    have "int64 (uint un) = int ?V" if "?V < 2 ^ 63"
      using that un of_nat_unat [of un, where ?'a = int] by (simp add: is_int64_def)
    with False show ?thesis unfolding ge
      by (auto simp: v_def signed_value_def in_int64_def is_int64_def Let_def min_def max_def)
  qed
  finally show ?thesis .
qed

lemma IntSize_32: "IntSize = Some 32"
proof -
  have "int32 (2 ^ 8) \<noteq> 0" "int32 (2 ^ 16) \<noteq> 0" "int32 (2 ^ 32) = 0" by code_simp+
  then show ?thesis by (simp add: IntSize_def computeIntsize_loop.simps)
qed

lemma Atoi_value:
  assumes "ds \<noteq> []" "list_all (digit_ok 10) ds" "sg \<in> {[], bs ''+'', bs ''-''}"
  defines "v \<equiv> signed_value 10 sg ds"
  shows "Atoi (sg @ ds) = Some (in_int32 v, if is_int32 v then None else Some (NumError (sg @ ds) ERANGE))"
proof -
  have "Atoi64 (sg @ ds) = Some (in_int64 v, if is_int64 v then None else Some (NumError (sg @ ds) ERANGE))"
    using Btoi64_value [of 10 ds sg] assms by (simp add: Atoi64_def v_def)
  then obtain e where e: "Atoi64 (sg @ ds) = Some (in_int64 v, e)" "\<not> not_range e" by (cases "is_int64 v") auto
  have i: "is_int32 v \<Longrightarrow> in_int64 v = v \<and> in_int32 v = v" by (auto simp: is_int32_def in_int64_def in_int32_def)
  have n: "int32 (in_int64 v) \<noteq> in_int64 v" if "\<not> is_int32 v"
  proof
    assume "int32 (in_int64 v) = in_int64 v"
    then have "is_int32 (in_int64 v)" using is_int32_int32 [of "in_int64 v"] by simp
    with that show False by (auto simp: is_int32_def in_int64_def min_def max_def split: if_splits)
  qed
  show ?thesis
  proof (cases "is_int32 v")
    case True
    then show ?thesis using e i by (simp add: Atoi_def)
  next
    case False
    then show ?thesis using e n [OF False] by (auto simp: Atoi_def IntSize_32 Let_def is_int32_def in_int32_def in_int64_def)
  qed
qed

lemma Itob64_digits:
  assumes "2 \<le> b" "b \<le> 36" "is_int64 i"
  shows "\<exists>sg ds. Itob64 i (int b) = Some (sg @ ds) \<and> sg \<in> {[], bs ''-''} \<and> ds \<noteq> [] \<and> list_all (digit_ok b) ds \<and>
    signed_value b sg ds = i"
proof -
  define u :: "64 word" where "u = (if i < 0 then - word_of_int i else word_of_int i)"
  have u: "unat u = nat \<bar>i\<bar>"
  proof -
    have "u = word_of_nat (nat \<bar>i\<bar>)" by (simp add: u_def)
    moreover have "nat \<bar>i\<bar> < 2 ^ 64" using assms(3) by (auto simp: is_int64_def)
    ultimately show ?thesis by (simp only: unat_word64)
  qed
  from Btoui64_Uitob64 [OF assms(1,2), of u] obtain ds where ds: "Uitob64 u (int b) = Some ds" "Btoui64 ds (int b) = Some (u, None)"
    "ds \<noteq> []" "list_all (digit_ok b) ds" by blast
  have "digits_value b 0 ds = unat u"
    using ds Btoui64_value [OF assms(1,2) ds(3)] by (auto simp: takeWhile_all unat_of_nat take_bit_eq_mod split: if_splits)
  then have v: "int (digits_value b 0 ds) = \<bar>i\<bar>" by (simp add: u)
  show ?thesis
  proof (cases "i = 0")
    case True
    moreover have "Uitob64 0 (int b) = Some (bs ''0'')" using assms(1,2) by (simp add: Uitob64_def)
    ultimately have "Itob64 i (int b) = Some ([] @ ds)" using ds(1) by (simp add: Itob64_def u_def)
    then show ?thesis using ds v True by (intro exI [of _ "[]"] exI [of _ ds]) (simp add: signed_value_def)
  next
    case False
    then have "Itob64 i (int b) = Some ((if i < 0 then bs ''-'' else []) @ ds)" using ds(1) by (cases "i < 0") (simp_all add: Itob64_def u_def)
    then show ?thesis using ds v by (intro exI [of _ "if i < 0 then bs ''-'' else []"] exI [of _ ds]) (simp add: signed_value_def)
  qed
qed

text \<open>C29: Printing then parsing. For every \<open>int64\<close> and every base from 2 to 36, \<open>Itob64\<close> returns (the 64-byte
  array is large enough) and \<open>Btoi64\<close> in the same base returns the number without an error, for the least \<open>int64\<close>
  too; \<open>Atoi\<close> inverts \<open>Itoa\<close> on every \<open>int\<close>, and \<open>Btoui64\<close> inverts \<open>Uitob64\<close> on every \<open>uint64\<close>.\<close>

theorem Itob64_Btoi64:
  assumes "2 \<le> b" "b \<le> 36" "is_int64 i"
  shows "(\<exists>s. Itob64 i (int b) = Some s \<and> Btoi64 s (int b) = Some (i, None)) \<and>
    (is_int32 i \<longrightarrow> (\<exists>s. Itoa i = Some s \<and> Atoi s = Some (i, None))) \<and>
    (\<exists>s. Uitob64 u (int b) = Some s \<and> Btoui64 s (int b) = Some (u, None))"
proof (intro conjI impI)
  from Itob64_digits [OF assms] obtain sg ds where d: "Itob64 i (int b) = Some (sg @ ds)" "sg \<in> {[], bs ''-''}" "ds \<noteq> []"
    "list_all (digit_ok b) ds" "signed_value b sg ds = i" by blast
  then show "\<exists>s. Itob64 i (int b) = Some s \<and> Btoi64 s (int b) = Some (i, None)"
    using Btoi64_value [OF assms(1,2) d(3,4), of sg] assms(3) by (auto simp: is_int64_def in_int64_def)
  show "\<exists>s. Uitob64 u (int b) = Some s \<and> Btoui64 s (int b) = Some (u, None)" using Btoui64_Uitob64 [OF assms(1,2), of u] by blast
next
  assume i: "is_int32 i"
  from Itob64_digits [of 10 i] assms(3) obtain sg ds where d: "Itoa i = Some (sg @ ds)" "sg \<in> {[], bs ''-''}" "ds \<noteq> []"
    "list_all (digit_ok 10) ds" "signed_value 10 sg ds = i" by (auto simp: Itoa_def)
  then show "\<exists>s. Itoa i = Some s \<and> Atoi s = Some (i, None)"
    using Atoi_value [OF d(3,4), of sg] i by (auto simp: is_int32_def in_int32_def)
qed

theorem Itob64_Btoi64_witness:
  "\<exists>s. Itob64 (- (2 ^ 63)) (int 36) = Some s \<and> Btoi64 s (int 36) = Some (- (2 ^ 63), None)"
  using Itob64_Btoi64 [of 36 "- (2 ^ 63)" 0] by (simp add: is_int64_def)

text \<open>C30: Parsing saturates. Digits after an optional sign, of any length, are converted to their value if it fits
  the result type; otherwise \<open>Btoi64\<close> and \<open>Atoi\<close> return the nearest value of the type with \<open>os.ERANGE\<close>.\<close>

theorem Atoi_saturates:
  assumes "2 \<le> b" "b \<le> 36" "ds \<noteq> []" "list_all (digit_ok b) ds" "sg \<in> {[], bs ''+'', bs ''-''}"
  defines "v \<equiv> signed_value b sg ds"
  shows "Btoi64 (sg @ ds) (int b) = Some (in_int64 v, if is_int64 v then None else Some (NumError (sg @ ds) ERANGE)) \<and>
    (b = 10 \<longrightarrow> Atoi (sg @ ds) = Some (in_int32 v, if is_int32 v then None else Some (NumError (sg @ ds) ERANGE)))"
  using Btoi64_value [OF assms(1-5)] Atoi_value [of ds sg] assms(3-5) by (auto simp: v_def)

theorem Atoi_saturates_witness:
  "Atoi (bs ''-2147483649'') = Some (- 2147483648, Some (NumError (bs ''-2147483649'') ERANGE))"
proof -
  have d: "list_all (digit_ok 10) (bs ''2147483649'')" by code_simp
  have "digit_val 49 = Some 1" "digit_val 50 = Some 2" "digit_val 51 = Some 3" "digit_val 52 = Some 4" "digit_val 54 = Some 6"
    "digit_val 55 = Some 7" "digit_val 56 = Some 8" "digit_val 57 = Some 9" by code_simp+
  then have "signed_value 10 (bs ''-'') (bs ''2147483649'') = - 2147483649" by (simp add: signed_value_def)
  then show ?thesis using Atoi_saturates [of 10 "bs ''2147483649''" "bs ''-''"] d by (simp add: in_int32_def is_int32_def)
qed

text \<open>C31: The errors of \<open>Btoui64\<close>. On every string and every base the function returns: an empty string and a digit
  outside the base give \<open>os.EINVAL\<close> with 0, unless the digits before it already amount to \<open>2 ^ 64\<close> or more, which gives
  \<open>os.ERANGE\<close> with the largest value; a base other than 0 and 2 to 36 is refused, and otherwise the result is the value.
  With base 0 the prefix selects the base. The comment of the function promises \<open>os.EINVAL\<close> for every string with an
  invalid digit, but \<open>99999999999999999999x\<close> gives \<open>os.ERANGE\<close>.\<close>

theorem Btoui64_errors:
  "Btoui64 s base = Some (
     if s = [] then (0, Some (NumError s EINVAL))
     else if base = 0 then
       if take 2 s = bs ''0x'' \<or> take 2 s = bs ''0X'' then
         if length s = 2 then (0, Some (NumError s EINVAL)) else parsed 16 s (drop 2 s)
       else if hd s = 0x30 then parsed 8 s s else parsed 10 s s
     else if base < 2 \<or> 36 < base then (0, Some (NumError s (ErrorString (bs ''invalid base '' @ the (Itoa base)))))
     else parsed (nat base) s s) \<and>
   Btoui64 (bs ''99999999999999999999x'') 10 =
     Some (2 ^ 64 - 1, Some (NumError (bs ''99999999999999999999x'') ERANGE))"
  (is "?l = ?r \<and> ?e")
proof -
  have "?l = ?r"
  proof (cases s)
    case (Cons c t)
    have p: "numError s (Btoui64_digits u (int b)) = parsed b s u" if "2 \<le> b" "b \<le> 36" for b u
      using that by (simp add: numError_def Btoui64_digits_def Btoui64_loop_value parsed_def)
    have p': "numError s (Btoui64_digits u 16) = parsed 16 s u" "numError s (Btoui64_digits u 8) = parsed 8 s u"
      "numError s (Btoui64_digits u 10) = parsed 10 s u" for u using p [of 16] p [of 8] p [of 10] by simp_all
    have pre: "(s ! 0 = 0x30 \<and> length s > 1 \<and> (s ! 1 = 0x78 \<or> s ! 1 = 0x58)) \<longleftrightarrow> take 2 s = bs ''0x'' \<or> take 2 s = bs ''0X''"
      "hd s = s ! 0" using Cons by (cases t; auto) (simp add: Cons)
    have "\<exists>a. Itoa base = Some a"
      using Uitob64_digs [of 10] by (cases "base = 0"; cases "base < 0") (simp_all add: Itoa_def Itob64_def)
    then obtain a where a: "Itoa base = Some a" by blast
    consider "base = 0" | "base \<noteq> 0" "base < 2 \<or> 36 < base" | "2 \<le> base" "base \<le> 36" by linarith
    then show ?thesis
    proof cases
      case 1
      have d: "length (drop 2 s) < 1 \<longleftrightarrow> length s = 2" if "take 2 s = bs ''0x'' \<or> take 2 s = bs ''0X''"
        using that Cons by (cases t) auto
      have f: "\<not> length s < 1" "s \<noteq> []" "\<not> (2 \<le> base \<and> base \<le> 36)" using Cons 1 by simp_all
      show ?thesis
      proof (cases "take 2 s = bs ''0x'' \<or> take 2 s = bs ''0X''")
        case True
        then show ?thesis unfolding Btoui64_def pre p' d [OF True] using 1 f by (simp only: if_True if_False) simp
      next
        case False
        then show ?thesis unfolding Btoui64_def pre p' using 1 f by (simp only: if_True if_False) simp
      qed
    next
      case 2
      then show ?thesis using Cons a by (auto simp: Btoui64_def)
    next
      case 3
      then show ?thesis using Cons p [of "nat base" s] by (simp add: Btoui64_def)
    qed
  qed (simp add: Btoui64_def)
  moreover have ?e by code_simp
  ultimately show ?thesis ..
qed

end
