(* ===== verification/Strconv_Quote.thy ===== *)
theory Strconv_Quote
  imports Strconv Bytes_Buffer
begin

text \<open>
  Quoting of package strconv (\<open>quote.go\<close>) over the \<open>bytes.Buffer\<close> it writes to, and the conversion \<open>string(c)\<close> of
  the run-time (\<open>runetochar\<close> of \<open>runtime/rune.c\<close>). A shift by 4 wraps at 32 bits. \<open>Unquote\<close> inverts \<open>Quote\<close> on the strings
  without encodings above \<open>MaxRune\<close>.
\<close>

definition runetochar :: "int \<Rightarrow> gostring" where
  "runetochar rune = (let c = rune mod 2 ^ 32 in
     if c \<le> 0x7F then [go_byte c]
     else if c \<le> 0x7FF then [go_byte (0xC0 OR drop_bit 6 c), go_byte (0x80 OR (c AND 0x3F))]
     else let c = (if c > 0x10FFFF then 0xFFFD else c) in
       if c \<le> 0xFFFF then
         [go_byte (0xE0 OR drop_bit 12 c), go_byte (0x80 OR (drop_bit 6 c AND 0x3F)), go_byte (0x80 OR (c AND 0x3F))]
       else
         [go_byte (0xF0 OR drop_bit 18 c), go_byte (0x80 OR (drop_bit 12 c AND 0x3F)),
          go_byte (0x80 OR (drop_bit 6 c AND 0x3F)), go_byte (0x80 OR (c AND 0x3F))])"

definition intstring :: "int \<Rightarrow> gostring" where
  "intstring v = runetochar v"

section \<open>Quote\<close>

definition lowerhex :: gostring where
  "lowerhex = bs ''0123456789abcdef''"

text \<open>The loop that writes \<open>k\<close> hexadecimal digits.\<close>

fun write_hex :: "Buffer \<Rightarrow> int \<Rightarrow> nat \<Rightarrow> Buffer option" where
  "write_hex b r 0 = Some b"
| "write_hex b r (Suc k) = do {
     c \<leftarrow> go_index lowerhex (drop_bit (4 * k) r AND 0xF);
     b \<leftarrow> Buffer_WriteByte b c;
     write_hex b r k
   }"

definition write_string :: "Buffer \<Rightarrow> string \<Rightarrow> Buffer option" where
  "write_string b s = do { (b, _) \<leftarrow> Buffer_WriteString b (bs s); Some b }"

definition quote_EscX :: "Buffer \<Rightarrow> byte \<Rightarrow> Buffer option" where
  "quote_EscX buf c = do {
     buf \<leftarrow> write_string buf [CHR 0x5C, CHR ''x''];
     h \<leftarrow> go_index lowerhex (uint (drop_bit 4 c));
     buf \<leftarrow> Buffer_WriteByte buf h;
     l \<leftarrow> go_index lowerhex (uint (c AND 0xF));
     Buffer_WriteByte buf l
   }"

text \<open>One iteration for the string \<open>s\<close> that is left: the buffer, and the string before the next iteration slices
  off one byte.\<close>

definition quote_step :: "Buffer \<Rightarrow> gostring \<Rightarrow> (Buffer \<times> gostring) option" where
  "quote_step buf s = (let c = s ! 0; esc = (\<lambda>l. do { buf \<leftarrow> write_string buf [CHR 0x5C, l]; Some (buf, s) }) in
     if c = 0x22 then esc (CHR 0x22)
     else if c = 0x5C then esc (CHR 0x5C)
     else if 0x20 \<le> c \<and> c \<le> 0x7E then do { (buf, _) \<leftarrow> Buffer_WriteString buf (intstring (uint c)); Some (buf, s) }
     else if c = 7 then esc (CHR ''a'')
     else if c = 8 then esc (CHR ''b'')
     else if c = 12 then esc (CHR ''f'')
     else if c = 10 then esc (CHR ''n'')
     else if c = 13 then esc (CHR ''r'')
     else if c = 9 then esc (CHR ''t'')
     else if c = 11 then esc (CHR ''v'')
     else if c \<ge> RuneSelf \<and> FullRuneInString s then
       let (r, size) = DecodeRuneInString s in
       if r = RuneError \<and> size = 1 then do { buf \<leftarrow> quote_EscX buf c; Some (buf, s) }
       else do {
         s \<leftarrow> go_slice s (int size - 1) (int (length s));
         buf \<leftarrow> (if r < 0x10000 then do { buf \<leftarrow> write_string buf [CHR 0x5C, CHR ''u'']; write_hex buf r 4 }
                 else do { buf \<leftarrow> write_string buf [CHR 0x5C, CHR ''U'']; write_hex buf r 8 });
         Some (buf, s)
       }
     else do { buf \<leftarrow> quote_EscX buf c; Some (buf, s) })"

partial_function (option) Quote_loop :: "Buffer \<Rightarrow> gostring \<Rightarrow> Buffer option" where
  "Quote_loop buf s =
     (if length s > 0 then do {
        res \<leftarrow> quote_step buf s;
        s' \<leftarrow> go_slice (snd res) 1 (int (length (snd res)));
        Quote_loop (fst res) s'
      } else Some buf)"

definition Quote :: "gostring \<Rightarrow> gostring option" where
  "Quote s = do {
     buf \<leftarrow> Buffer_WriteByte zero_Buffer 0x22;
     buf \<leftarrow> Quote_loop buf s;
     buf \<leftarrow> Buffer_WriteByte buf 0x22;
     Buffer_String (Some buf)
   }"

definition CanBackquote :: "gostring \<Rightarrow> bool" where
  "CanBackquote s = (for_find (\<lambda>i. (s ! i < 0x20 \<and> s ! i \<noteq> 9) \<or> s ! i = 0x60) 0 (length s) < 0)"

section \<open>Unquote\<close>

definition unhex :: "byte \<Rightarrow> int option" where
  "unhex b = (let c = uint b in
     if 0x30 \<le> c \<and> c \<le> 0x39 then Some (c - 0x30)
     else if 0x61 \<le> c \<and> c \<le> 0x66 then Some (c - 0x61 + 10)
     else if 0x41 \<le> c \<and> c \<le> 0x46 then Some (c - 0x41 + 10)
     else None)"

text \<open>The loops over the digits of an escape, on the slice of the digits; \<^term>\<open>None\<close> if one is not a digit.\<close>

fun unhex_loop :: "int \<Rightarrow> gostring \<Rightarrow> int option" where
  "unhex_loop v [] = Some v"
| "unhex_loop v (c # s) = (case unhex c of None \<Rightarrow> None | Some x \<Rightarrow> unhex_loop (int32 (push_bit 4 v) OR x) s)"

fun octal_loop :: "int \<Rightarrow> gostring \<Rightarrow> int option" where
  "octal_loop v [] = Some v"
| "octal_loop v (c # s) = (let x = uint c - 0x30 in if x < 0 \<or> x > 7 then None else octal_loop (push_bit 3 v OR x) s)"

type_synonym unquoted = "int \<times> bool \<times> gostring \<times> os_Error option"

definition escape_hex :: "byte \<Rightarrow> gostring \<Rightarrow> unquoted" where
  "escape_hex c s = (let n = (if c = 0x78 then 2 else if c = 0x75 then 4 else 8) in
     if length s < n then (0, False, [], Some EINVAL)
     else case unhex_loop 0 (take n s) of
       None \<Rightarrow> (0, False, [], Some EINVAL)
     | Some v \<Rightarrow>
         if c = 0x78 then (v, False, drop n s, None)
         else if v > MaxRune then (0, False, [], Some EINVAL)
         else (v, True, drop n s, None))"

definition escape_octal :: "byte \<Rightarrow> gostring \<Rightarrow> unquoted" where
  "escape_octal c s =
     (if length s < 2 then (0, False, [], Some EINVAL)
      else case octal_loop (uint c - 0x30) (take 2 s) of
        None \<Rightarrow> (0, False, [], None)
      | Some v \<Rightarrow> if v > 255 then (0, False, [], Some EINVAL) else (v, False, drop 2 s, None))"

definition UnquoteChar :: "gostring \<Rightarrow> byte \<Rightarrow> unquoted option" where
  "UnquoteChar s quote = do {
     c \<leftarrow> go_index s 0;
     (if c = quote \<and> (quote = 0x27 \<or> quote = 0x22) then Some (0, False, [], Some EINVAL)
      else if c \<ge> RuneSelf then
        let (r, size) = DecodeRuneInString s in Some (r, True, drop size s, None)
      else if c \<noteq> 0x5C then Some (uint c, False, drop 1 s, None)
      else if length s \<le> 1 then Some (0, False, [], Some EINVAL)
      else let c = s ! 1; s = drop 2 s in Some (
        if c = 0x61 then (7, False, s, None)
        else if c = 0x62 then (8, False, s, None)
        else if c = 0x66 then (12, False, s, None)
        else if c = 0x6E then (10, False, s, None)
        else if c = 0x72 then (13, False, s, None)
        else if c = 0x74 then (9, False, s, None)
        else if c = 0x76 then (11, False, s, None)
        else if c = 0x78 \<or> c = 0x75 \<or> c = 0x55 then escape_hex c s
        else if 0x30 \<le> c \<and> c \<le> 0x37 then escape_octal c s
        else if c = 0x5C then (0x5C, False, s, None)
        else if c = 0x27 \<or> c = 0x22 then
          (if c \<noteq> quote then (0, False, [], Some EINVAL) else (uint c, False, s, None))
        else (0, False, [], Some EINVAL)))
   }"

definition unquote_write :: "Buffer \<Rightarrow> int \<Rightarrow> bool \<Rightarrow> Buffer option" where
  "unquote_write buf c multibyte =
     (if c < uint RuneSelf \<or> \<not> multibyte then Buffer_WriteByte buf (go_byte c)
      else do { (buf, _) \<leftarrow> Buffer_WriteString buf (intstring c); Some buf })"

partial_function (option) Unquote_loop :: "byte \<Rightarrow> Buffer \<Rightarrow> gostring \<Rightarrow> (gostring \<times> os_Error option) option" where
  "Unquote_loop quote buf s =
     (if length s > 0 then do {
        res \<leftarrow> UnquoteChar s quote;
        (if snd (snd (snd res)) \<noteq> None then Some ([], snd (snd (snd res)))
         else do {
           let s' = fst (snd (snd res));
           buf \<leftarrow> unquote_write buf (fst res) (fst (snd res));
           (if quote = 0x27 \<and> length s' \<noteq> 0 then Some ([], Some EINVAL)
            else Unquote_loop quote buf s')
         })
      } else do { t \<leftarrow> Buffer_String (Some buf); Some (t, None) })"

definition Unquote :: "gostring \<Rightarrow> (gostring \<times> os_Error option) option" where
  "Unquote s = (let n = length s in
     if n < 2 then Some ([], Some EINVAL)
     else let quote = s ! 0 in
       if quote \<noteq> s ! (n - 1) then Some ([], Some EINVAL)
       else let s = take (n - 2) (drop 1 s) in
         if quote = 0x60 then
           (if Contains s (bs ''`'') then Some ([], Some EINVAL) else Some (s, None))
         else if quote \<noteq> 0x22 \<and> quote \<noteq> 0x27 then Some ([], Some EINVAL)
         else Unquote_loop quote zero_Buffer s)"

declare Quote_loop.simps [code] Unquote_loop.simps [code]

section \<open>Writes to the buffer\<close>

text \<open>A computation that appends \<open>p\<close> to a buffer in a state that \<open>T\<close> bounds.\<close>

definition appends :: "nat \<Rightarrow> Buffer \<Rightarrow> gostring \<Rightarrow> Buffer option \<Rightarrow> bool" where
  "appends T b p m \<longleftrightarrow> (\<exists>b'. m = Some b' \<and> buf_ok (T + length p) b' \<and> contents b' = contents b @ p)"

definition room :: "nat \<Rightarrow> bool" where
  "room T \<longleftrightarrow> 6 * T + 200 < 2 ^ 31"

lemma room_mono: "room T \<Longrightarrow> T' \<le> T \<Longrightarrow> room T'"
  by (simp add: room_def)

lemma appends_bind:
  assumes "appends T b p m" "\<And>b'. buf_ok (T + length p) b' \<Longrightarrow> appends (T + length p) b' q (f b')"
  shows "appends T b (p @ q) (m \<bind> f)"
  using assms unfolding appends_def by (fastforce simp: add.assoc)

lemma appends_WriteByte: "buf_ok T b \<Longrightarrow> room (T + 1) \<Longrightarrow> appends T b [c] (Buffer_WriteByte b c)"
  using WriteByte_spec [of T b c] by (auto simp: appends_def room_def)

lemma appends_WriteString:
  "buf_ok T b \<Longrightarrow> room (T + length p) \<Longrightarrow> appends T b p (do { (b, _) \<leftarrow> Buffer_WriteString b p; Some b })"
  using Write_spec [of T b p] by (auto simp: appends_def room_def)

lemma appends_write_string: "buf_ok T b \<Longrightarrow> room (T + length s) \<Longrightarrow> appends T b (bs s) (write_string b s)"
  using appends_WriteString [of T b "bs s"] by (simp add: write_string_def)

text \<open>The \<open>k\<close> lowest hexadecimal digits of a number.\<close>

fun hexs :: "int \<Rightarrow> nat \<Rightarrow> gostring" where
  "hexs r 0 = []"
| "hexs r (Suc k) = lowerhex ! nat (r div 16 ^ k mod 16) # hexs r k"

lemma length_hexs [simp]: "length (hexs r k) = k"
  by (induction k) simp_all

lemma lowerhex_index: "0 \<le> i \<Longrightarrow> i < 16 \<Longrightarrow> go_index lowerhex i = Some (lowerhex ! nat i)"
  by (simp add: go_index_def lowerhex_def)

lemma hex_digit: "drop_bit (4 * k) r AND 0xF = r div 16 ^ k mod (16 :: int)"
  using take_bit_eq_mask [of 4 "drop_bit (4 * k) r"]
  by (simp add: take_bit_eq_mod mask_eq_exp_minus_1 drop_bit_eq_div power_mult)

lemma appends_write_hex: "buf_ok T b \<Longrightarrow> room (T + k) \<Longrightarrow> appends T b (hexs r k) (write_hex b r k)"
proof (induction k arbitrary: T b)
  case 0
  then show ?case by (simp add: appends_def)
next
  case (Suc k)
  let ?c = "lowerhex ! nat (r div 16 ^ k mod 16)"
  have "appends T b ([?c] @ hexs r k) (Buffer_WriteByte b ?c \<bind> (\<lambda>b. write_hex b r k))"
    using Suc by (intro appends_bind appends_WriteByte) (auto intro: room_mono)
  then show ?case by (simp add: hex_digit lowerhex_index)
qed

lemma appends_EscX: "buf_ok T b \<Longrightarrow> room (T + 4) \<Longrightarrow> appends T b ([0x5C, 0x78] @ hexs (uint c) 2) (quote_EscX b c)"
proof -
  assume a: "buf_ok T b" "room (T + 4)"
  have "uint (drop_bit 4 c) = drop_bit 4 (uint c)" using uint_bounded [of c]
    by (simp only: unsigned_drop_bit_eq) (simp add: take_bit_int_eq_self)
  then have d: "uint (drop_bit 4 c) = uint c div 16" "uint (c AND 0xF) = uint c mod 16"
    by (simp_all only: drop_bit_eq_div uint_and_masks) simp
  have b: "0 \<le> uint c div 16" "uint c div 16 < 16"
    using zdiv_mono1 [of "uint c" 255 16] uint_byte_less [of c] by (simp_all add: pos_imp_zdiv_nonneg_iff)
  then have "uint c div 16 mod 16 = uint c div 16" by (rule mod_pos_pos_trivial)
  with b have h: "go_index lowerhex (uint (drop_bit 4 c)) = Some (lowerhex ! nat (uint c div 16 ^ 1 mod 16))"
    "go_index lowerhex (uint (c AND 0xF)) = Some (lowerhex ! nat (uint c div 16 ^ 0 mod 16))"
    unfolding d by (simp_all add: lowerhex_index)
  have "appends T b (bs [CHR 0x5C, CHR ''x''] @ [lowerhex ! nat (uint c div 16 ^ 1 mod 16)] @ [lowerhex ! nat (uint c div 16 ^ 0 mod 16)])
    (write_string b [CHR 0x5C, CHR ''x''] \<bind> (\<lambda>b. Buffer_WriteByte b (lowerhex ! nat (uint c div 16 ^ 1 mod 16)) \<bind>
      (\<lambda>b. Buffer_WriteByte b (lowerhex ! nat (uint c div 16 ^ 0 mod 16)))))"
    using a by (intro appends_bind appends_WriteByte appends_write_string) (auto intro: room_mono)
  then show ?thesis by (simp add: quote_EscX_def h numeral_2_eq_2)
qed

section \<open>The quoted form\<close>

text \<open>The quoted form of the first character of a string, and its number of bytes.\<close>

definition quote_byte :: "byte \<Rightarrow> gostring" where
  "quote_byte c =
     (if c = 0x22 \<or> c = 0x5C then [0x5C, c]
      else if 0x20 \<le> c \<and> c \<le> 0x7E then [c]
      else if c = 7 then [0x5C, 0x61]
      else if c = 8 then [0x5C, 0x62]
      else if c = 12 then [0x5C, 0x66]
      else if c = 10 then [0x5C, 0x6E]
      else if c = 13 then [0x5C, 0x72]
      else if c = 9 then [0x5C, 0x74]
      else if c = 11 then [0x5C, 0x76]
      else [0x5C, 0x78] @ hexs (uint c) 2)"

definition quote_rune :: "int \<Rightarrow> gostring" where
  "quote_rune r = (if r < 0x10000 then [0x5C, 0x75] @ hexs r 4 else [0x5C, 0x55] @ hexs r 8)"

definition quote_piece :: "gostring \<Rightarrow> gostring" where
  "quote_piece s = (let (r, n) = DecodeRune s in if 2 \<le> n then quote_rune r else quote_byte (s ! 0))"

lemma intstring_ascii: "0x20 \<le> c \<Longrightarrow> c \<le> 0x7E \<Longrightarrow> intstring (uint c) = [c]"
proof -
  assume "0x20 \<le> c" "c \<le> (0x7E :: byte)"
  then have "uint c \<le> 0x7E" by (simp add: word_le_def)
  then show ?thesis by (simp add: intstring_def runetochar_def go_byte_uint)
qed

lemma length_quote_byte: "length (quote_byte c) \<le> 4"
  by (simp add: quote_byte_def)

lemma first_byte_multi:
  assumes "DecodeRune s = (r, n)" "2 \<le> n"
  shows "\<not> s ! 0 < 0x80" "s \<noteq> []" "FullRune s" "0x7F < r" "length (utf8_bytes r) = n" "take n s = utf8_bytes r"
proof -
  show "s \<noteq> []" using DecodeRune_size(2) [OF assms(1)] assms(2) by auto
  with assms(1) have "\<not> s ! 0 < 0x80 \<and> 0x7F < r" by (rule DecodeRune_cases) (use assms(2) in \<open>auto simp: word_less_def\<close>)
  then show "\<not> s ! 0 < 0x80" "0x7F < r" by blast+
  show t: "take n s = utf8_bytes r" using Decode_canonical [OF assms(1)] assms(2) by blast
  then show "length (utf8_bytes r) = n" using DecodeRune_size(2) [OF assms(1)] by (metis length_take min.absorb2)
  show "FullRune s"
    using assms decodeRuneInternal_short [of s] by (auto simp: FullRune_def DecodeRune_def split: prod.splits)
qed

lemma if_bind: "(if P then a :: 'a option else b) \<bind> k = (if P then a \<bind> k else b \<bind> k)"
  by simp

lemma quote_step_spec:
  assumes "buf_ok T b" "s \<noteq> []" "room (T + 10)"
  shows "\<exists>b'. quote_step b s = Some (b', drop (snd (DecodeRune s) - 1) s) \<and>
    buf_ok (T + length (quote_piece s)) b' \<and> contents b' = contents b @ quote_piece s"
proof -
  obtain r n where d: "DecodeRune s = (r, n)" by fastforce
  let ?c = "s ! 0"
  have w: "appends T b (bs [CHR 0x5C, l]) (write_string b [CHR 0x5C, l])" for l
    using assms by (intro appends_write_string) (auto intro: room_mono)
  have x: "appends T b ([0x5C, 0x78] @ hexs (uint ?c) 2) (quote_EscX b ?c)"
    using assms by (intro appends_EscX) (auto intro: room_mono)
  have i: "appends T b [?c] (do { (b, _) \<leftarrow> Buffer_WriteString b [?c]; Some b })"
    using assms by (intro appends_WriteString) (auto intro: room_mono)
  show ?thesis
  proof (cases "2 \<le> n")
    case True
    note m = first_byte_multi [OF d True]
    have c: "\<not> (0x20 \<le> ?c \<and> ?c \<le> 0x7E)" "?c \<noteq> 0x22" "?c \<noteq> 0x5C" "?c \<noteq> 7" "?c \<noteq> 8" "?c \<noteq> 9" "?c \<noteq> 10" "?c \<noteq> 11" "?c \<noteq> 12" "?c \<noteq> 13"
      "RuneSelf \<le> ?c"
      using m(1) by (auto simp: word_le_def word_less_def RuneSelf_def)
    have le: "n \<le> length s" using DecodeRune_size(2) [OF d] .
    have sl: "go_slice s (int n - 1) (int (length s)) = Some (drop (n - 1) s)"
      using True le go_slice_nat [of s "n - 1" "length s"] by (simp add: of_nat_diff slice_def)
    have "appends T b (bs [CHR 0x5C, CHR ''u''] @ hexs r 4) (write_string b [CHR 0x5C, CHR ''u''] \<bind> (\<lambda>b. write_hex b r 4))"
      "appends T b (bs [CHR 0x5C, CHR ''U''] @ hexs r 8) (write_string b [CHR 0x5C, CHR ''U''] \<bind> (\<lambda>b. write_hex b r 8))"
      using assms by (intro appends_bind appends_write_hex appends_write_string; auto intro: room_mono)+
    then have "appends T b (quote_rune r) (if r < 0x10000 then write_string b [CHR 0x5C, CHR ''u''] \<bind> (\<lambda>b. write_hex b r 4)
        else write_string b [CHR 0x5C, CHR ''U''] \<bind> (\<lambda>b. write_hex b r 8))"
      by (simp add: quote_rune_def)
    then obtain b' where "(if r < 0x10000 then write_string b [CHR 0x5C, CHR ''u''] \<bind> (\<lambda>b. write_hex b r 4)
        else write_string b [CHR 0x5C, CHR ''U''] \<bind> (\<lambda>b. write_hex b r 8)) = Some b'"
      "buf_ok (T + length (quote_rune r)) b'" "contents b' = contents b @ quote_rune r" unfolding appends_def by blast
    moreover have "FullRuneInString s" using m(3) by (simp add: FullRune_def FullRuneInString_def decodeRuneInString_eq)
    ultimately show ?thesis using c d True sl
      by (auto simp: quote_step_def Let_def DecodeRuneInString_eq quote_piece_def)
  next
    case False
    have n: "n = 1" using False DecodeRune_size(3) [OF d assms(2)] by linarith
    then have r: "r = (if ?c < 0x80 then uint ?c else RuneError)" using DecodeRune_single(2) [of s r] d by simp
    have sz: "RuneSelf \<le> ?c \<Longrightarrow> r = RuneError" using r by (auto simp: RuneSelf_def)
    define m where "m = (if ?c = 0x22 then write_string b [CHR 0x5C, CHR 0x22]
      else if ?c = 0x5C then write_string b [CHR 0x5C, CHR 0x5C]
      else if 0x20 \<le> ?c \<and> ?c \<le> 0x7E then do { (b, _) \<leftarrow> Buffer_WriteString b [?c]; Some b }
      else if ?c = 7 then write_string b [CHR 0x5C, CHR ''a'']
      else if ?c = 8 then write_string b [CHR 0x5C, CHR ''b'']
      else if ?c = 12 then write_string b [CHR 0x5C, CHR ''f'']
      else if ?c = 10 then write_string b [CHR 0x5C, CHR ''n'']
      else if ?c = 13 then write_string b [CHR 0x5C, CHR ''r'']
      else if ?c = 9 then write_string b [CHR 0x5C, CHR ''t'']
      else if ?c = 11 then write_string b [CHR 0x5C, CHR ''v'']
      else quote_EscX b ?c)"
    have "quote_step b s = m \<bind> (\<lambda>b. Some (b, s))"
      unfolding quote_step_def m_def Let_def DecodeRuneInString_eq d case_prod_conv n if_bind
    proof (intro if_cong refl, goal_cases)
      case 1
      then show ?case by (simp add: intstring_ascii case_prod_unfold)
    next
      case 2
      then show ?case using sz by simp
    qed
    moreover have "appends T b (quote_byte ?c) m"
      unfolding m_def quote_byte_def
      using w [of "CHR 0x22"] w [of "CHR 0x5C"] w [of "CHR ''a''"] w [of "CHR ''b''"] w [of "CHR ''f''"] w [of "CHR ''n''"]
        w [of "CHR ''r''"] w [of "CHR ''t''"] w [of "CHR ''v''"] i x by (auto simp del: hexs.simps)
    ultimately have "\<exists>b'. quote_step b s = Some (b', s) \<and> buf_ok (T + length (quote_byte ?c)) b' \<and> contents b' = contents b @ quote_byte ?c"
      unfolding appends_def by fastforce
    then show ?thesis using d n by (simp add: quote_piece_def)
  qed
qed

function quote_body :: "gostring \<Rightarrow> gostring" where
  "quote_body s = (if s = [] then [] else quote_piece s @ quote_body (drop (snd (DecodeRune s)) s))"
  by auto
termination
proof (relation "measure length", goal_cases)
  case (2 s)
  then show ?case using DecodeRune_size(3) [of s "fst (DecodeRune s)" "snd (DecodeRune s)"] by simp
qed simp

declare quote_body.simps [simp del]

lemma length_quote_piece: "s \<noteq> [] \<Longrightarrow> DecodeRune s = (r, n) \<Longrightarrow> length (quote_piece s) \<le> 4 * n \<and> length (quote_piece s) \<le> 10"
proof -
  assume s: "s \<noteq> []" "DecodeRune s = (r, n)"
  show ?thesis
  proof (cases "2 \<le> n")
    case True
    have "r \<le> 0xFFFF \<or> n = 4" using first_byte_multi(4,5) [OF s(2) True] by (auto simp: utf8_bytes_def split: if_splits)
    then show ?thesis using True s(2) by (auto simp: quote_piece_def quote_rune_def)
  next
    case False
    then have "n = 1" using DecodeRune_size(3) [OF s(2,1)] by linarith
    then show ?thesis using s(2) length_quote_byte [of "s ! 0"] by (simp add: quote_piece_def)
  qed
qed

lemma quote_body_rec: "s \<noteq> [] \<Longrightarrow> DecodeRune s = (r, n) \<Longrightarrow> quote_body s = quote_piece s @ quote_body (drop n s)"
  by (simp add: quote_body.simps [of s])

lemma length_quote_body: "length (quote_body s) \<le> 4 * length s"
proof (induction s rule: decode_all_induct)
  case (Rune p r n)
  then show ?case using length_quote_piece [OF Rune(1,2)] by (auto simp: quote_body_rec [OF Rune(1,2)] diff_mult_distrib2)
qed (simp add: quote_body.simps)

lemma Quote_loop_spec:
  assumes "buf_ok T b" "room (T + 4 * length s + 10)"
  shows "appends T b (quote_body s) (Quote_loop b s)"
  using assms
proof (induction s arbitrary: T b rule: decode_all_induct)
  case Nil
  then show ?case by (simp add: Quote_loop.simps appends_def quote_body.simps)
next
  case (Rune p r n)
  note lp = length_quote_piece [OF Rune(1,2)]
  have "room (T + 10)" using Rune.prems(2) by (rule room_mono) simp
  from quote_step_spec [OF Rune.prems(1) Rune(1) this] obtain b1 where
    b1: "quote_step b p = Some (b1, drop (n - 1) p)" "buf_ok (T + length (quote_piece p)) b1" "contents b1 = contents b @ quote_piece p"
    using Rune(2) by auto
  have "room (T + length (quote_piece p) + 4 * length (drop n p) + 10)"
    using Rune.prems(2) by (rule room_mono) (use lp Rune(4) in \<open>auto simp: diff_mult_distrib2\<close>)
  note IH = Rune.IH [OF b1(2) this]
  have "n - 1 < length p" using Rune(3,4) by simp
  then have "go_slice (drop (n - 1) p) 1 (int (length (drop (n - 1) p))) = Some (drop n p)"
    using go_slice_nat [of "drop (n - 1) p" 1 "length (drop (n - 1) p)"] Rune(3) by (simp add: slice_def)
  then have "Quote_loop b p = Quote_loop b1 (drop n p)"
    using Rune(1) b1(1) by (subst Quote_loop.simps) simp
  then show ?case using IH b1(3) by (simp add: quote_body_rec [OF Rune(1,2)] appends_def add.assoc)
qed

lemma Buffer_String_ok: "buf_ok T b \<Longrightarrow> Buffer_String (Some b) = Some (contents b)"
  by (simp add: Buffer_String_def Buffer_Bytes_def buf_ok_def contents_def slice_def)

lemma zero_Buffer_ok: "buf_ok 0 zero_Buffer" "contents zero_Buffer = []"
  by (simp_all add: buf_ok_def zero_Buffer_def contents_def)

lemma Quote_spec:
  assumes "room (4 * length s + 12)"
  shows "Quote s = Some ([0x22] @ quote_body s @ [0x22])"
proof -
  have "appends 0 zero_Buffer ([0x22] @ quote_body s @ [0x22])
    (Buffer_WriteByte zero_Buffer 0x22 \<bind> (\<lambda>b. Quote_loop b s \<bind> (\<lambda>b. Buffer_WriteByte b 0x22)))"
    using length_quote_body [of s] zero_Buffer_ok
    by (intro appends_bind appends_WriteByte Quote_loop_spec) (auto intro: room_mono [OF assms])
  then show ?thesis using Buffer_String_ok zero_Buffer_ok(2) by (auto simp: Quote_def appends_def bind_eq_Some_iff)
qed

section \<open>Unquoting the quoted form\<close>

lemma unhex_lowerhex: "0 \<le> x \<Longrightarrow> x < 16 \<Longrightarrow> unhex (lowerhex ! nat x) = Some x"
proof -
  have "list_all (\<lambda>x. unhex (lowerhex ! nat x) = Some x) [0..15]" by code_simp
  then show "0 \<le> x \<Longrightarrow> x < 16 \<Longrightarrow> ?thesis" unfolding list_all_iff set_upto by simp
qed

lemma unhex_loop_hexs:
  "0 \<le> v \<Longrightarrow> v * 16 ^ k + r mod 16 ^ k < 2 ^ 31 \<Longrightarrow> unhex_loop v (hexs r k) = Some (v * 16 ^ k + r mod 16 ^ k)"
proof (induction k arbitrary: v)
  case (Suc k)
  define x where "x = r div 16 ^ k mod 16"
  have x: "0 \<le> x" "x < 16" by (simp_all add: x_def)
  have m: "r mod 16 ^ Suc k = 16 ^ k * x + r mod 16 ^ k" using zmod_zmult2_eq [of 16 r "16 ^ k"] by (simp add: x_def mult.commute)
  have e: "(v * 16 + x) * 16 ^ k + r mod 16 ^ k = v * 16 ^ Suc k + r mod 16 ^ Suc k" unfolding m by (simp add: algebra_simps)
  have "(v * 16 + x) * 1 \<le> (v * 16 + x) * 16 ^ k" using Suc.prems(1) x(1) by (intro mult_left_mono) simp_all
  then have "v * 16 + x \<le> (v * 16 + x) * 16 ^ k + r mod 16 ^ k" by (intro add_increasing2) simp_all
  then have lt: "v * 16 + x < 2 ^ 31" by (rule le_less_trans) (use Suc.prems(2) e in simp)
  then have "is_int32 (v * 16)" using Suc.prems(1) x by (simp add: is_int32_def)
  then have "int32 (push_bit 4 v) OR x = v * 16 + x"
    using or_push_bit_add [of x 4 v] x by (simp add: push_bit_eq_mult)
  then show ?case using Suc.IH [of "v * 16 + x"] Suc.prems x e unhex_lowerhex [OF x] by (simp add: x_def [symmetric])
qed simp

lemma go_index_Cons: "go_index (c # s) 0 = Some c"
  by (simp add: go_index_def)

lemma UnquoteChar_byte: "UnquoteChar (quote_byte c @ t) 0x22 = Some (uint c, False, t, None)"
proof -
  have "0 * 16 ^ 2 + uint c mod 16 ^ 2 = uint c" by (simp add: mod_pos_pos_trivial)
  then have h: "unhex_loop 0 (hexs (uint c) 2) = Some (uint c)" using unhex_loop_hexs [of 0 2 "uint c"] uint_byte_less [of c]
    by (simp del: uint_byte_less)
  have nb: "\<not> RuneSelf \<le> c" if "c \<le> 0x7E" using that by (auto simp: RuneSelf_def word_le_def)
  show ?thesis
    unfolding quote_byte_def using h nb
    by (auto simp: UnquoteChar_def go_index_Cons escape_hex_def RuneSelf_def Let_def simp del: hexs.simps)
qed

lemma UnquoteChar_rune:
  assumes "0 \<le> r" "r \<le> MaxRune"
  shows "UnquoteChar (quote_rune r @ t) 0x22 = Some (r, True, t, None)"
proof -
  have "r < 0x10000 \<Longrightarrow> unhex_loop 0 (hexs r 4) = Some r" "unhex_loop 0 (hexs r 8) = Some r"
    using unhex_loop_hexs [of 0 4 r] unhex_loop_hexs [of 0 8 r] assms by (simp_all add: MaxRune_def mod_pos_pos_trivial)
  then show ?thesis
    unfolding quote_rune_def using assms(2)
    by (auto simp: UnquoteChar_def go_index_Cons escape_hex_def RuneSelf_def Let_def simp del: hexs.simps)
qed

lemma go_byte_or: "go_byte (a OR b) = go_byte a OR go_byte b" "go_byte (a AND b) = go_byte a AND go_byte b"
  by (simp_all add: go_byte_def word_of_int_eq_iff take_bit_or take_bit_and flip: of_int_or_eq of_int_and_eq)

lemma intstring_bytes:
  assumes "0 \<le> r" "r \<le> MaxRune"
  shows "intstring r = utf8_bytes r"
proof -
  have g: "go_byte 0xC0 = 0xC0" "go_byte 0xE0 = 0xE0" "go_byte 0xF0 = 0xF0" "go_byte 0x80 = 0x80" "go_byte 0x3F = 0x3F"
    by (simp_all add: go_byte_def)
  have d: "r \<le> 0x7FF \<Longrightarrow> r div 64 < 32" "r \<le> 0xFFFF \<Longrightarrow> r div 4096 < 16" "r div 262144 < 8"
    "0 \<le> r div 64" "0 \<le> r div 4096" "0 \<le> r div 262144"
    using zdiv_mono1 [of r "0x7FF" 64] zdiv_mono1 [of r "0xFFFF" 4096] zdiv_mono1 [of r "0x10FFFF" 262144] assms
    by (simp_all add: MaxRune_def pos_imp_zdiv_nonneg_iff)
  show ?thesis
    using assms cont_byte lead_byte d
    by (simp add: intstring_def runetochar_def utf8_bytes_def MaxRune_def Let_def go_byte_or g drop_bit_eq_div)
qed

lemma unquote_write_piece:
  assumes "buf_ok T b" "room (T + 4)"
  shows "appends T b [c] (unquote_write b (uint c) False)"
    "0x7F < r \<Longrightarrow> r \<le> MaxRune \<Longrightarrow> appends T b (utf8_bytes r) (unquote_write b r True)"
proof -
  show "appends T b [c] (unquote_write b (uint c) False)"
    using assms by (simp add: unquote_write_def go_byte_uint appends_WriteByte room_mono)
  assume "0x7F < r" "r \<le> MaxRune"
  moreover have "length (utf8_bytes r) \<le> 4" by (simp add: utf8_bytes_def)
  ultimately show "appends T b (utf8_bytes r) (unquote_write b r True)"
    using assms by (simp add: unquote_write_def RuneSelf_def intstring_bytes appends_WriteString room_mono)
qed

lemma Unquote_loop_spec:
  assumes "buf_ok T b" "room (T + length s + 4)" "in_range s"
  shows "Unquote_loop 0x22 b (quote_body s) = Some (contents b @ s, None)"
  using assms
proof (induction s arbitrary: T b rule: decode_all_induct)
  case Nil
  then show ?case by (simp add: Unquote_loop.simps quote_body.simps Buffer_String_ok)
next
  case (Rune p r n)
  have range: "r \<le> MaxRune" "in_range (drop n p)"
    using Rune.prems(3) by (simp_all add: in_range_def decode_all_rec [OF Rune(1,2)])
  let ?t = "quote_body (drop n p)"
  have room: "room (T + 4)" "room (T + n + length (drop n p) + 4)"
    using Rune.prems(2) Rune(4) by (auto intro: room_mono)
  obtain v m where "UnquoteChar (quote_body p) 0x22 = Some (v, m, ?t, None)" "appends T b (take n p) (unquote_write b v m)"
  proof (cases "2 \<le> n")
    case True
    note f = first_byte_multi [OF Rune(2) True]
    then have "UnquoteChar (quote_body p) 0x22 = Some (r, True, ?t, None)" using UnquoteChar_rune [of r ?t] range(1) Rune(2) True
      by (simp add: quote_body_rec [OF Rune(1,2)] quote_piece_def)
    moreover have "appends T b (take n p) (unquote_write b r True)"
      unfolding f(6) using unquote_write_piece(2) [OF Rune.prems(1) room(1) f(4) range(1)] .
    ultimately show ?thesis by (rule that)
  next
    case False
    then have n: "n = 1" using Rune(3) by linarith
    then have "UnquoteChar (quote_body p) 0x22 = Some (uint (p ! 0), False, ?t, None)" using Rune(2) UnquoteChar_byte [of "p ! 0" ?t]
      by (simp add: quote_body_rec [OF Rune(1,2)] quote_piece_def)
    moreover have "take n p = [p ! 0]" using n Rune(1) by (cases p) simp_all
    ultimately show ?thesis using that unquote_write_piece(1) [OF Rune.prems(1) room(1)] by metis
  qed
  moreover obtain b1 where "appends T b (take n p) (unquote_write b v m) \<Longrightarrow> unquote_write b v m = Some b1 \<and>
      buf_ok (T + n) b1 \<and> contents b1 = contents b @ take n p" using Rune(4) by (auto simp: appends_def min_absorb1)
  ultimately have u: "UnquoteChar (quote_body p) 0x22 = Some (v, m, ?t, None)" "unquote_write b v m = Some b1" "buf_ok (T + n) b1"
    "contents b1 = contents b @ take n p" by blast+
  have "quote_body p \<noteq> []" using u(1) by (auto simp: UnquoteChar_def go_index_def)
  then have "Unquote_loop 0x22 b (quote_body p) = Unquote_loop 0x22 b1 ?t"
    using u by (subst Unquote_loop.simps) simp
  also have "\<dots> = Some (contents b1 @ drop n p, None)" using u(3) room(2) range(2) by (rule Rune.IH)
  finally show ?case by (simp add: u(4))
qed

lemma Contains_single: "Contains s [c] \<longleftrightarrow> c \<in> set s"
proof -
  have "occ s [c] i \<longleftrightarrow> i < length s \<and> s ! i = c" for i
    using occ_single [of "[c]" i s] by (auto simp: occ_def)
  then show ?thesis using Index_cases [of "[c]" s] by (auto simp: Contains_def in_set_conv_nth)
qed

text \<open>C32: Quoting and unquoting. \<open>Quote\<close> returns for every string whose quoted form fits a buffer, a \<open>"\<close>, the escaped
  characters and a \<open>"\<close>, and \<open>Unquote\<close> of the result is the string, if the string holds no encoding above \<open>MaxRune\<close>;
  invalid bytes are kept. The bytes F4 90 80 80, which \<open>DecodeRuneInString\<close> accepts, are quoted as \<open>\U00110000\<close>, which
  \<open>Unquote\<close> refuses.\<close>

theorem Unquote_Quote:
  assumes "24 * length s + 272 < 2 ^ 31"
  shows "(\<exists>q. Quote s = Some q \<and> (in_range s \<longrightarrow> Unquote q = Some (s, None))) \<and>
    (\<exists>q. Quote [0xF4, 0x90, 0x80, 0x80] = Some q \<and> Unquote q = Some ([], Some EINVAL))"
proof
  let ?q = "[0x22] @ quote_body s @ [0x22]"
  have "room (4 * length s + 12)" "room (0 + length s + 4)" using assms by (simp_all add: room_def)
  then have "Quote s = Some ?q" "in_range s \<Longrightarrow> Unquote_loop 0x22 zero_Buffer (quote_body s) = Some (s, None)"
    using Quote_spec [of s] Unquote_loop_spec [of 0 zero_Buffer s] zero_Buffer_ok by simp_all
  moreover have "Unquote ?q = Unquote_loop 0x22 zero_Buffer (quote_body s)" by (simp add: Unquote_def nth_append)
  ultimately show "\<exists>q. Quote s = Some q \<and> (in_range s \<longrightarrow> Unquote q = Some (s, None))" by auto
next
  have "Quote [0xF4, 0x90, 0x80, 0x80] = Some (bs [CHR 0x22, CHR 0x5C] @ bs ''U00110000'' @ [0x22])" by code_simp
  moreover have "Unquote (bs [CHR 0x22, CHR 0x5C] @ bs ''U00110000'' @ [0x22]) = Some ([], Some EINVAL)" by code_simp
  ultimately show "\<exists>q. Quote [0xF4, 0x90, 0x80, 0x80] = Some q \<and> Unquote q = Some ([], Some EINVAL)" by blast
qed

theorem Unquote_Quote_witness:
  "\<exists>q. Quote [0x61, 0xFF, 0xC3, 0xA9] = Some q \<and> Unquote q = Some ([0x61, 0xFF, 0xC3, 0xA9], None)"
proof -
  have d: "DecodeRune [0x61, 0xFF, 0xC3, 0xA9] = (0x61, 1)" "DecodeRune [0xFF, 0xC3, 0xA9] = (RuneError, 1)"
    "DecodeRune [0xC3, 0xA9] = (0xE9, 2)" by code_simp+
  have "in_range [0x61, 0xFF, 0xC3, 0xA9]"
    using d by (simp add: in_range_def decode_all.simps MaxRune_def RuneError_def)
  then show ?thesis using Unquote_Quote [of "[0x61, 0xFF, 0xC3, 0xA9]"] by simp
qed

text \<open>Malformed escapes. The characters that \<open>Unquote\<close> copies, the octal digits, and the value of hexadecimal digits.\<close>

definition plain_byte :: "byte \<Rightarrow> bool" where
  "plain_byte c \<longleftrightarrow> 0x20 \<le> c \<and> c \<le> 0x7E \<and> c \<noteq> 0x22 \<and> c \<noteq> 0x5C"

definition octal_digit :: "byte \<Rightarrow> bool" where
  "octal_digit c \<longleftrightarrow> 0x30 \<le> c \<and> c \<le> 0x37"

fun hex_value :: "int \<Rightarrow> gostring \<Rightarrow> int option" where
  "hex_value v [] = Some v"
| "hex_value v (c # s) = (case unhex c of None \<Rightarrow> None | Some x \<Rightarrow> hex_value (v * 16 + x) s)"

lemma unhex_bounds: "unhex c = Some x \<Longrightarrow> 0 \<le> x \<and> x < 16"
  by (auto simp: unhex_def Let_def split: if_splits)

lemma unhex_loop_value: "unhex_loop (int32 v) ds = map_option int32 (hex_value v ds)"
proof (induction ds arbitrary: v)
  case (Cons c ds)
  have "int32 (push_bit 4 (int32 v)) OR x = int32 (v * 16 + x)" if x: "0 \<le> x" "x < 16" for x
  proof -
    have "int32 (int32 v * 16) = int32 (v * 16)"
      using signed_take_bit_mult [of 31 "int32 v" 16] signed_take_bit_mult [of 31 v 16] by (simp add: int32_def)
    moreover have "int32 x = x" using x by (intro int32_id) (simp add: is_int32_def)
    moreover have "push_bit 4 v OR x = v * 16 + x" using or_push_bit_add [of x 4 v] x by simp
    moreover have "int32 (push_bit 4 v OR x) = int32 (push_bit 4 v) OR int32 x" by (auto simp: int32_def bit_eq_iff bit_simps)
    ultimately show ?thesis by (simp add: push_bit_eq_mult)
  qed
  with Cons unhex_bounds [of c] show ?case by (simp split: option.split)
qed simp

lemma hex_value_bounds: "hex_value v ds = Some x \<Longrightarrow> 0 \<le> v \<Longrightarrow> 0 \<le> x \<and> x < (v + 1) * 16 ^ length ds"
proof (induction ds arbitrary: v)
  case (Cons c ds)
  then obtain d where d: "unhex c = Some d" "hex_value (v * 16 + d) ds = Some x" by (auto split: option.splits)
  have b: "0 \<le> d" "d < 16" using unhex_bounds [OF d(1)] by simp_all
  then have "0 \<le> x \<and> x < (v * 16 + d + 1) * 16 ^ length ds" using Cons.IH [OF d(2)] Cons.prems(2) by simp
  moreover have "(v * 16 + d + 1) * 16 ^ length ds \<le> ((v + 1) * 16) * (16 :: int) ^ length ds"
    using b by (intro mult_right_mono) simp_all
  ultimately have "0 \<le> x \<and> x < (v + 1) * 16 * 16 ^ length ds" by linarith
  then show ?case by (simp add: algebra_simps)
qed simp

lemma go_byte_int32: "go_byte (int32 v) = go_byte v"
  by (simp add: go_byte_def int32_def word_of_int_eq_iff take_bit_signed_take_bit)

lemma UnquoteChar_plain: "plain_byte c \<Longrightarrow> UnquoteChar (c # s) 0x22 = Some (uint c, False, s, None)"
proof -
  assume "plain_byte c"
  then have c: "c \<noteq> 0x22" "c \<noteq> 0x5C" "\<not> RuneSelf \<le> c" by (auto simp: plain_byte_def RuneSelf_def word_le_def)
  then show ?thesis by (simp add: UnquoteChar_def go_index_Cons)
qed

lemma Unquote_loop_plain:
  assumes "buf_ok T b" "room (T + length p + 4)" "list_all plain_byte p"
  shows "\<exists>b'. (\<forall>s. Unquote_loop 0x22 b (p @ s) = Unquote_loop 0x22 b' s) \<and> buf_ok (T + length p) b' \<and> contents b' = contents b @ p"
  using assms
proof (induction p arbitrary: T b)
  case (Cons c p)
  have "room (T + 4)" using Cons.prems(2) by (rule room_mono) simp
  from unquote_write_piece(1) [OF Cons.prems(1) this, of c] obtain b1 where
    b1: "unquote_write b (uint c) False = Some b1" "buf_ok (T + 1) b1" "contents b1 = contents b @ [c]" by (auto simp: appends_def)
  have "Unquote_loop 0x22 b ((c # p) @ s) = Unquote_loop 0x22 b1 (p @ s)" for s
    using UnquoteChar_plain [of c "p @ s"] Cons.prems(3) b1(1) by (subst Unquote_loop.simps) simp
  moreover obtain b' where "\<And>s. Unquote_loop 0x22 b1 (p @ s) = Unquote_loop 0x22 b' s" "buf_ok (T + 1 + length p) b'"
    "contents b' = contents b1 @ p" using Cons.IH [OF b1(2)] Cons.prems by (auto simp: add.assoc)
  ultimately show ?case using b1(3) by auto
qed auto

lemma octal_loop_None: "octal_loop v [a, b] = None \<longleftrightarrow> \<not> (octal_digit a \<and> octal_digit b)"
  by (auto simp: octal_digit_def Let_def word_le_def)

lemma UnquoteChar_octal:
  assumes "octal_digit d"
  shows "UnquoteChar ([0x5C, d] @ u) 0x22 = Some (escape_octal d u)"
proof -
  have "d \<noteq> 0x61" "d \<noteq> 0x62" "d \<noteq> 0x66" "d \<noteq> 0x6E" "d \<noteq> 0x72" "d \<noteq> 0x74" "d \<noteq> 0x76" "d \<noteq> 0x78" "d \<noteq> 0x75" "d \<noteq> 0x55"
    using assms by (auto simp: octal_digit_def word_le_def)
  then show ?thesis using assms by (simp add: UnquoteChar_def go_index_Cons RuneSelf_def octal_digit_def)
qed

lemma UnquoteChar_U:
  assumes "length ds = 8" "hex_value 0 ds = Some v"
  shows "UnquoteChar ([0x5C, 0x55] @ ds) 0x22 =
    Some (if MaxRune < int32 v then (0, False, [], Some EINVAL) else (int32 v, True, [], None))"
  using unhex_loop_value [of 0 ds] assms by (simp add: UnquoteChar_def go_index_Cons RuneSelf_def escape_hex_def is_int32_def)

lemma unquote_write_U:
  assumes "buf_ok T b" "room (T + 4)" "0 \<le> v" "v < 2 ^ 32" "\<not> MaxRune < int32 v"
  shows "appends T b (if v \<le> MaxRune then utf8_bytes v else [go_byte v]) (unquote_write b (int32 v) True)"
proof (cases "v < 2 ^ 31")
  case True
  then have i: "int32 v = v" using assms(3) by (intro int32_id) (simp add: is_int32_def)
  then have m: "v \<le> MaxRune" using assms(5) by simp
  show ?thesis
  proof (cases "0x7F < v")
    case True
    then show ?thesis using unquote_write_piece(2) [OF assms(1,2) True m] i m by simp
  next
    case False
    then show ?thesis using assms(1,2,3) i m
      by (simp add: unquote_write_def RuneSelf_def utf8_bytes_def appends_WriteByte room_mono)
  qed
next
  case False
  then have "int32 v < 0" "\<not> v \<le> MaxRune" using int32_wrap(1) [of v] assms(4) by (simp_all add: MaxRune_def)
  then show ?thesis using assms(1,2)
    by (simp add: unquote_write_def RuneSelf_def go_byte_int32 appends_WriteByte room_mono)
qed

lemma Unquote_after_plain:
  assumes "list_all plain_byte p" "6 * (length p + 4) + 200 < 2 ^ 31"
  obtains b where "\<And>s. Unquote ([0x22] @ p @ s @ [0x22]) = Unquote_loop 0x22 b s" "buf_ok (length p) b" "contents b = p"
proof -
  have "room (0 + length p + 4)" using assms(2) by (simp add: room_def)
  then obtain b where "\<And>s. Unquote_loop 0x22 zero_Buffer (p @ s) = Unquote_loop 0x22 b s" "buf_ok (length p) b" "contents b = p"
    using Unquote_loop_plain [of 0 zero_Buffer p] zero_Buffer_ok assms(1) by auto
  moreover have "Unquote ([0x22] @ p @ s @ [0x22]) = Unquote_loop 0x22 zero_Buffer (p @ s)" for s
    by (simp add: Unquote_def nth_append)
  ultimately show ?thesis using that by simp
qed

lemma Unquote_loop_last:
  assumes "UnquoteChar s 0x22 = Some (v, m, [], None)" "appends T b q (unquote_write b v m)"
  shows "Unquote_loop 0x22 b s = Some (contents b @ q, None)"
proof -
  obtain b' where b': "unquote_write b v m = Some b'" "buf_ok (T + length q) b'" "contents b' = contents b @ q"
    using assms(2) by (auto simp: appends_def)
  then have "Unquote_loop 0x22 b' [] = Some (contents b @ q, None)" by (simp add: Unquote_loop.simps Buffer_String_ok)
  moreover have "s \<noteq> []" using assms(1) by (auto simp: UnquoteChar_def go_index_def)
  ultimately show ?thesis using assms(1) b'(1) by (subst Unquote_loop.simps) simp
qed

lemma Unquote_loop_error:
  "UnquoteChar s 0x22 = Some (v, m, t, Some e) \<Longrightarrow> Unquote_loop 0x22 b s = Some ([], Some e)"
proof -
  assume u: "UnquoteChar s 0x22 = Some (v, m, t, Some e)"
  then have "s \<noteq> []" by (auto simp: UnquoteChar_def go_index_def)
  then show ?thesis using u by (subst Unquote_loop.simps) simp
qed

text \<open>C33: Malformed escapes in \<open>Unquote\<close>. After any plain characters, an octal escape with fewer than two characters behind its
  first digit is an error, but one with a character that is no octal digit among those two is accepted: it gives a zero
  byte and the rest of the string is dropped, without an error. An escape \<open>\U\<close> with eight hexadecimal digits is an error
  for a value above \<open>MaxRune\<close> only below \<open>2 ^ 31\<close>: from there on the 32-bit value is negative and passes the test, and the
  lowest byte of the value is written. A backquoted string is its inside, unless there is a backquote in it.\<close>

theorem Unquote_malformed:
  assumes "list_all plain_byte p" "6 * (length p + 4) + 200 < 2 ^ 31"
  shows "(octal_digit d \<and> \<not> (octal_digit a \<and> octal_digit c) \<longrightarrow>
      Unquote ([0x22] @ p @ ([0x5C, d, a, c] @ t) @ [0x22]) = Some (p @ [0], None)) \<and>
    (octal_digit d \<and> length u < 2 \<longrightarrow> Unquote ([0x22] @ p @ ([0x5C, d] @ u) @ [0x22]) = Some ([], Some EINVAL)) \<and>
    (length ds = 8 \<and> hex_value 0 ds = Some v \<longrightarrow> Unquote ([0x22] @ p @ ([0x5C, 0x55] @ ds) @ [0x22]) =
      (if MaxRune < v \<and> v < 2 ^ 31 then Some ([], Some EINVAL)
       else Some (p @ (if v \<le> MaxRune then utf8_bytes v else [go_byte v]), None))) \<and>
    Unquote ([0x60] @ t @ [0x60]) = Some (if 0x60 \<in> set t then ([], Some EINVAL) else (t, None))"
proof -
  obtain b where b: "\<And>s. Unquote ([0x22] @ p @ s @ [0x22]) = Unquote_loop 0x22 b s" "buf_ok (length p) b" "contents b = p"
    using Unquote_after_plain [OF assms] by blast
  have room: "room (length p + 4)" using assms(2) by (simp add: room_def)
  show ?thesis
  proof (intro conjI impI; (elim conjE)?)
    assume d: "octal_digit d" "\<not> (octal_digit a \<and> octal_digit c)"
    then have "UnquoteChar ([0x5C, d, a, c] @ t) 0x22 = Some (0, False, [], None)"
      using UnquoteChar_octal [of d "a # c # t"] octal_loop_None [of "uint d - 0x30" a c] by (simp add: escape_octal_def)
    moreover have "appends (length p) b [0] (unquote_write b 0 False)"
      using unquote_write_piece(1) [OF b(2) room, of 0] by simp
    ultimately show "Unquote ([0x22] @ p @ ([0x5C, d, a, c] @ t) @ [0x22]) = Some (p @ [0], None)"
      unfolding b(1) using Unquote_loop_last b(3) by metis
  next
    assume d: "octal_digit d" "length u < 2"
    then have "UnquoteChar ([0x5C, d] @ u) 0x22 = Some (0, False, [], Some EINVAL)"
      using UnquoteChar_octal [of d u] by (simp add: escape_octal_def)
    then show "Unquote ([0x22] @ p @ ([0x5C, d] @ u) @ [0x22]) = Some ([], Some EINVAL)"
      unfolding b(1) by (rule Unquote_loop_error)
  next
    assume ds: "length ds = 8" "hex_value 0 ds = Some v"
    then have v: "0 \<le> v" "v < 2 ^ 32" using hex_value_bounds [OF ds(2)] by simp_all
    have neg: "MaxRune < int32 v \<longleftrightarrow> MaxRune < v \<and> v < 2 ^ 31"
      using v int32_wrap(1) [of v] int32_id [of v] by (cases "v < 2 ^ 31") (auto simp: is_int32_def MaxRune_def)
    show "Unquote ([0x22] @ p @ ([0x5C, 0x55] @ ds) @ [0x22]) = (if MaxRune < v \<and> v < 2 ^ 31 then Some ([], Some EINVAL)
       else Some (p @ (if v \<le> MaxRune then utf8_bytes v else [go_byte v]), None))"
      unfolding b(1) neg [symmetric] using UnquoteChar_U [OF ds] unquote_write_U [OF b(2) room v] b(3)
      by (auto intro: Unquote_loop_error dest: Unquote_loop_last)
  next
    have "Contains t (bs ''`'') \<longleftrightarrow> 0x60 \<in> set t" using Contains_single [of t "0x60"] by simp
    then show "Unquote ([0x60] @ t @ [0x60]) = Some (if 0x60 \<in> set t then ([], Some EINVAL) else (t, None))"
      by (simp add: Unquote_def nth_append)
  qed
qed

theorem Unquote_malformed_witness:
  "Unquote ([0x22] @ bs ''a'' @ ([0x5C, 0x30, 0x38, 0x62] @ []) @ [0x22]) = Some (bs ''a'' @ [0], None) \<and>
   Unquote ([0x22] @ bs ''a'' @ ([0x5C, 0x31] @ [0x32]) @ [0x22]) = Some ([], Some EINVAL) \<and>
   Unquote ([0x22] @ bs ''a'' @ ([0x5C, 0x55] @ bs ''FFFFFFFF'') @ [0x22]) = Some (bs ''a'' @ [0xFF], None)"
proof -
  have p: "list_all plain_byte (bs ''a'')" "octal_digit 0x30" "octal_digit 0x31" "\<not> octal_digit 0x38" by code_simp+
  have h: "length (bs ''FFFFFFFF'') = 8" "hex_value 0 (bs ''FFFFFFFF'') = Some 0xFFFFFFFF" "go_byte 0xFFFFFFFF = 0xFF" by code_simp+
  have l: "6 * (length (bs ''a'') + 4) + 200 < (2 :: nat) ^ 31" by simp
  show ?thesis
    using Unquote_malformed [OF p(1) l, of "0x30" "0x38" "0x62" "[]" "[0x32]" "bs ''FFFFFFFF''" "0xFFFFFFFF"]
      Unquote_malformed [OF p(1) l, of "0x31" "0x38" "0x62" "[]" "[0x32]" "bs ''FFFFFFFF''" "0xFFFFFFFF"] p h
    by (simp add: MaxRune_def)
qed

end
