(* ===== verification/Bufio_Reader.thy ===== *)
theory Bufio_Reader
  imports Bytes_Buffer Strconv
begin

text \<open>
  Type \<open>Reader\<close> of package bufio (\<open>bufio.go\<close>) over any \<open>io.Reader\<close>, which is a parameter. A loop that fills the
  buffer may run forever if the underlying reader makes no progress; it is a partial function, and \<^term>\<open>None\<close> is
  a panic or a loop that does not end. On a \<open>live_reader\<close> the operations return and give the bytes of the underlying
  reader in order.
\<close>

definition defaultBufSize :: int where "defaultBufSize = 4096"

definition ErrInvalidUnreadByte :: os_Error where
  "ErrInvalidUnreadByte = bufio_Error (bs ''bufio: invalid use of UnreadByte'')"

definition ErrInvalidUnreadRune :: os_Error where
  "ErrInvalidUnreadRune = bufio_Error (bs ''bufio: invalid use of UnreadRune'')"

definition ErrBufferFull :: os_Error where
  "ErrBufferFull = bufio_Error (bs ''bufio: buffer full'')"

definition ErrNegativeCount :: os_Error where
  "ErrNegativeCount = bufio_Error (bs ''bufio: negative count'')"

datatype BufSizeError = BufSizeError int

definition BufSizeError_String :: "BufSizeError \<Rightarrow> gostring option" where
  "BufSizeError_String e = (case e of BufSizeError b \<Rightarrow> do { s \<leftarrow> Itoa b; Some (bs ''bufio: bad buffer size '' @ s) })"

record 'r bufio_Reader =
  br_buf :: gostring
  br_rd :: 'r
  br_r :: int
  br_w :: int
  br_err :: "os_Error option"
  br_lastByte :: int
  br_lastRuneSize :: int

text \<open>\<open>NewReaderSize\<close> on an \<open>io.Reader\<close> that is not a \<open>*bufio.Reader\<close>, and on one that is.\<close>

definition new_Reader :: "int \<Rightarrow> 'r \<Rightarrow> 'r bufio_Reader" where
  "new_Reader sz rd = \<lparr>br_buf = replicate (nat sz) 0, br_rd = rd, br_r = 0, br_w = 0, br_err = None,
     br_lastByte = -1, br_lastRuneSize = -1\<rparr>"

definition NewReaderSize :: "'r \<Rightarrow> int \<Rightarrow> BufSizeError + 'r bufio_Reader" where
  "NewReaderSize rd sz = (if sz \<le> 0 then Inl (BufSizeError sz) else Inr (new_Reader sz rd))"

definition NewReaderSize_Reader :: "'r bufio_Reader \<Rightarrow> int \<Rightarrow>
    BufSizeError + ('r bufio_Reader + 'r bufio_Reader bufio_Reader)" where
  "NewReaderSize_Reader b sz =
     (if sz \<le> 0 then Inl (BufSizeError sz)
      else if int (length (br_buf b)) \<ge> sz then Inr (Inl b)
      else Inr (Inr (new_Reader sz b)))"

definition NewReader :: "'r \<Rightarrow> 'r bufio_Reader option" where
  "NewReader rd = (case NewReaderSize rd defaultBufSize of Inl e \<Rightarrow> None | Inr b \<Rightarrow> Some b)"

definition fill :: "'r io_Reader \<Rightarrow> 'r bufio_Reader \<Rightarrow> 'r bufio_Reader option" where
  "fill rd b = do {
     b \<leftarrow> (if br_r b > 0 then do {
         t \<leftarrow> go_slice (br_buf b) (br_r b) (br_w b);
         (buf, _) \<leftarrow> go_copy (br_buf b) 0 t;
         Some (b\<lparr>br_buf := buf, br_w := br_w b - br_r b, br_r := 0\<rparr>)
       } else Some b);
     p \<leftarrow> go_slice (br_buf b) (br_w b) (int (length (br_buf b)));
     (n, e, p, r) \<leftarrow> rd (br_rd b) p;
     let b = b\<lparr>br_buf := take (nat (br_w b)) (br_buf b) @ p, br_rd := r, br_w := br_w b + int n\<rparr>;
     Some (if e \<noteq> None then b\<lparr>br_err := e\<rparr> else b)
   }"

partial_function (option) Peek_loop :: "'r io_Reader \<Rightarrow> 'r bufio_Reader \<Rightarrow> int \<Rightarrow> 'r bufio_Reader option" where
  "Peek_loop rd b n =
     (if br_w b - br_r b < n \<and> br_err b = None then do { b \<leftarrow> fill rd b; Peek_loop rd b n } else Some b)"

definition Peek :: "'r io_Reader \<Rightarrow> 'r bufio_Reader \<Rightarrow> int \<Rightarrow> ('r bufio_Reader \<times> gostring \<times> os_Error option) option" where
  "Peek rd b n =
     (if n < 0 then Some (b, [], Some ErrNegativeCount)
      else if n > int (length (br_buf b)) then Some (b, [], Some ErrBufferFull)
      else do {
        b \<leftarrow> Peek_loop rd b n;
        let m = br_w b - br_r b;
        let m = (if m > n then n else m);
        let err = (if m < n \<and> br_err b = None then Some ErrBufferFull else br_err b);
        t \<leftarrow> go_slice (br_buf b) (br_r b) (br_r b + m);
        Some (b, t, err)
      })"

text \<open>The last steps of \<open>Read\<close>, with bytes in the buffer.\<close>

definition Read_buffered :: "'r bufio_Reader io_Reader" where
  "Read_buffered b p = do {
     let n = int (length p);
     let n = (if n > br_w b - br_r b then br_w b - br_r b else n);
     q \<leftarrow> go_slice p 0 n;
     t \<leftarrow> go_slice (br_buf b) (br_r b) (int (length (br_buf b)));
     (q, _) \<leftarrow> go_copy q 0 t;
     let b = b\<lparr>br_r := br_r b + n\<rparr>;
     c \<leftarrow> go_index (br_buf b) (br_r b - 1);
     Some (nat n, None, q @ drop (length q) p, b\<lparr>br_lastByte := uint c, br_lastRuneSize := -1\<rparr>)
   }"

definition bufio_Read :: "'r io_Reader \<Rightarrow> 'r bufio_Reader io_Reader" where
  "bufio_Read rd b p =
     (if length p = 0 then Some (0, br_err b, p, b)
      else if br_w b = br_r b then
        (if br_err b \<noteq> None then Some (0, br_err b, p, b)
         else if length p \<ge> length (br_buf b) then do {
           (n, e, p, r) \<leftarrow> rd (br_rd b) p;
           let b = b\<lparr>br_rd := r, br_err := e\<rparr>;
           b \<leftarrow> (if n > 0 then do {
               c \<leftarrow> go_index p (int n - 1);
               Some (b\<lparr>br_lastByte := uint c, br_lastRuneSize := -1\<rparr>)
             } else Some b);
           Some (n, br_err b, p, b)
         }
         else do {
           b \<leftarrow> fill rd b;
           (if br_w b = br_r b then Some (0, br_err b, p, b) else Read_buffered b p)
         })
      else Read_buffered b p)"

partial_function (option) ReadByte_loop :: "'r io_Reader \<Rightarrow> 'r bufio_Reader \<Rightarrow> ('r bufio_Reader \<times> byte \<times> os_Error option) option" where
  "ReadByte_loop rd b =
     (if br_w b = br_r b then
        (if br_err b \<noteq> None then Some (b, 0, br_err b) else do { b \<leftarrow> fill rd b; ReadByte_loop rd b })
      else do {
        c \<leftarrow> go_index (br_buf b) (br_r b);
        Some (b\<lparr>br_r := br_r b + 1, br_lastByte := uint c\<rparr>, c, None)
      })"

definition bufio_ReadByte :: "'r io_Reader \<Rightarrow> 'r bufio_Reader \<Rightarrow> ('r bufio_Reader \<times> byte \<times> os_Error option) option" where
  "bufio_ReadByte rd b = ReadByte_loop rd (b\<lparr>br_lastRuneSize := -1\<rparr>)"

definition bufio_UnreadByte :: "'r bufio_Reader \<Rightarrow> ('r bufio_Reader \<times> os_Error option) option" where
  "bufio_UnreadByte b = (let b = b\<lparr>br_lastRuneSize := -1\<rparr> in
     if br_r b = br_w b \<and> br_lastByte b \<ge> 0 then do {
       buf \<leftarrow> go_set (br_buf b) 0 (go_byte (br_lastByte b));
       Some (b\<lparr>br_w := 1, br_r := 0, br_buf := buf, br_lastByte := -1\<rparr>, None)
     }
     else if br_r b \<le> 0 then Some (b, Some ErrInvalidUnreadByte)
     else Some (b\<lparr>br_r := br_r b - 1, br_lastByte := -1\<rparr>, None))"

partial_function (option) ReadRune_loop :: "'r io_Reader \<Rightarrow> 'r bufio_Reader \<Rightarrow> 'r bufio_Reader option" where
  "ReadRune_loop rd b = do {
     enough \<leftarrow> (if br_r b + UTFMax > br_w b then do {
         t \<leftarrow> go_slice (br_buf b) (br_r b) (br_w b);
         Some (FullRune t)
       } else Some True);
     (if \<not> enough \<and> br_err b = None then do { b \<leftarrow> fill rd b; ReadRune_loop rd b } else Some b)
   }"

definition bufio_ReadRune :: "'r io_Reader \<Rightarrow> 'r bufio_Reader \<Rightarrow> ('r bufio_Reader \<times> int \<times> nat \<times> os_Error option) option" where
  "bufio_ReadRune rd b = do {
     b \<leftarrow> ReadRune_loop rd b;
     let b = b\<lparr>br_lastRuneSize := -1\<rparr>;
     (if br_r b = br_w b then Some (b, 0, 0, br_err b)
      else do {
        c \<leftarrow> go_index (br_buf b) (br_r b);
        (rune, sz) \<leftarrow> (if uint c \<ge> 0x80 then do {
            t \<leftarrow> go_slice (br_buf b) (br_r b) (br_w b);
            Some (DecodeRune t)
          } else Some (uint c, 1));
        let b = b\<lparr>br_r := br_r b + int sz\<rparr>;
        c \<leftarrow> go_index (br_buf b) (br_r b - 1);
        Some (b\<lparr>br_lastByte := uint c, br_lastRuneSize := int sz\<rparr>, rune, sz, None)
      })
   }"

definition bufio_UnreadRune :: "'r bufio_Reader \<Rightarrow> 'r bufio_Reader \<times> os_Error option" where
  "bufio_UnreadRune b =
     (if br_lastRuneSize b < 0 \<or> br_r b = 0 then (b, Some ErrInvalidUnreadRune)
      else (b\<lparr>br_r := br_r b - br_lastRuneSize b, br_lastByte := -1, br_lastRuneSize := -1\<rparr>, None))"

definition Buffered :: "'r bufio_Reader \<Rightarrow> int" where
  "Buffered b = br_w b - br_r b"

partial_function (option) ReadSlice_loop :: "'r io_Reader \<Rightarrow> 'r bufio_Reader \<Rightarrow> byte \<Rightarrow>
    ('r bufio_Reader \<times> gostring \<times> os_Error option) option" where
  "ReadSlice_loop rd b delim =
     (if br_err b \<noteq> None then do {
        line \<leftarrow> go_slice (br_buf b) (br_r b) (br_w b);
        Some (b\<lparr>br_r := br_w b\<rparr>, line, br_err b)
      } else do {
        let n = Buffered b;
        b \<leftarrow> fill rd b;
        t \<leftarrow> go_slice (br_buf b) n (br_w b);
        let i = IndexByte t delim;
        (if i \<ge> 0 then do {
           line \<leftarrow> go_slice (br_buf b) 0 (n + i + 1);
           Some (b\<lparr>br_r := n + i + 1\<rparr>, line, None)
         }
         else if Buffered b \<ge> int (length (br_buf b)) then Some (b\<lparr>br_r := br_w b\<rparr>, br_buf b, Some ErrBufferFull)
         else ReadSlice_loop rd b delim)
      })"

definition ReadSlice :: "'r io_Reader \<Rightarrow> 'r bufio_Reader \<Rightarrow> byte \<Rightarrow> ('r bufio_Reader \<times> gostring \<times> os_Error option) option" where
  "ReadSlice rd b delim = do {
     t \<leftarrow> go_slice (br_buf b) (br_r b) (br_w b);
     let i = IndexByte t delim;
     (if i \<ge> 0 then do {
        line \<leftarrow> go_slice (br_buf b) (br_r b) (br_r b + i + 1);
        Some (b\<lparr>br_r := br_r b + i + 1\<rparr>, line, None)
      } else ReadSlice_loop rd b delim)
   }"

partial_function (option) ReadBytes_loop :: "'r io_Reader \<Rightarrow> 'r bufio_Reader \<Rightarrow> byte \<Rightarrow> gostring list \<Rightarrow>
    ('r bufio_Reader \<times> gostring list \<times> gostring \<times> os_Error option) option" where
  "ReadBytes_loop rd b delim full = do {
     (b, frag, e) \<leftarrow> ReadSlice rd b delim;
     (if e = None then Some (b, full, frag, None)
      else if e \<noteq> Some ErrBufferFull then Some (b, full, frag, e)
      else ReadBytes_loop rd b delim (full @ [frag]))
   }"

fun copy_frags :: "gostring \<Rightarrow> nat \<Rightarrow> gostring list \<Rightarrow> (gostring \<times> nat) option" where
  "copy_frags buf n [] = Some (buf, n)"
| "copy_frags buf n (x # xs) = do { (buf, n) \<leftarrow> go_copy buf n x; copy_frags buf n xs }"

definition ReadBytes :: "'r io_Reader \<Rightarrow> 'r bufio_Reader \<Rightarrow> byte \<Rightarrow> ('r bufio_Reader \<times> gostring \<times> os_Error option) option" where
  "ReadBytes rd b delim = do {
     (b, full, frag, err) \<leftarrow> ReadBytes_loop rd b delim [];
     let n = int32 (fold (\<lambda>x n. int32 (n + int (length x))) full 0 + int (length frag));
     buf \<leftarrow> go_make 1 n 0;
     (buf, n) \<leftarrow> copy_frags buf 0 full;
     (buf, _) \<leftarrow> go_copy buf n frag;
     Some (b, buf, err)
   }"

definition ReadString :: "'r io_Reader \<Rightarrow> 'r bufio_Reader \<Rightarrow> byte \<Rightarrow> ('r bufio_Reader \<times> gostring \<times> os_Error option) option" where
  "ReadString rd b delim = ReadBytes rd b delim"

section \<open>The bytes to come\<close>

text \<open>The bytes \<open>b.buf[b.r:b.w]\<close>, and with them those of the underlying reader.\<close>

definition buffered :: "'r bufio_Reader \<Rightarrow> gostring" where
  "buffered b = slice (nat (br_r b)) (nat (br_w b)) (br_buf b)"

definition unread :: "('r \<Rightarrow> gostring) \<Rightarrow> 'r bufio_Reader \<Rightarrow> gostring" where
  "unread stream b = buffered b @ stream (br_rd b)"

definition bufio_ok :: "('r \<Rightarrow> gostring) \<Rightarrow> ('r \<Rightarrow> bool) \<Rightarrow> 'r bufio_Reader \<Rightarrow> bool" where
  "bufio_ok stream rinv b \<longleftrightarrow> 0 \<le> br_r b \<and> br_r b \<le> br_w b \<and> br_w b \<le> int (length (br_buf b)) \<and>
     0 < length (br_buf b) \<and> rinv (br_rd b) \<and>
     (br_err b = None \<or> br_err b = Some EOF \<and> stream (br_rd b) = [])"

text \<open>What is left for a loop that fills the buffer.\<close>

definition todo :: "('r \<Rightarrow> gostring) \<Rightarrow> 'r bufio_Reader \<Rightarrow> nat" where
  "todo stream b = (if br_err b = None then Suc (length (stream (br_rd b))) else 0)"

lemma bufio_okE:
  assumes "bufio_ok stream rinv b"
  obtains r w where "br_r b = int r" "br_w b = int w" "r \<le> w" "w \<le> length (br_buf b)" "0 < length (br_buf b)" "rinv (br_rd b)"
    "br_err b = None \<or> br_err b = Some EOF \<and> stream (br_rd b) = []" "buffered b = slice r w (br_buf b)" "length (buffered b) = w - r"
  using assms that [of "nat (br_r b)" "nat (br_w b)"] by (auto simp: bufio_ok_def buffered_def)

lemma bufio_okD:
  assumes "bufio_ok stream rinv b"
  shows "0 < length (br_buf b)" "rinv (br_rd b)" "br_err b = None \<or> br_err b = Some EOF \<and> stream (br_rd b) = []"
    "int (length (buffered b)) = br_w b - br_r b" "go_slice (br_buf b) (br_r b) (br_w b) = Some (buffered b)"
    "buffered b = [] \<longleftrightarrow> br_w b = br_r b"
  using assms by (elim bufio_okE; simp; auto)+

lemma bufio_last [simp]:
  "bufio_ok stream rinv (b\<lparr>br_lastRuneSize := x\<rparr>) = bufio_ok stream rinv b" "unread stream (b\<lparr>br_lastRuneSize := x\<rparr>) = unread stream b"
  "bufio_ok stream rinv (b\<lparr>br_lastByte := x\<rparr>) = bufio_ok stream rinv b" "unread stream (b\<lparr>br_lastByte := x\<rparr>) = unread stream b"
  "buffered (b\<lparr>br_lastRuneSize := x\<rparr>) = buffered b" "buffered (b\<lparr>br_lastByte := x\<rparr>) = buffered b"
  by (simp_all add: bufio_ok_def unread_def buffered_def)

lemma bufio_advance:
  assumes "bufio_ok stream rinv b" "k \<le> length (buffered b)"
  shows "bufio_ok stream rinv (b\<lparr>br_r := br_r b + int k\<rparr>)" "unread stream (b\<lparr>br_r := br_r b + int k\<rparr>) = drop k (unread stream b)"
    "buffered (b\<lparr>br_r := br_r b + int k\<rparr>) = drop k (buffered b)"
proof -
  obtain r w where rw: "br_r b = int r" "br_w b = int w" "r \<le> w" "w \<le> length (br_buf b)" "length (buffered b) = w - r"
    using assms(1) by (rule bufio_okE)
  show "bufio_ok stream rinv (b\<lparr>br_r := br_r b + int k\<rparr>)" using assms rw by (auto simp: bufio_ok_def)
  show d: "buffered (b\<lparr>br_r := br_r b + int k\<rparr>) = drop k (buffered b)"
    by (simp add: buffered_def rw slice_def drop_take nat_add_distrib add.commute)
  show "unread stream (b\<lparr>br_r := br_r b + int k\<rparr>) = drop k (unread stream b)"
    using assms(2) d by (simp add: unread_def)
qed

lemma UnreadByte_restores:
  assumes "bufio_ok stream rinv b" "0 < br_r b" "go_index (br_buf b) (br_r b - 1) = Some c" "br_lastByte b = uint c"
  shows "\<exists>b'. bufio_UnreadByte b = Some (b', None) \<and> bufio_ok stream rinv b' \<and> unread stream b' = c # unread stream b"
proof (cases "br_r b = br_w b")
  case True
  have ne: "0 < length (br_buf b)" using bufio_okD(1) [OF assms(1)] .
  then have "go_set (br_buf b) 0 c = Some ((br_buf b)[0 := c])" by (simp add: go_set_def)
  then show ?thesis using True assms ne
    by (cases "br_buf b") (auto simp: bufio_UnreadByte_def go_byte_uint bufio_ok_def unread_def buffered_def slice_def)
next
  case False
  obtain r w where rw: "br_r b = int r" "br_w b = int w" "r \<le> w" "w \<le> length (br_buf b)"
    using assms(1) by (rule bufio_okE)
  obtain k where k: "r = Suc k" using assms(2) rw(1) by (cases r) auto
  have kl: "k < length (br_buf b)" using rw k by linarith
  then have c: "br_buf b ! k = c" using assms(3) rw(1) k by (simp add: go_index_def)
  then have "slice k w (br_buf b) = c # slice (Suc k) w (br_buf b)"
    using kl k rw(3) by (simp add: slice_def Cons_nth_drop_Suc [symmetric] take_Cons' Suc_diff_le)
  then show ?thesis using False assms(1) k rw
    by (auto simp: bufio_UnreadByte_def Let_def bufio_ok_def unread_def buffered_def nat_add_distrib)
qed

text \<open>A reader whose \<open>Read\<close> of an empty slice reports the end only at the end.\<close>

locale strict_reader = live_reader +
  assumes read_zero: "rinv r \<Longrightarrow> rd r [] = Some (n, Some e, p', r') \<Longrightarrow> stream r' = []"

context live_reader
begin

lemma fill_gen:
  assumes ok: "bufio_ok stream rinv b" and err: "br_err b = None"
    and zero: "\<And>n e p' r'. length (buffered b) = length (br_buf b) \<Longrightarrow> rd (br_rd b) [] = Some (n, Some e, p', r') \<Longrightarrow> stream r' = []"
  shows "\<exists>b' d. fill rd b = Some b' \<and> bufio_ok stream rinv b' \<and> unread stream b' = unread stream b \<and> br_r b' = 0 \<and>
    length (br_buf b') = length (br_buf b) \<and> buffered b' = buffered b @ d \<and>
    (br_err b' = None \<and> length (buffered b) < length (br_buf b) \<longrightarrow> length (stream (br_rd b')) < length (stream (br_rd b)))"
proof -
  obtain r w where o: "br_r b = int r" "br_w b = int w" "r \<le> w" "w \<le> length (br_buf b)" "0 < length (br_buf b)" "rinv (br_rd b)"
    "buffered b = slice r w (br_buf b)" "length (buffered b) = w - r" using ok by (rule bufio_okE)
  define k where "k = w - r"
  define b1 where "b1 = (if br_r b > 0 then
    b\<lparr>br_buf := buffered b @ drop k (br_buf b), br_w := int k, br_r := 0\<rparr> else b)"
  have kl: "k \<le> length (br_buf b)" using o by (simp add: k_def)
  have cp: "go_copy (br_buf b) 0 (buffered b) = Some (buffered b @ drop k (br_buf b), k)"
    using o(4,8) by (subst go_copy_eq) (simp_all add: k_def)
  have s1: "(if br_r b > 0 then do { t \<leftarrow> go_slice (br_buf b) (br_r b) (br_w b); (buf, _) \<leftarrow> go_copy (br_buf b) 0 t;
       Some (b\<lparr>br_buf := buf, br_w := br_w b - br_r b, br_r := 0\<rparr>) } else Some b) = Some b1"
    using o(1-4) bufio_okD(5) [OF ok] cp by (simp add: b1_def k_def of_nat_diff)
  have b1: "br_r b1 = 0" "br_w b1 = int k" "length (br_buf b1) = length (br_buf b)" "take k (br_buf b1) = buffered b"
    "br_rd b1 = br_rd b" "br_err b1 = None"
    using o err by (auto simp: b1_def k_def)
  let ?p = "drop k (br_buf b1)"
  obtain n e p r' where rd: "rd (br_rd b) ?p = Some (n, e, p, r')" "rinv r'" "n \<le> length ?p" "length p = length ?p"
    "stream (br_rd b) = take n p @ stream r'" "e = None \<or> e = Some EOF" "?p \<noteq> [] \<Longrightarrow> e \<noteq> None \<Longrightarrow> stream r' = []"
    "?p \<noteq> [] \<Longrightarrow> e = None \<Longrightarrow> 0 < n" using read_cases [OF o(6), of ?p] by metis
  define b2 where "b2 = b1\<lparr>br_buf := buffered b @ p, br_rd := r', br_w := int k + int n\<rparr>"
  have sl: "slice k (length (br_buf b)) (br_buf b1) = ?p" unfolding b1(3) [symmetric] by simp
  have f: "fill rd b = Some (if e \<noteq> None then b2\<lparr>br_err := e\<rparr> else b2)"
    unfolding fill_def s1 Option.bind.simps b1 using kl b1(3) rd(1) by (simp add: b2_def b1 sl Let_def)
  have pl: "length p = length (br_buf b) - k" using rd(4) b1(3) by simp
  have b2: "br_r b2 = 0" "br_w b2 = int (k + n)" "length (br_buf b2) = length (br_buf b)" "br_rd b2 = r'" "br_err b2 = None"
    using pl kl by (simp_all add: b2_def b1 o(8) k_def [symmetric])
  have bf: "buffered (b2\<lparr>br_err := x\<rparr>) = buffered b @ take n p" "buffered b2 = buffered b @ take n p" for x
  proof -
    have "br_buf b2 = buffered b @ p" by (simp add: b2_def)
    then have "slice (nat (br_r b2)) (nat (br_w b2)) (br_buf b2) = buffered b @ take n p"
      unfolding b2(1,2) nat_int using o(8) by (simp add: k_def [symmetric])
    then show "buffered (b2\<lparr>br_err := x\<rparr>) = buffered b @ take n p" "buffered b2 = buffered b @ take n p"
      unfolding buffered_def [of b2] buffered_def [of "b2\<lparr>br_err := x\<rparr>"] by simp_all
  qed
  have z: "stream r' = []" if "e \<noteq> None"
  proof (cases "?p = []")
    case True
    then have "k = length (br_buf b)" using b1(3) kl by simp
    then have "length (buffered b) = length (br_buf b)" using o(8) by (simp add: k_def)
    then show ?thesis using zero rd(1) that True by (cases e) auto
  qed (use rd(7) that in blast)
  have pr: "0 < n" if "e = None" "length (buffered b) < length (br_buf b)"
    using rd(8) that o(8) b1(3) by (simp add: k_def)
  have nk: "k + n \<le> length (br_buf b)" using rd(3) b1(3) kl by simp
  have dec: "e = None \<Longrightarrow> length (buffered b) < length (br_buf b) \<Longrightarrow> length (stream r') < length (stream (br_rd b))"
    using pr rd(3,4,5) by simp
  have "bufio_ok stream rinv b2" using b2 nk o(5) rd(2) by (simp add: bufio_ok_def)
  moreover have "bufio_ok stream rinv (b2\<lparr>br_err := e\<rparr>)" if "e \<noteq> None"
    using b2 nk o(5) rd(2,6) z [OF that] by (simp add: bufio_ok_def)
  ultimately show ?thesis unfolding f using b2 bf rd(5) dec by (cases e) (auto simp: unread_def)
qed

lemma fill_spec:
  assumes "bufio_ok stream rinv b" "br_err b = None" "length (buffered b) < length (br_buf b)"
  obtains b' d where "fill rd b = Some b'" "bufio_ok stream rinv b'" "unread stream b' = unread stream b" "br_r b' = 0"
    "length (br_buf b') = length (br_buf b)" "buffered b' = buffered b @ d" "todo stream b' < todo stream b"
proof -
  from fill_gen [OF assms(1,2)] assms(3) obtain b' d where b': "fill rd b = Some b'" "bufio_ok stream rinv b'"
    "unread stream b' = unread stream b" "br_r b' = 0" "length (br_buf b') = length (br_buf b)" "buffered b' = buffered b @ d"
    "br_err b' = None \<longrightarrow> length (stream (br_rd b')) < length (stream (br_rd b))" by auto
  then have "todo stream b' < todo stream b" using assms(2) by (auto simp: todo_def)
  with b' that show ?thesis by blast
qed

lemma unread_err: "bufio_ok stream rinv b \<Longrightarrow> br_err b \<noteq> None \<Longrightarrow> unread stream b = buffered b \<and> br_err b = Some EOF"
  by (auto simp: bufio_ok_def unread_def)

lemma ReadByte_loop_spec:
  assumes "bufio_ok stream rinv b"
  shows "\<exists>b'. ReadByte_loop rd b = Some (b', if unread stream b = [] then 0 else hd (unread stream b), at_end (unread stream b)) \<and>
    bufio_ok stream rinv b' \<and> unread stream b' = drop 1 (unread stream b) \<and> length (br_buf b') = length (br_buf b) \<and>
    (unread stream b \<noteq> [] \<longrightarrow> 0 < br_r b' \<and> go_index (br_buf b') (br_r b' - 1) = Some (hd (unread stream b)) \<and>
      br_lastByte b' = uint (hd (unread stream b)))"
  using assms
proof (induction "todo stream b" arbitrary: b rule: less_induct)
  case less
  obtain r w where o: "br_r b = int r" "br_w b = int w" "r \<le> w" "w \<le> length (br_buf b)" "0 < length (br_buf b)"
    "buffered b = slice r w (br_buf b)" "length (buffered b) = w - r" using less.prems by (rule bufio_okE)
  note E = bufio_okD(6) [OF less.prems]
  show ?case
  proof (cases "br_w b = br_r b")
    case False
    then obtain c t where ct: "buffered b = c # t" using E by (cases "buffered b") auto
    have "buffered b ! 0 = br_buf b ! r" using False o by (simp add: slice_def)
    then have i: "go_index (br_buf b) (br_r b) = Some c" using ct False o by simp
    have a: "1 \<le> length (buffered b)" using ct by simp
    show ?thesis
      using False i ct bufio_advance [OF less.prems a] o(1)
      by (subst ReadByte_loop.simps) (simp add: unread_def at_end_def)
  next
    case True
    show ?thesis
    proof (cases "br_err b")
      case (Some e)
      then have "unread stream b = []" "e = EOF" using True unread_err [OF less.prems] E by auto
      then show ?thesis using True Some less.prems by (subst ReadByte_loop.simps) (simp add: at_end_def)
    next
      case None
      have room: "length (buffered b) < length (br_buf b)" using True E o(5) by simp
      obtain b1 d where f: "fill rd b = Some b1" "bufio_ok stream rinv b1" "unread stream b1 = unread stream b"
        "length (br_buf b1) = length (br_buf b)" "todo stream b1 < todo stream b" using fill_spec [OF less.prems None room] .
      have "ReadByte_loop rd b = ReadByte_loop rd b1" using True None f(1) by (subst ReadByte_loop.simps) simp
      then show ?thesis using less.hyps [OF f(5) f(2), unfolded f(3,4)] by simp
    qed
  qed
qed

lemma bufio_ReadByte_spec:
  assumes "bufio_ok stream rinv b"
  shows "\<exists>b'. bufio_ReadByte rd b = Some (b', if unread stream b = [] then 0 else hd (unread stream b), at_end (unread stream b)) \<and>
    bufio_ok stream rinv b' \<and> unread stream b' = drop 1 (unread stream b) \<and>
    (unread stream b \<noteq> [] \<longrightarrow> (\<exists>b2. bufio_UnreadByte b' = Some (b2, None) \<and> bufio_ok stream rinv b2 \<and> unread stream b2 = unread stream b))"
proof -
  from ReadByte_loop_spec [of "b\<lparr>br_lastRuneSize := -1\<rparr>"] assms obtain b' where
    b': "bufio_ReadByte rd b = Some (b', if unread stream b = [] then 0 else hd (unread stream b), at_end (unread stream b))"
      "bufio_ok stream rinv b'" "unread stream b' = drop 1 (unread stream b)"
      "unread stream b \<noteq> [] \<longrightarrow> 0 < br_r b' \<and> go_index (br_buf b') (br_r b' - 1) = Some (hd (unread stream b)) \<and> br_lastByte b' = uint (hd (unread stream b))"
    by (auto simp: bufio_ReadByte_def)
  moreover have "\<exists>b2. bufio_UnreadByte b' = Some (b2, None) \<and> bufio_ok stream rinv b2 \<and> unread stream b2 = unread stream b" if "unread stream b \<noteq> []"
    using UnreadByte_restores [OF b'(2), of "hd (unread stream b)"] b'(3,4) that by (simp add: drop_Suc)
  ultimately show ?thesis by blast
qed

lemma ReadRune_loop_spec:
  assumes "bufio_ok stream rinv b" "4 \<le> length (br_buf b)"
  shows "\<exists>b'. ReadRune_loop rd b = Some b' \<and> bufio_ok stream rinv b' \<and> unread stream b' = unread stream b \<and>
    (4 \<le> length (buffered b') \<or> FullRune (buffered b') \<or> br_err b' \<noteq> None)"
  using assms
proof (induction "todo stream b" arbitrary: b rule: less_induct)
  case less
  note o = bufio_okD [OF less.prems(1)]
  let ?enough = "4 \<le> length (buffered b) \<or> FullRune (buffered b)"
  have "(if br_r b + UTFMax > br_w b then do { t \<leftarrow> go_slice (br_buf b) (br_r b) (br_w b); Some (FullRune t) } else Some True) =
      Some ?enough" using o(4,5) by (auto simp: UTFMax_def)
  then have unf: "ReadRune_loop rd b = (if \<not> ?enough \<and> br_err b = None then do { b \<leftarrow> fill rd b; ReadRune_loop rd b } else Some b)"
    by (subst ReadRune_loop.simps) simp
  show ?case
  proof (cases "\<not> ?enough \<and> br_err b = None")
    case True
    then have "length (buffered b) < length (br_buf b)" using less.prems(2) by simp
    from fill_spec [OF less.prems(1) conjunct2 [OF True] this] obtain b1 where
      f: "fill rd b = Some b1" "bufio_ok stream rinv b1" "unread stream b1 = unread stream b"
      "length (br_buf b1) = length (br_buf b)" "todo stream b1 < todo stream b" by metis
    have "ReadRune_loop rd b = ReadRune_loop rd b1" using True unf f(1) by simp
    then show ?thesis using less.hyps [OF f(5,2)] f(3,4) less.prems(2) by simp
  next
    case False
    then show ?thesis using less.prems(1) unf by auto
  qed
qed

lemma DecodeRune_prefix: "4 \<le> length p \<or> FullRune p \<Longrightarrow> p \<noteq> [] \<Longrightarrow> DecodeRune (p @ q) = DecodeRune p"
proof (elim disjE)
  assume "FullRune p" then show "DecodeRune (p @ q) = DecodeRune p"
    using decodeRuneInternal_append [of p _ _ q] by (auto simp: FullRune_def DecodeRune_def split: prod.splits)
next
  assume p: "4 \<le> length p" "p \<noteq> []"
  have "snd (DecodeRune (p @ q)) \<le> length p" using p(1) DecodeRune_size(1) [of "p @ q" "fst (DecodeRune (p @ q))" "snd (DecodeRune (p @ q))"] by simp
  from DecodeRune_take [OF this] p(2) show "DecodeRune (p @ q) = DecodeRune p" by simp
qed

lemma bufio_ReadRune_spec:
  assumes "bufio_ok stream rinv b" "4 \<le> length (br_buf b)"
  defines "u \<equiv> unread stream b"
  shows "\<exists>b'. bufio_ReadRune rd b = Some (b', if u = [] then 0 else fst (DecodeRune u), snd (DecodeRune u), at_end u) \<and>
    bufio_ok stream rinv b' \<and> unread stream b' = drop (snd (DecodeRune u)) u \<and>
    (u \<noteq> [] \<longrightarrow> (\<exists>b2. bufio_UnreadRune b' = (b2, None) \<and> bufio_ok stream rinv b2 \<and> unread stream b2 = u))"
proof -
  from ReadRune_loop_spec [OF assms(1,2)] obtain b1 where
    b1: "ReadRune_loop rd b = Some b1" "bufio_ok stream rinv b1" "unread stream b1 = u"
      "4 \<le> length (buffered b1) \<or> FullRune (buffered b1) \<or> br_err b1 \<noteq> None" by (auto simp: u_def)
  obtain r w where o: "br_r b1 = int r" "br_w b1 = int w" "r \<le> w" "w \<le> length (br_buf b1)" "buffered b1 = slice r w (br_buf b1)"
    "length (buffered b1) = w - r" using b1(2) by (rule bufio_okE)
  show ?thesis
  proof (cases "buffered b1 = []")
    case True
    have "\<not> FullRune []" by code_simp
    then have "br_err b1 = Some EOF" "u = []" using b1(3,4) True unread_err [OF b1(2)] by auto
    moreover have "DecodeRune [] = (RuneError, 0)" by (simp add: DecodeRune_unfold)
    ultimately show ?thesis using b1 True bufio_okD(6) [OF b1(2)] by (simp add: bufio_ReadRune_def at_end_def)
  next
    case False
    have d: "DecodeRune u = DecodeRune (buffered b1)"
      using DecodeRune_prefix [OF _ False, of "stream (br_rd b1)"] b1(3,4) unread_err [OF b1(2)] by (auto simp: unread_def)
    obtain rn n where rn: "DecodeRune (buffered b1) = (rn, n)" by fastforce
    note sz = DecodeRune_size [OF rn]
    have "0 < length (buffered b1)" using False by simp
    then have lt: "r < w" "u \<noteq> []" using False o(6) b1(3) by (auto simp: unread_def)
    let ?c = "br_buf b1 ! r"
    have "buffered b1 ! 0 = ?c" using lt(1) o by simp
    then have asc: "uint ?c < 0x80 \<Longrightarrow> (rn, n) = (uint ?c, 1)"
      unfolding rn [symmetric] using False by (simp add: DecodeRune_unfold Let_def word_less_def)
    have n: "0 < n" "n \<le> length (buffered b1)" using sz False by simp_all
    have i: "go_index (br_buf b1) (int r + int n - 1) = Some (br_buf b1 ! (r + n - 1))"
      using n o(3,4,6) go_index_nat [of "br_buf b1" "r + n - 1"] by (simp add: of_nat_diff)
    let ?b = "b1\<lparr>br_r := br_r b1 + int n\<rparr>"
    let ?b' = "?b\<lparr>br_lastByte := uint (br_buf b1 ! (r + n - 1)), br_lastRuneSize := int n\<rparr>"
    have "bufio_ReadRune rd b = Some (?b', rn, n, None)"
      using b1(1) lt(1) o(1-4) rn [unfolded o(5)] asc i by (cases "0x80 \<le> uint ?c") (auto simp: bufio_ReadRune_def Let_def)
    moreover have "bufio_UnreadRune ?b' = (b1\<lparr>br_lastByte := -1, br_lastRuneSize := -1\<rparr>, None)"
      using n(1) o(1) by (simp add: bufio_UnreadRune_def)
    ultimately show ?thesis using d rn lt(2) b1(2,3) bufio_advance(1,2) [OF b1(2) n(2)] by (simp add: at_end_def)
  qed
qed

lemma Read_buffered_spec:
  assumes "bufio_ok stream rinv b" "buffered b \<noteq> []" "p \<noteq> []"
  shows "\<exists>n p' b'. Read_buffered b p = Some (n, None, p', b') \<and> bufio_ok stream rinv b' \<and> n \<le> length p \<and> length p' = length p \<and>
    unread stream b = take n p' @ unread stream b' \<and> 0 < n"
proof -
  obtain r w where o: "br_r b = int r" "br_w b = int w" "r \<le> w" "w \<le> length (br_buf b)" "buffered b = slice r w (br_buf b)"
    "length (buffered b) = w - r" using assms(1) by (rule bufio_okE)
  define n where "n = min (length p) (w - r)"
  have "0 < length (buffered b)" using assms(2) by simp
  then have n: "0 < n" "n \<le> length p" "n \<le> w - r" "n \<le> length (buffered b)" using assms(3) o(6) by (auto simp: n_def)
  have nn: "(if int (length p) > br_w b - br_r b then br_w b - br_r b else int (length p)) = int n"
    using o(1-3) by (auto simp: n_def)
  have d: "take n (drop r (br_buf b)) = take n (buffered b)" using n(3) o(5) by (simp add: slice_def min_absorb1)
  have cp: "go_copy (take n p) 0 (drop r (br_buf b)) = Some (take n (buffered b), n)"
    using n o(4) d by (simp add: go_copy_def Let_def min_absorb1)
  have i: "go_index (br_buf b) (int r + int n - 1) = Some (br_buf b ! (r + n - 1))"
    using n o(3,4) go_index_nat [of "br_buf b" "r + n - 1"] by (simp add: of_nat_diff)
  have s: "go_slice p 0 (int n) = Some (take n p)" "go_slice (br_buf b) (int r) (int (length (br_buf b))) = Some (drop r (br_buf b))"
    using n(2) o(3,4) by (simp_all add: go_slice_def)
  have "Read_buffered b p = Some (n, None, take n (buffered b) @ drop n p,
      b\<lparr>br_r := br_r b + int n, br_lastByte := uint (br_buf b ! (r + n - 1)), br_lastRuneSize := -1\<rparr>)"
    unfolding Read_buffered_def Let_def nn using s cp i o(1) n(4) by (simp add: min_absorb2)
  moreover have "take n (unread stream b) = take n (buffered b)" using n(4) by (simp add: unread_def)
  ultimately show ?thesis
    using n bufio_advance(1,2) [OF assms(1) n(4)] append_take_drop_id [of n "unread stream b"] by (auto simp: min_absorb2)
qed

lemma bufio_Read_spec:
  assumes ok: "bufio_ok stream rinv b"
  shows "\<exists>n e p' b'. bufio_Read rd b p = Some (n, e, p', b') \<and> bufio_ok stream rinv b' \<and> n \<le> length p \<and> length p' = length p \<and>
    unread stream b = take n p' @ unread stream b' \<and> (e = None \<or> e = Some EOF) \<and>
    (p \<noteq> [] \<longrightarrow> (e = Some EOF \<longrightarrow> unread stream b' = []) \<and> (e = None \<longrightarrow> 0 < n))"
proof -
  note o = bufio_okD [OF ok]
  consider (zero) "p = []" | (data) "p \<noteq> []" "br_w b \<noteq> br_r b" | (err) "p \<noteq> []" "br_w b = br_r b" "br_err b \<noteq> None"
    | (big) "p \<noteq> []" "br_w b = br_r b" "br_err b = None" "length (br_buf b) \<le> length p"
    | (small) "p \<noteq> []" "br_w b = br_r b" "br_err b = None" "length p < length (br_buf b)" by fastforce
  then show ?thesis
  proof cases
    case zero
    then show ?thesis using ok o(3) by (auto simp: bufio_Read_def)
  next
    case data
    then have "bufio_Read rd b p = Read_buffered b p" "buffered b \<noteq> []" using o(6) by (simp_all add: bufio_Read_def)
    then show ?thesis using Read_buffered_spec [OF ok _ data(1)] by auto
  next
    case err
    then have "unread stream b = []" "br_err b = Some EOF" using unread_err [OF ok err(3)] o(6) by simp_all
    then show ?thesis using ok err by (auto simp: bufio_Read_def)
  next
    case big
    obtain n e p' r' where rd: "rd (br_rd b) p = Some (n, e, p', r')" "rinv r'" "n \<le> length p" "length p' = length p"
      "stream (br_rd b) = take n p' @ stream r'" "e = None \<or> e = Some EOF" "e \<noteq> None \<Longrightarrow> stream r' = []" "e = None \<Longrightarrow> 0 < n"
      using read_cases [OF o(2), of p] big(1) by metis
    have i: "0 < n \<Longrightarrow> go_index p' (int n - 1) = Some (p' ! (n - 1))"
      using rd(3,4) go_index_nat [of p' "n - 1"] by (simp add: of_nat_diff)
    let ?b = "b\<lparr>br_rd := r', br_err := e\<rparr>"
    have ok': "bufio_ok stream rinv ?b" using ok rd(2,6,7) by (auto simp: bufio_ok_def)
    have u: "unread stream ?b = stream r'" "unread stream b = stream (br_rd b)"
      using big(2) by (simp_all add: unread_def buffered_def)
    have "bufio_Read rd b p = Some (n, e, p', if 0 < n then ?b\<lparr>br_lastByte := uint (p' ! (n - 1)), br_lastRuneSize := -1\<rparr> else ?b)"
      using big rd(1) i by (auto simp: bufio_Read_def)
    then show ?thesis using ok' rd(3-8) u by (cases "0 < n") auto
  next
    case small
    have "length (buffered b) < length (br_buf b)" using small(2) o(1,6) by simp
    from fill_spec [OF ok small(3) this] obtain b1 d where f: "fill rd b = Some b1" "bufio_ok stream rinv b1"
      "unread stream b1 = unread stream b" "buffered b1 = buffered b @ d" "todo stream b1 < todo stream b" by metis
    show ?thesis
    proof (cases "br_w b1 = br_r b1")
      case True
      then have e: "buffered b1 = []" "buffered b = []" using bufio_okD(6) [OF f(2)] f(4) by simp_all
      have m: "br_err b1 \<noteq> None" using f(3,5) small(3) e by (cases "br_err b1") (auto simp: todo_def unread_def)
      have "bufio_Read rd b p = Some (0, br_err b1, p, b1)" using small True f(1) by (simp add: bufio_Read_def)
      then show ?thesis using f(2,3) unread_err [OF f(2) m] e(1) by auto
    next
      case False
      then have "bufio_Read rd b p = Read_buffered b1 p" "buffered b1 \<noteq> []"
        using small f(1) bufio_okD(6) [OF f(2)] by (simp_all add: bufio_Read_def)
      then show ?thesis using Read_buffered_spec [OF f(2) _ small(1)] f(3) by auto
    qed
  qed
qed

lemma bufio_Read_live: "live_reader (bufio_Read rd) (unread stream) (bufio_ok stream rinv)"
proof
  fix r p n e p' r'
  assume "bufio_ok stream rinv r" "bufio_Read rd r p = Some (n, e, p', r')"
  with bufio_Read_spec [of r p] show "bufio_ok stream rinv r'" "n \<le> length p \<and> length p' = length p"
    "unread stream r = take n p' @ unread stream r'" by auto
next
  fix r and p :: gostring and n p' r'
  assume "bufio_ok stream rinv r" "bufio_Read rd r p = Some (n, Some EOF, p', r')" "p \<noteq> []"
  with bufio_Read_spec [of r p] show "unread stream r' = []" by auto
next
  fix r p
  assume "bufio_ok stream rinv r"
  from bufio_Read_spec [OF this, of p] show "\<exists>n e p' r'. bufio_Read rd r p = Some (n, e, p', r')" by blast
next
  fix r p n e p' r'
  assume "bufio_ok stream rinv r" "bufio_Read rd r p = Some (n, Some e, p', r')"
  with bufio_Read_spec [of r p] show "e = EOF" by auto
next
  fix r and p :: gostring and n p' r'
  assume "bufio_ok stream rinv r" "bufio_Read rd r p = Some (n, None, p', r')" "p \<noteq> []"
  with bufio_Read_spec [of r p] show "0 < n" by auto
qed

end

section \<open>Reading up to a delimiter\<close>

lemma until_delim_append: "c \<notin> set p \<Longrightarrow> until_delim c (p @ q) = length p + until_delim c q"
  by (induction p) (auto simp: until_delim_def)

lemma until_delim_in: "c \<in> set p \<Longrightarrow> until_delim c (p @ q) = until_delim c p"
  by (simp add: until_delim_def takeWhile_append1)

lemma until_delim_pos: "c \<in> set p \<Longrightarrow> int (until_delim c p) - 1 \<ge> 0"
  by (simp add: until_delim_def)

context strict_reader
begin

text \<open>The three outcomes of \<open>ReadSlice\<close>: the delimiter, the end, a full buffer.\<close>

definition slice_res :: "byte \<Rightarrow> gostring \<Rightarrow> nat \<Rightarrow> 'a bufio_Reader \<times> gostring \<times> os_Error option \<Rightarrow> bool" where
  "slice_res c u n res \<longleftrightarrow> (case res of (b', line, e) \<Rightarrow>
     bufio_ok stream rinv b' \<and> length (br_buf b') = n \<and> u = line @ unread stream b' \<and>
     (e = None \<and> c \<in> set u \<and> length line = until_delim c u \<or>
      e = Some EOF \<and> c \<notin> set u \<and> unread stream b' = [] \<or>
      e = Some ErrBufferFull \<and> c \<notin> set line \<and> length line = n))"

lemma ReadSlice_loop_spec:
  assumes "bufio_ok stream rinv b" "c \<notin> set (buffered b)"
  shows "\<exists>res. ReadSlice_loop rd b c = Some res \<and> slice_res c (unread stream b) (length (br_buf b)) res"
  using assms
proof (induction "todo stream b" arbitrary: b rule: less_induct)
  case less
  note o = bufio_okD [OF less.prems(1)]
  show ?case
  proof (cases "br_err b")
    case (Some e)
    then have u: "unread stream b = buffered b" "e = EOF" using unread_err [OF less.prems(1)] by simp_all
    have "br_w b = br_r b + int (length (buffered b))" using o(4) by simp
    then have "bufio_ok stream rinv (b\<lparr>br_r := br_w b\<rparr>)" "unread stream (b\<lparr>br_r := br_w b\<rparr>) = []"
      using bufio_advance [OF less.prems(1), of "length (buffered b)"] u(1) by simp_all
    moreover have "ReadSlice_loop rd b c = Some (b\<lparr>br_r := br_w b\<rparr>, buffered b, Some EOF)"
      using Some u(2) o(5) by (subst ReadSlice_loop.simps) simp
    ultimately show ?thesis using u(1) less.prems(2) by (auto simp: slice_res_def)
  next
    case None
    let ?n = "length (buffered b)"
    from fill_gen [OF less.prems(1) None] read_zero [OF o(2)] obtain b1 d where
      f: "fill rd b = Some b1" "bufio_ok stream rinv b1" "unread stream b1 = unread stream b" "br_r b1 = 0"
        "length (br_buf b1) = length (br_buf b)" "buffered b1 = buffered b @ d"
        "br_err b1 = None \<and> ?n < length (br_buf b) \<longrightarrow> length (stream (br_rd b1)) < length (stream (br_rd b))" by blast
    obtain w where o': "br_w b1 = int w" "w \<le> length (br_buf b1)" "buffered b1 = take w (br_buf b1)" "length (buffered b1) = w"
      using f(2,4) by (elim bufio_okE) (simp add: slice_def)
    have w: "w = ?n + length d" using o'(4) f(6) by simp
    have t: "take w (br_buf b1) = buffered b @ d" using o'(3) f(6) by simp
    then have "drop ?n (take w (br_buf b1)) = d" by simp
    then have new: "slice ?n w (br_buf b1) = d" by (simp add: slice_def drop_take)
    have bb: "Buffered b = int ?n" "Buffered b1 = int w" using o(4) f(4) o'(1) by (simp_all add: Buffered_def)
    have dt: "go_slice (br_buf b1) (int ?n) (br_w b1) = Some d"
      unfolding o'(1) go_slice_nat using w o'(2) new by simp
    let ?i = "IndexByte d c"
    have unf: "ReadSlice_loop rd b c =
        (if ?i \<ge> 0 then do { line \<leftarrow> go_slice (br_buf b1) 0 (int ?n + ?i + 1); Some (b1\<lparr>br_r := int ?n + ?i + 1\<rparr>, line, None) }
         else if int w \<ge> int (length (br_buf b1)) then Some (b1\<lparr>br_r := br_w b1\<rparr>, br_buf b1, Some ErrBufferFull)
         else ReadSlice_loop rd b1 c)"
      unfolding ReadSlice_loop.simps [of rd b] Let_def bb(1) f(1) Option.bind.simps dt bb(2) using None by simp
    have un: "unread stream b = buffered b @ d @ stream (br_rd b1)" using f(3,6) by (simp add: unread_def)
    show ?thesis
    proof (cases "c \<in> set d")
      case True
      let ?k = "until_delim c d"
      have k: "?k \<le> length d" "0 < ?k" using until_delim_le [of c d] True by (simp_all add: until_delim_def)
      have i: "?i = int ?k - 1" using True by (simp add: IndexByte_until)
      then have j: "int ?n + ?i + 1 = int (?n + ?k)" "?i \<ge> 0" using k by simp_all
      have sl: "go_slice (br_buf b1) 0 (int (?n + ?k)) = Some (take (?n + ?k) (br_buf b1))"
        using k w o'(2) go_slice_nat [of "br_buf b1" 0 "?n + ?k"] by simp
      have "bufio_ok stream rinv (b1\<lparr>br_r := int (?n + ?k)\<rparr>)" "unread stream (b1\<lparr>br_r := int (?n + ?k)\<rparr>) = drop (?n + ?k) (unread stream b)"
        using bufio_advance [OF f(2), of "?n + ?k"] f(3,4,6) k by simp_all
      moreover have "take (?n + ?k) (br_buf b1) = take (?n + ?k) (unread stream b)"
        using t un k w take_take [of "?n + ?k" w "br_buf b1"] by (simp add: min_absorb1)
      moreover have "until_delim c (unread stream b) = ?n + ?k" "c \<in> set (unread stream b)"
        unfolding un until_delim_append [OF less.prems(2)] using True by (simp_all add: until_delim_in)
      moreover have "?n + ?k \<le> length (unread stream b)" using un k by simp
      ultimately show ?thesis unfolding unf if_P [OF j(2)] j(1) sl using f(5) by (auto simp: slice_res_def)
    next
      case False
      then have i: "\<not> ?i \<ge> 0" by (simp add: IndexByte_until)
      show ?thesis
      proof (cases "int w \<ge> int (length (br_buf b1))")
        case True
        then have full: "w = length (br_buf b1)" using o'(2) by simp
        have "bufio_ok stream rinv (b1\<lparr>br_r := br_w b1\<rparr>)" "unread stream (b1\<lparr>br_r := br_w b1\<rparr>) = drop w (unread stream b)"
          using bufio_advance [OF f(2), of w] f(3,4) o'(1,4) by simp_all
        moreover have "br_buf b1 = buffered b @ d" using t full by simp
        ultimately show ?thesis unfolding unf if_not_P [OF i] if_P [OF True]
          using f(5) un less.prems(2) False w by (auto simp: slice_res_def)
      next
        case nf: False
        then have "?n < length (br_buf b)" using w f(5) by simp
        then have "todo stream b1 < todo stream b" using f(7) None by (auto simp: todo_def)
        from less.hyps [OF this f(2)] show ?thesis
          unfolding unf if_not_P [OF i] if_not_P [OF nf] using False less.prems(2) f(3,5,6) by simp
      qed
    qed
  qed
qed

lemma ReadSlice_spec:
  assumes "bufio_ok stream rinv b"
  shows "\<exists>res. ReadSlice rd b c = Some res \<and> slice_res c (unread stream b) (length (br_buf b)) res"
proof (cases "c \<in> set (buffered b)")
  case True
  let ?k = "until_delim c (buffered b)"
  obtain r w where rw: "br_r b = int r" "br_w b = int w" "r \<le> w" "w \<le> length (br_buf b)" "buffered b = slice r w (br_buf b)"
    "length (buffered b) = w - r" using assms by (rule bufio_okE)
  have k: "?k \<le> length (buffered b)" "0 < ?k" using until_delim_le [of c "buffered b"] True by (simp_all add: until_delim_def)
  have i: "IndexByte (buffered b) c = int ?k - 1" using True by (simp add: IndexByte_until)
  have "slice r (r + ?k) (br_buf b) = take ?k (buffered b)" using k rw(5,6) by (simp add: slice_def min_absorb1)
  then have "go_slice (br_buf b) (br_r b) (br_r b + int ?k) = Some (take ?k (buffered b))"
    using k rw go_slice_nat [of "br_buf b" r "r + ?k"] by simp
  then have "ReadSlice rd b c = Some (b\<lparr>br_r := br_r b + int ?k\<rparr>, take ?k (buffered b), None)"
    using i k bufio_okD(5) [OF assms] by (simp add: ReadSlice_def)
  moreover have "unread stream b = take ?k (buffered b) @ drop ?k (unread stream b)" using k by (simp add: unread_def flip: append_assoc)
  moreover have "until_delim c (unread stream b) = ?k" "c \<in> set (unread stream b)"
    using True by (simp_all add: unread_def until_delim_in)
  ultimately show ?thesis using bufio_advance(1,2) [OF assms k(1)] k(1) by (simp add: slice_res_def)
next
  case False
  then show ?thesis using ReadSlice_loop_spec [OF assms False] bufio_okD(5) [OF assms] by (simp add: ReadSlice_def IndexByte_until)
qed

lemma ReadBytes_loop_spec:
  assumes "bufio_ok stream rinv b"
  shows "\<exists>b' fs frag. ReadBytes_loop rd b c full = Some (b', full @ fs, frag, if c \<in> set (unread stream b) then None else Some EOF) \<and>
    bufio_ok stream rinv b' \<and> unread stream b = concat fs @ frag @ unread stream b' \<and>
    length (concat fs @ frag) = until_delim c (unread stream b)"
  using assms
proof (induction "length (unread stream b)" arbitrary: b full rule: less_induct)
  case less
  from ReadSlice_spec [OF less.prems, of c] obtain b1 line e where
    s: "ReadSlice rd b c = Some (b1, line, e)" "slice_res c (unread stream b) (length (br_buf b)) (b1, line, e)" by auto
  have unf: "ReadBytes_loop rd b c full = (if e = None then Some (b1, full, line, None)
      else if e \<noteq> Some ErrBufferFull then Some (b1, full, line, e) else ReadBytes_loop rd b1 c (full @ [line]))"
    using s(1) by (subst ReadBytes_loop.simps) simp
  have ne: "EOF \<noteq> ErrBufferFull" by (simp add: ErrBufferFull_def)
  from s(2) have b1: "bufio_ok stream rinv b1" "unread stream b = line @ unread stream b1" by (simp_all add: slice_res_def)
  from s(2) consider (found) "e = None" "c \<in> set (unread stream b)" "length line = until_delim c (unread stream b)"
    | (eof) "e = Some EOF" "c \<notin> set (unread stream b)" "unread stream b1 = []"
    | (full) "e = Some ErrBufferFull" "c \<notin> set line" "length line = length (br_buf b)" by (auto simp: slice_res_def)
  then show ?case
  proof cases
    case found
    then show ?thesis unfolding unf using b1 by (intro exI [of _ b1] exI [of _ "[]"] exI [of _ line]) simp
  next
    case eof
    then show ?thesis unfolding unf using b1 ne by (intro exI [of _ b1] exI [of _ "[]"] exI [of _ line]) (simp add: until_delim_def)
  next
    case full
    then have "length (unread stream b1) < length (unread stream b)" using b1(2) bufio_okD(1) [OF less.prems] by simp
    from less.hyps [OF this b1(1), of "full @ [line]"] obtain b' fs frag where
      h: "ReadBytes_loop rd b1 c (full @ [line]) = Some (b', (full @ [line]) @ fs, frag, if c \<in> set (unread stream b1) then None else Some EOF)"
        "bufio_ok stream rinv b'" "unread stream b1 = concat fs @ frag @ unread stream b'" "length (concat fs @ frag) = until_delim c (unread stream b1)"
      by blast
    have "until_delim c (unread stream b) = length line + until_delim c (unread stream b1)" unfolding b1(2) using full(2) by (rule until_delim_append)
    then show ?thesis unfolding unf using full h b1(2)
      by (intro exI [of _ b'] exI [of _ "line # fs"] exI [of _ frag]) simp
  qed
qed

lemma copy_frags_eq:
  "n + length (concat xs) \<le> length buf \<Longrightarrow>
   copy_frags buf n xs = Some (take n buf @ concat xs @ drop (n + length (concat xs)) buf, n + length (concat xs))"
proof (induction xs arbitrary: buf n)
  case (Cons x xs)
  have "go_copy buf n x = Some (take n buf @ x @ drop (n + length x) buf, n + length x)"
    using Cons.prems by (intro go_copy_eq) simp
  then show ?case using Cons.IH [of "n + length x" "take n buf @ x @ drop (n + length x) buf"] Cons.prems
    by (simp add: ac_simps)
qed simp

lemma bufio_ReadBytes_spec:
  fixes b
  assumes "bufio_ok stream rinv b"
  defines "u \<equiv> unread stream b"
  assumes small: "until_delim c u < 2 ^ 31"
  shows "\<exists>b'. ReadBytes rd b c = Some (b', take (until_delim c u) u, if c \<in> set u then None else Some EOF) \<and>
    bufio_ok stream rinv b' \<and> unread stream b' = drop (until_delim c u) u"
proof -
  from ReadBytes_loop_spec [OF assms(1), of c "[]"] obtain b' fs frag where
    h: "ReadBytes_loop rd b c [] = Some (b', fs, frag, if c \<in> set u then None else Some EOF)" "bufio_ok stream rinv b'"
      "u = (concat fs @ frag) @ unread stream b'" "length (concat fs @ frag) = until_delim c u" unfolding u_def by auto
  have "fold (\<lambda>x n. int32 (n + int (length x))) xs (int m) = int (m + length (concat xs))"
    if "m + length (concat xs) < 2 ^ 31" for xs :: "gostring list" and m
    using that
  proof (induction xs arbitrary: m)
    case (Cons x xs)
    then have "int32 (int m + int (length x)) = int (m + length x)" using int32_nat [of "m + length x"] by simp
    then show ?case using Cons.IH [of "m + length x"] Cons.prems by simp
  qed simp
  from this [of 0 fs] have "fold (\<lambda>x n. int32 (n + int (length x))) fs 0 = int (length (concat fs))"
    using h(4) small by simp
  then have mk: "go_make 1 (int32 (fold (\<lambda>x n. int32 (n + int (length x))) fs 0 + int (length frag))) 0 =
      Some (replicate (length (concat fs) + length frag) (0 :: byte))"
    using go_make_bytes [of "length (concat fs) + length frag" "0 :: byte"] int32_nat [of "length (concat fs) + length frag"] h(4) small
    by simp
  have c: "copy_frags (replicate (length (concat fs) + length frag) 0) 0 fs =
    Some (concat fs @ replicate (length frag) 0, length (concat fs))" by (subst copy_frags_eq) simp_all
  have g: "go_copy (concat fs @ replicate (length frag) 0) (length (concat fs)) frag = Some (concat fs @ frag, length (concat fs) + length frag)"
    by (subst go_copy_eq) simp_all
  have "take (until_delim c u) u = concat fs @ frag" "drop (until_delim c u) u = unread stream b'"
    unfolding h(4) [symmetric] by (subst h(3); simp)+
  then show ?thesis using h(1,2) c g mk by (simp add: ReadBytes_def del: One_nat_def)
qed

end

section \<open>Instances\<close>

interpretation ssr: strict_reader strings_Read "\<lambda>s. s" "\<lambda>_. True"
  by unfold_locales (auto simp: strings_Read_eq split: if_splits)

interpretation sbr: strict_reader buffer_Reader contents buf_inv
proof
  fix r n e p' r'
  assume "buf_inv r" "buffer_Reader r [] = Some (n, Some e, p', r')"
  with buffer_Reader_spec [of r "[]"] show "contents r' = []" by (auto split: if_splits)
qed

interpretation bsr: live_reader "bufio_Read strings_Read" "unread (\<lambda>s. s)" "bufio_ok (\<lambda>s. s) (\<lambda>_. True)"
  by (rule sr.bufio_Read_live)

lemma new_Reader_ok:
  "0 < n \<Longrightarrow> rinv r \<Longrightarrow> bufio_ok stream rinv (new_Reader n r) \<and> unread stream (new_Reader n r) = stream r"
  by (simp add: bufio_ok_def new_Reader_def unread_def buffered_def slice_def)

lemma ReadRune_loop_stuck:
  assumes "fill rd b = Some b" "br_w b < br_r b + UTFMax" "go_slice (br_buf b) (br_r b) (br_w b) = Some t" "\<not> FullRune t"
    "br_err b = None"
  shows "ReadRune_loop rd b = None"
proof -
  have "ReadRune_loop rd' b' = Some y \<Longrightarrow> \<not> (rd' = rd \<and> b' = b)" for rd' b' y
  proof (erule ReadRune_loop.raw_induct [rotated], goal_cases)
    case (1 f rd' b' y)
    show ?case
    proof
      assume e: "rd' = rd \<and> b' = b"
      then have "f rd b = Some y" using 1(2) assms by simp
      then show False using 1(1) by blast
    qed
  qed
  then show ?thesis by (cases "ReadRune_loop rd b") auto
qed

text \<open>C34: Buffering keeps the contract of \<open>io.Reader\<close>. Over every reader that makes progress and fails only at its end,
  \<open>bufio.Reader.Read\<close> is such a reader again, for every buffer size, with the buffered bytes in front of the
  underlying ones: it gives the same bytes in the same order, and \<open>os.EOF\<close> only after the last one. \<open>NewReaderSize\<close>
  starts with the bytes of the underlying reader and refuses a size that is not positive.\<close>

theorem bufio_Reader_contract:
  assumes "live_reader rd stream rinv" "rinv r"
  shows "live_reader (bufio_Read rd) (unread stream) (bufio_ok stream rinv) \<and>
    (case NewReaderSize r n of Inl e \<Rightarrow> n \<le> 0 \<and> e = BufSizeError n
     | Inr b \<Rightarrow> 0 < n \<and> bufio_ok stream rinv b \<and> unread stream b = stream r)"
  using live_reader.bufio_Read_live [OF assms(1)] new_Reader_ok [of n rinv r stream] assms(2) by (simp add: NewReaderSize_def)

theorem bufio_Reader_contract_witness:
  "live_reader (bufio_Read strings_Read) (unread (\<lambda>s. s)) (bufio_ok (\<lambda>s. s) (\<lambda>_. True)) \<and>
   (case NewReaderSize (bs ''ab'') 1 of Inl e \<Rightarrow> False | Inr b \<Rightarrow> unread (\<lambda>s. s) b = bs ''ab'')"
  using bufio_Reader_contract [OF sr.live_reader_axioms TrueI, of 1 "bs ''ab''"] by (simp split: sum.splits)

text \<open>C35: Reading lines. Over a reader that does not panic, makes progress and fails only at its end (also when it is asked for
  no bytes), whatever the size of the buffer and of the chunks the underlying reader gives, \<open>ReadBytes\<close> and \<open>ReadString\<close>
  return, if the line fits the 32-bit length of a slice, and their result is the bytes to come up to and including the
  first delimiter, or all of them with \<open>os.EOF\<close>; \<open>ReadByte\<close> returns the next byte or \<open>os.EOF\<close>. The bytes to come are
  the rest.\<close>

theorem bufio_ReadBytes_delim:
  assumes "strict_reader rd stream rinv" "bufio_ok stream rinv b"
  defines "u \<equiv> unread stream b"
  shows "(until_delim c u < 2 ^ 31 \<longrightarrow>
      (\<exists>b'. ReadBytes rd b c = Some (b', take (until_delim c u) u, if c \<in> set u then None else Some EOF) \<and>
        ReadString rd b c = ReadBytes rd b c \<and> bufio_ok stream rinv b' \<and> unread stream b' = drop (until_delim c u) u)) \<and>
    (\<exists>b'. bufio_ReadByte rd b = Some (b', if u = [] then 0 else hd u, at_end u) \<and>
      bufio_ok stream rinv b' \<and> unread stream b' = drop 1 u)"
  using strict_reader.bufio_ReadBytes_spec [OF assms(1,2), of c]
    live_reader.bufio_ReadByte_spec [OF strict_reader.axioms(1) [OF assms(1)] assms(2)]
  unfolding u_def ReadString_def by blast

theorem bufio_ReadBytes_delim_witness:
  "\<exists>b'. ReadBytes strings_Read (new_Reader 2 (bs ''abc,d'')) 0x2C = Some (b', bs ''abc,'', None) \<and> unread (\<lambda>s. s) b' = bs ''d''"
proof -
  have n: "bufio_ok (\<lambda>s. s) (\<lambda>_. True) (new_Reader 2 (bs ''abc,d''))" "unread (\<lambda>s. s) (new_Reader 2 (bs ''abc,d'')) = bs ''abc,d''"
    using new_Reader_ok [of 2 "\<lambda>_. True" "bs ''abc,d''" "\<lambda>s. s"] by simp_all
  have "until_delim 0x2C (bs ''abc,d'') = 4" by code_simp
  then show ?thesis using bufio_ReadBytes_delim [OF ssr.strict_reader_axioms n(1), of "0x2C"] unfolding n(2) by auto
qed

text \<open>C36: \<open>ReadRune\<close> returns. With a buffer of at least \<open>UTFMax\<close> bytes it returns on every live reader, with the rune and
  the width that decoding the bytes to come gives, also where the underlying reader splits an encoding. With a smaller
  buffer it may run forever: \<open>NewReaderSize\<close> accepts a size of 1, and on the bytes E2 82 AC the loop then
  reads into an empty slice again and again.\<close>

theorem bufio_ReadRune_returns:
  assumes "live_reader rd stream rinv" "bufio_ok stream rinv b" "4 \<le> length (br_buf b)"
  defines "u \<equiv> unread stream b"
  shows "(\<exists>b'. bufio_ReadRune rd b = Some (b', if u = [] then 0 else fst (DecodeRune u), snd (DecodeRune u), at_end u) \<and>
      bufio_ok stream rinv b' \<and> unread stream b' = drop (snd (DecodeRune u)) u) \<and>
    bufio_ReadRune strings_Read (new_Reader 1 [0xE2, 0x82, 0xAC]) = None"
proof
  show "\<exists>b'. bufio_ReadRune rd b = Some (b', if u = [] then 0 else fst (DecodeRune u), snd (DecodeRune u), at_end u) \<and>
      bufio_ok stream rinv b' \<and> unread stream b' = drop (snd (DecodeRune u)) u"
    unfolding u_def using live_reader.bufio_ReadRune_spec [OF assms(1-3)] by blast
next
  let ?a = "new_Reader 1 [0xE2, 0x82, 0xAC :: byte]" and ?b = "(new_Reader 1 [0x82, 0xAC])\<lparr>br_buf := [0xE2], br_w := 1\<rparr>"
  have F: "\<not> FullRune [0xE2]" "\<not> FullRune []" by code_simp+
  have "fill strings_Read ?b = Some ?b" by (simp add: fill_def strings_Read_eq new_Reader_def go_slice_def)
  then have "ReadRune_loop strings_Read ?b = None"
    using F by (intro ReadRune_loop_stuck [where t = "[0xE2]"]) (simp_all add: new_Reader_def UTFMax_def go_slice_def)
  moreover have "fill strings_Read ?a = Some ?b" by (simp add: fill_def strings_Read_eq new_Reader_def go_slice_def)
  then have "ReadRune_loop strings_Read ?a = ReadRune_loop strings_Read ?b"
    using F by (subst ReadRune_loop.simps) (simp add: new_Reader_def go_slice_def UTFMax_def)
  ultimately show "bufio_ReadRune strings_Read ?a = None" by (simp add: bufio_ReadRune_def)
qed

theorem bufio_ReadRune_returns_witness:
  "\<exists>b'. bufio_ReadRune strings_Read (new_Reader 4 [0xE2, 0x82, 0xAC, 0x41]) = Some (b', 0x20AC, 3, None)"
proof -
  let ?b = "new_Reader 4 [0xE2, 0x82, 0xAC, 0x41 :: byte]"
  have n: "bufio_ok (\<lambda>s. s) (\<lambda>_. True) ?b" "unread (\<lambda>s. s) ?b = [0xE2, 0x82, 0xAC, 0x41]"
    using new_Reader_ok [of 4 "\<lambda>_. True" "[0xE2, 0x82, 0xAC, 0x41]" "\<lambda>s. s"] by simp_all
  have "4 \<le> length (br_buf ?b)" by (simp add: new_Reader_def)
  moreover have "DecodeRune [0xE2, 0x82, 0xAC, 0x41] = (0x20AC, 3)" by code_simp
  ultimately show ?thesis using bufio_ReadRune_returns [OF sr.live_reader_axioms n(1)] unfolding n(2) by (auto simp: at_end_def)
qed


declare ReadByte_loop.simps [code] ReadRune_loop.simps [code] ReadSlice_loop.simps [code] ReadBytes_loop.simps [code]

text \<open>C37: Unreading. Over a live reader, with a buffer of at least \<open>UTFMax\<close> bytes: after a \<open>ReadByte\<close> that returned a byte,
  \<open>UnreadByte\<close> succeeds and restores the bytes to come, also where the buffer is empty, and so does \<open>UnreadRune\<close> after
  \<open>ReadRune\<close>. \<open>ReadSlice\<close> breaks this, since it updates neither \<open>lastByte\<close> nor \<open>lastRuneSize\<close>: on \<open>ab,\<close>, after a \<open>ReadByte\<close> and a
  \<open>ReadSlice\<close> up to the comma, \<open>UnreadByte\<close> puts back an \<open>a\<close> instead of the comma; after a \<open>ReadRune\<close> of three bytes that
  empties the buffer and a \<open>ReadSlice\<close> of one byte, \<open>UnreadRune\<close> returns nil and sets \<open>b.r\<close> to -2, and the next \<open>Read\<close> or
  \<open>ReadByte\<close> panics.\<close>

theorem bufio_Unread:
  assumes "live_reader rd stream rinv" "bufio_ok stream rinv b" "unread stream b \<noteq> []" "4 \<le> length (br_buf b)"
  shows "(\<exists>b1 b2 c. bufio_ReadByte rd b = Some (b1, c, None) \<and> bufio_UnreadByte b1 = Some (b2, None) \<and>
      bufio_ok stream rinv b2 \<and> unread stream b2 = unread stream b) \<and>
    (\<exists>b1 b2 r n. bufio_ReadRune rd b = Some (b1, r, n, None) \<and> bufio_UnreadRune b1 = (b2, None) \<and>
      bufio_ok stream rinv b2 \<and> unread stream b2 = unread stream b) \<and>
    do { (b, _) \<leftarrow> bufio_ReadByte strings_Read (new_Reader 4 (bs ''ab,'')); (b, line, _) \<leftarrow> ReadSlice strings_Read b 0x2C;
         (b, e) \<leftarrow> bufio_UnreadByte b; Some (line, e, unread (\<lambda>s. s) b) } = Some (bs ''b,'', None, bs ''a'') \<and>
    do { (b, r, _) \<leftarrow> bufio_ReadRune strings_Read (new_Reader 3 [0xE2, 0x82, 0xAC, 0x2C]); (b, line, _) \<leftarrow> ReadSlice strings_Read b 0x2C;
         let (b, e) = bufio_UnreadRune b;
         Some (r, line, e, br_r b, bufio_Read strings_Read b [0], bufio_ReadByte strings_Read b) } =
      Some (0x20AC, [0x2C], None, -2, None, None)"
proof (intro conjI)
  show "\<exists>b1 b2 c. bufio_ReadByte rd b = Some (b1, c, None) \<and> bufio_UnreadByte b1 = Some (b2, None) \<and>
      bufio_ok stream rinv b2 \<and> unread stream b2 = unread stream b"
    using live_reader.bufio_ReadByte_spec [OF assms(1,2)] assms(3) by (auto simp: at_end_def)
  show "\<exists>b1 b2 r n. bufio_ReadRune rd b = Some (b1, r, n, None) \<and> bufio_UnreadRune b1 = (b2, None) \<and>
      bufio_ok stream rinv b2 \<and> unread stream b2 = unread stream b"
    using live_reader.bufio_ReadRune_spec [OF assms(1,2,4)] assms(3) by (auto simp: at_end_def)
  show "do { (b, _) \<leftarrow> bufio_ReadByte strings_Read (new_Reader 4 (bs ''ab,'')); (b, line, _) \<leftarrow> ReadSlice strings_Read b 0x2C;
         (b, e) \<leftarrow> bufio_UnreadByte b; Some (line, e, unread (\<lambda>s. s) b) } = Some (bs ''b,'', None, bs ''a'')" by code_simp
  show "do { (b, r, _) \<leftarrow> bufio_ReadRune strings_Read (new_Reader 3 [0xE2, 0x82, 0xAC, 0x2C]); (b, line, _) \<leftarrow> ReadSlice strings_Read b 0x2C;
         let (b, e) = bufio_UnreadRune b;
         Some (r, line, e, br_r b, bufio_Read strings_Read b [0], bufio_ReadByte strings_Read b) } =
      Some (0x20AC, [0x2C], None, -2, None, None)" by code_simp
qed

theorem bufio_Unread_witness:
  "\<exists>b1 b2 c. bufio_ReadByte strings_Read (new_Reader 4 (bs ''a'')) = Some (b1, c, None) \<and> bufio_UnreadByte b1 = Some (b2, None) \<and>
     unread (\<lambda>s. s) b2 = bs ''a''"
proof -
  have n: "bufio_ok (\<lambda>s. s) (\<lambda>_. True) (new_Reader 4 (bs ''a''))" "unread (\<lambda>s. s) (new_Reader 4 (bs ''a'')) = bs ''a''"
    using new_Reader_ok [of 4 "\<lambda>_. True" "bs ''a''" "\<lambda>s. s"] by simp_all
  have "4 \<le> length (br_buf (new_Reader 4 (bs ''a'')))" by (simp add: new_Reader_def)
  with bufio_Unread [OF sr.live_reader_axioms n(1)] show ?thesis unfolding n(2) by auto
qed

end
