(* ===== verification/Bufio_Writer.thy ===== *)
theory Bufio_Writer
  imports Bufio_Reader Strconv_Quote
begin

text \<open>
  Type \<open>Writer\<close> of package bufio (\<open>bufio.go\<close>) over any \<open>io.Writer\<close>, which is a parameter, and \<open>ReadWriter\<close>. The
  bytes a writer has accepted are those its underlying writer has taken, followed by those in the buffer. A count that
  an underlying writer returns is at most the length of its argument, as \<open>io.Writer\<close> demands; \<^term>\<open>None\<close> is a panic
  or a loop that does not end.
\<close>

record 'w bufio_Writer =
  bw_err :: "os_Error option"
  bw_buf :: gostring
  bw_n :: nat
  bw_wr :: 'w

definition new_Writer :: "int \<Rightarrow> 'w \<Rightarrow> 'w bufio_Writer" where
  "new_Writer sz wr = \<lparr>bw_err = None, bw_buf = replicate (nat sz) 0, bw_n = 0, bw_wr = wr\<rparr>"

definition NewWriterSize :: "'w \<Rightarrow> int \<Rightarrow> BufSizeError + 'w bufio_Writer" where
  "NewWriterSize wr sz = (if sz \<le> 0 then Inl (BufSizeError sz) else Inr (new_Writer sz wr))"

text \<open>\<open>NewWriterSize\<close> on an \<open>io.Writer\<close> that is a \<open>*bufio.Writer\<close>.\<close>

definition NewWriterSize_Writer :: "'w bufio_Writer \<Rightarrow> int \<Rightarrow>
    BufSizeError + ('w bufio_Writer + 'w bufio_Writer bufio_Writer)" where
  "NewWriterSize_Writer b sz =
     (if sz \<le> 0 then Inl (BufSizeError sz)
      else if int (length (bw_buf b)) \<ge> sz then Inr (Inl b)
      else Inr (Inr (new_Writer sz b)))"

definition NewWriter :: "'w \<Rightarrow> 'w bufio_Writer option" where
  "NewWriter wr = (case NewWriterSize wr defaultBufSize of Inl e \<Rightarrow> None | Inr b \<Rightarrow> Some b)"

definition Flush :: "'w io_Writer \<Rightarrow> 'w bufio_Writer \<Rightarrow> ('w bufio_Writer \<times> os_Error option) option" where
  "Flush wr b =
     (if bw_err b \<noteq> None then Some (b, bw_err b)
      else if bw_n b = 0 then Some (b, None)
      else do {
        (n, e, w) \<leftarrow> wr (bw_wr b) (take (bw_n b) (bw_buf b));
        let b = b\<lparr>bw_wr := w\<rparr>;
        let e = (if n < bw_n b \<and> e = None then Some ErrShortWrite else e);
        (if e \<noteq> None then
           let b = (if n > 0 \<and> n < bw_n b
             then b\<lparr>bw_buf := slice n (bw_n b) (bw_buf b) @ drop (bw_n b - n) (bw_buf b)\<rparr> else b) in
           Some (b\<lparr>bw_n := bw_n b - n, bw_err := e\<rparr>, e)
         else Some (b\<lparr>bw_n := 0\<rparr>, None))
      })"

definition Available :: "'w bufio_Writer \<Rightarrow> int" where
  "Available b = int (length (bw_buf b)) - int (bw_n b)"

definition Writer_Buffered :: "'w bufio_Writer \<Rightarrow> nat" where
  "Writer_Buffered b = bw_n b"

text \<open>One iteration of the loop of \<open>Write\<close> with \<open>p\<close> left: the count, and whether the loop goes on.\<close>

definition Write_step :: "'w io_Writer \<Rightarrow> 'w bufio_Writer \<Rightarrow> gostring \<Rightarrow> (bool \<times> nat \<times> 'w bufio_Writer) option" where
  "Write_step wr b p = do {
     b' \<leftarrow> (if Available b \<le> 0 then do { (b, _) \<leftarrow> Flush wr b; Some b } else Some b);
     (if Available b \<le> 0 \<and> bw_err b' \<noteq> None then Some (False, 0, b')
      else if Writer_Buffered b' = 0 \<and> length p \<ge> length (bw_buf b') then do {
        (n, e, w) \<leftarrow> wr (bw_wr b') p;
        Some (e = None, n, b'\<lparr>bw_wr := w, bw_err := e\<rparr>)
      }
      else
        let n = min (nat (Available b')) (length p) in
        Some (True, n, b'\<lparr>bw_buf := take (bw_n b') (bw_buf b') @ take n p @ drop (bw_n b' + n) (bw_buf b'), bw_n := bw_n b' + n\<rparr>))
   }"

partial_function (option) Write_loop :: "'w io_Writer \<Rightarrow> 'w bufio_Writer \<Rightarrow> gostring \<Rightarrow> nat \<Rightarrow> (nat \<times> 'w bufio_Writer) option" where
  "Write_loop wr b p nn =
     (if length p > 0 then do {
        res \<leftarrow> Write_step wr b p;
        let n = fst (snd res);
        p' \<leftarrow> go_slice p (int n) (int (length p));
        (if fst res then Write_loop wr (snd (snd res)) p' (nn + n) else Some (nn + n, snd (snd res)))
      } else Some (nn, b))"

definition bufio_Write :: "'w io_Writer \<Rightarrow> 'w bufio_Writer io_Writer" where
  "bufio_Write wr b p =
     (if bw_err b \<noteq> None then Some (0, bw_err b, b)
      else do { (nn, b) \<leftarrow> Write_loop wr b p 0; Some (nn, bw_err b, b) })"

definition bufio_WriteByte :: "'w io_Writer \<Rightarrow> 'w bufio_Writer \<Rightarrow> byte \<Rightarrow> ('w bufio_Writer \<times> os_Error option) option" where
  "bufio_WriteByte wr b c =
     (if bw_err b \<noteq> None then Some (b, bw_err b)
      else do {
        (b, e) \<leftarrow> (if Available b \<le> 0 then Flush wr b else Some (b, None));
        (if e \<noteq> None then Some (b, bw_err b)
         else do { buf \<leftarrow> go_set (bw_buf b) (int (bw_n b)) c; Some (b\<lparr>bw_buf := buf, bw_n := bw_n b + 1\<rparr>, None) })
      })"

fun WriteString_loop :: "'w io_Writer \<Rightarrow> 'w bufio_Writer \<Rightarrow> nat \<Rightarrow> gostring \<Rightarrow> (nat \<times> os_Error option \<times> 'w bufio_Writer) option" where
  "WriteString_loop wr b i [] = Some (i, None, b)"
| "WriteString_loop wr b i (c # s) = do {
     (b, _) \<leftarrow> bufio_WriteByte wr b c;
     (if bw_err b \<noteq> None then Some (i, bw_err b, b) else WriteString_loop wr b (i + 1) s)
   }"

definition bufio_WriteString :: "'w io_Writer \<Rightarrow> 'w bufio_Writer io_Writer" where
  "bufio_WriteString wr b s =
     (if bw_err b \<noteq> None then Some (0, bw_err b, b)
      else do {
        (b, fits) \<leftarrow> (if Available b \<ge> int (length s) then Some (b, True)
          else if length (bw_buf b) \<ge> length s then do { (b, e) \<leftarrow> Flush wr b; Some (b, e = None) }
          else Some (b, False));
        (if fits then do {
           (buf, n) \<leftarrow> put_bytes (bw_buf b) (bw_n b) s;
           Some (length s, None, b\<lparr>bw_buf := buf, bw_n := n\<rparr>)
         }
         else WriteString_loop wr b 0 s)
      })"

definition bufio_WriteRune :: "'w io_Writer \<Rightarrow> 'w bufio_Writer \<Rightarrow> int \<Rightarrow> (nat \<times> os_Error option \<times> 'w bufio_Writer) option" where
  "bufio_WriteRune wr b rune =
     (if rune < uint RuneSelf then do {
        (b, err) \<leftarrow> bufio_WriteByte wr b (go_byte rune);
        Some (if err \<noteq> None then (0, err, b) else (1, None, b))
      }
      else if bw_err b \<noteq> None then Some (0, bw_err b, b)
      else do {
        b' \<leftarrow> (if Available b < UTFMax then do { (b, _) \<leftarrow> Flush wr b; Some b } else Some b);
        (if Available b < UTFMax \<and> bw_err b' \<noteq> None then Some (0, bw_err b', b')
         else if Available b < UTFMax \<and> Available b' < UTFMax then bufio_WriteString wr b' (intstring rune)
         else do {
           t \<leftarrow> go_slice (bw_buf b') (int (bw_n b')) (int (length (bw_buf b')));
           (t, n) \<leftarrow> EncodeRune t rune;
           Some (n, None, b'\<lparr>bw_buf := take (bw_n b') (bw_buf b') @ t, bw_n := bw_n b' + n\<rparr>)
         })
      })"

record ('r, 'w) ReadWriter =
  rw_Reader :: "'r bufio_Reader"
  rw_Writer :: "'w bufio_Writer"

definition NewReadWriter :: "'r bufio_Reader \<Rightarrow> 'w bufio_Writer \<Rightarrow> ('r, 'w) ReadWriter" where
  "NewReadWriter r w = \<lparr>rw_Reader = r, rw_Writer = w\<rparr>"

section \<open>The bytes accepted\<close>

definition accepted :: "('w \<Rightarrow> gostring) \<Rightarrow> 'w bufio_Writer \<Rightarrow> gostring" where
  "accepted out b = out (bw_wr b) @ take (bw_n b) (bw_buf b)"

definition bw_ok :: "('w \<Rightarrow> bool) \<Rightarrow> 'w bufio_Writer \<Rightarrow> bool" where
  "bw_ok winv b \<longleftrightarrow> bw_n b \<le> length (bw_buf b) \<and> 0 < length (bw_buf b) \<and> length (bw_buf b) < 2 ^ 31 \<and> winv (bw_wr b)"

lemma bw_okD:
  assumes "bw_ok winv b"
  shows "bw_n b \<le> length (bw_buf b)" "0 < length (bw_buf b)" "length (bw_buf b) < 2 ^ 31" "winv (bw_wr b)"
    "Available b \<le> 0 \<longleftrightarrow> bw_n b = length (bw_buf b)" "nat (Available b) = length (bw_buf b) - bw_n b"
  using assms by (auto simp: bw_ok_def Available_def)

lemma bw_store:
  assumes "bw_ok winv b" "n \<le> length (bw_buf b) - bw_n b" "length d = n"
  shows "bw_ok winv (b\<lparr>bw_buf := take (bw_n b) (bw_buf b) @ d @ drop (bw_n b + n) (bw_buf b), bw_n := bw_n b + n\<rparr>)"
    "accepted out (b\<lparr>bw_buf := take (bw_n b) (bw_buf b) @ d @ drop (bw_n b + n) (bw_buf b), bw_n := bw_n b + n\<rparr>) = accepted out b @ d"
    "length (take (bw_n b) (bw_buf b) @ d @ drop (bw_n b + n) (bw_buf b)) = length (bw_buf b)"
  using assms by (auto simp: bw_ok_def accepted_def)

context writer
begin

lemma Flush_spec:
  assumes ok: "bw_ok winv b" and F: "Flush wr b = Some (b', e)"
  shows "bw_ok winv b' \<and> accepted out b' = accepted out b \<and> e = bw_err b' \<and> length (bw_buf b') = length (bw_buf b) \<and>
    (e = None \<longrightarrow> bw_n b' = 0)"
proof (cases "bw_err b \<noteq> None \<or> bw_n b = 0")
  case True
  then show ?thesis using F ok by (auto simp: Flush_def split: if_splits)
next
  case False
  note o = bw_okD [OF ok]
  let ?d = "take (bw_n b) (bw_buf b)"
  from False F obtain n e1 w where W: "wr (bw_wr b) ?d = Some (n, e1, w)" by (auto simp: Flush_def bind_eq_Some_iff)
  have l: "length ?d < 2 ^ 31" "length ?d = bw_n b" using o by simp_all
  note x = write_inv [OF o(4) l(1) W] write_le [OF o(4) l(1) W] write_out [OF o(4) l(1) W]
  have n: "n \<le> bw_n b" using x(2) l(2) by simp
  have t: "take n (bw_buf b) @ slice n (bw_n b) (bw_buf b) = ?d"
    using n take_add [of n "bw_n b - n" "bw_buf b"] by (simp add: slice_def)
  show ?thesis
  proof (cases "(if n < bw_n b \<and> e1 = None then Some ErrShortWrite else e1) = None")
    case True
    then have "n = bw_n b" "b' = b\<lparr>bw_wr := w, bw_n := 0\<rparr>" "e = None" using F False W n by (auto simp: Flush_def split: if_splits)
    then show ?thesis using x ok False by (auto simp: bw_ok_def accepted_def min_def)
  next
    case err: False
    then have b': "b' = (if n > 0 \<and> n < bw_n b
        then b\<lparr>bw_wr := w, bw_buf := slice n (bw_n b) (bw_buf b) @ drop (bw_n b - n) (bw_buf b), bw_n := bw_n b - n, bw_err := e\<rparr>
        else b\<lparr>bw_wr := w, bw_n := bw_n b - n, bw_err := e\<rparr>)" "e \<noteq> None"
      using F False W by (auto simp: Flush_def Let_def split: if_splits)
    have sl: "length (slice n (bw_n b) (bw_buf b)) = bw_n b - n" using o(1) by simp
    have ao: "out w = out (bw_wr b) @ take n (bw_buf b)" using x(3) n by (simp add: min_absorb1)
    consider "n = 0" | "n = bw_n b" | "0 < n" "n < bw_n b" using n by linarith
    then show ?thesis
    proof cases
      case 3
      then show ?thesis using b' x(1) ao o sl t by (simp add: bw_ok_def accepted_def)
    qed (use b' x(1) ao ok in \<open>auto simp: bw_ok_def accepted_def\<close>)
  qed
qed

lemma Write_step_spec:
  assumes ok: "bw_ok winv b" and err: "bw_err b = None" and p: "p \<noteq> []" "length p < 2 ^ 31"
    and S: "Write_step wr b p = Some (c, n, b')"
  shows "bw_ok winv b' \<and> accepted out b' = accepted out b @ take n p \<and> length (bw_buf b') = length (bw_buf b) \<and> n \<le> length p \<and>
    (if c then bw_err b' = None \<and> 0 < n else bw_err b' \<noteq> None)"
proof -
  note o = bw_okD [OF ok]
  from S obtain b1 where F: "(if Available b \<le> 0 then do { (b, _) \<leftarrow> Flush wr b; Some b } else Some b) = Some b1"
    by (auto simp: Write_step_def bind_eq_Some_iff)
  have b1: "bw_ok winv b1" "accepted out b1 = accepted out b" "length (bw_buf b1) = length (bw_buf b)"
    "bw_err b1 = None \<Longrightarrow> bw_n b1 < length (bw_buf b1)" "\<not> Available b \<le> 0 \<Longrightarrow> bw_err b1 = None"
    using F Flush_spec [OF ok] ok o err by (auto simp: bind_eq_Some_iff split: if_splits)
  note o1 = bw_okD [OF b1(1)]
  show ?thesis
  proof (cases "bw_err b1")
    case (Some e)
    then have "c = False" "n = 0" "b' = b1" using S F b1(5) by (auto simp: Write_step_def split: if_splits)
    then show ?thesis using b1 Some by simp
  next
    case None
    have S': "(if Writer_Buffered b1 = 0 \<and> length p \<ge> length (bw_buf b1) then
        do { (n, e, w) \<leftarrow> wr (bw_wr b1) p; Some (e = None, n, b1\<lparr>bw_wr := w, bw_err := e\<rparr>) }
      else let n = min (nat (Available b1)) (length p) in
        Some (True, n, b1\<lparr>bw_buf := take (bw_n b1) (bw_buf b1) @ take n p @ drop (bw_n b1 + n) (bw_buf b1), bw_n := bw_n b1 + n\<rparr>)) =
      Some (c, n, b')" using S F None unfolding Write_step_def by (simp split: if_splits)
    show ?thesis
    proof (cases "Writer_Buffered b1 = 0 \<and> length p \<ge> length (bw_buf b1)")
      case True
      then obtain e w where W: "wr (bw_wr b1) p = Some (n, e, w)" "c = (e = None)" "b' = b1\<lparr>bw_wr := w, bw_err := e\<rparr>"
        using S' by (auto simp: bind_eq_Some_iff)
      note x = write_inv [OF o1(4) p(2) W(1)] write_le [OF o1(4) p(2) W(1)] write_out [OF o1(4) p(2) W(1)]
      have "e = None \<Longrightarrow> n = length p" using write_short [OF o1(4) p(2)] W(1) by simp
      then show ?thesis using W(2,3) x b1 True p(1) by (cases e) (auto simp: bw_ok_def accepted_def Writer_Buffered_def)
    next
      case False
      then have n: "n = min (length (bw_buf b1) - bw_n b1) (length p)" "c = True"
        "b' = b1\<lparr>bw_buf := take (bw_n b1) (bw_buf b1) @ take n p @ drop (bw_n b1 + n) (bw_buf b1), bw_n := bw_n b1 + n\<rparr>"
        using S' o1(6) unfolding if_not_P [OF False] by (auto simp: Let_def)
      have l: "n \<le> length (bw_buf b1) - bw_n b1" "length (take n p) = n" "0 < n" "n \<le> length p" using n(1) b1(4) [OF None] p(1) by simp_all
      note st = bw_store(1,3) [OF b1(1) l(1,2)] bw_store(2) [OF b1(1) l(1,2), where out = out]
      show ?thesis unfolding n(2,3) using st b1(2,3) None l(3,4) by simp
    qed
  qed
qed

lemma Write_loop_spec:
  assumes "Write_loop wr b p nn = Some (nn', b')" "bw_ok winv b" "bw_err b = None" "length p < 2 ^ 31"
  shows "bw_ok winv b' \<and> length (bw_buf b') = length (bw_buf b) \<and>
    (\<exists>k \<le> length p. nn' = nn + k \<and> accepted out b' = accepted out b @ take k p \<and> (bw_err b' = None \<longrightarrow> k = length p))"
  using assms
proof (induction "length p" arbitrary: b p nn rule: less_induct)
  case less
  show ?case
  proof (cases "p = []")
    case True
    then show ?thesis using less.prems by (simp add: Write_loop.simps)
  next
    case False
    from less.prems(1) False obtain c n b1 where S: "Write_step wr b p = Some (c, n, b1)"
      by (subst (asm) Write_loop.simps) (auto simp: bind_eq_Some_iff)
    note s = Write_step_spec [OF less.prems(2,3) False less.prems(4) S]
    have "go_slice p (int n) (int (length p)) = Some (drop n p)" using s by (simp add: slice_def)
    then have "Write_loop wr b p nn = (if c then Write_loop wr b1 (drop n p) (nn + n) else Some (nn + n, b1))"
      using False S by (subst Write_loop.simps) (simp del: go_slice_nat)
    with less.prems(1) have L: "(if c then Write_loop wr b1 (drop n p) (nn + n) else Some (nn + n, b1)) = Some (nn', b')" by simp
    show ?thesis
    proof (cases c)
      case True
      then have "bw_ok winv b1" "bw_err b1 = None" "length (drop n p) < length p" "length (drop n p) < 2 ^ 31"
        using s False less.prems(4) by auto
      from less.hyps [OF this(3) _ this(1,2,4), of "nn + n"] L True obtain k where
        k: "bw_ok winv b'" "length (bw_buf b') = length (bw_buf b1)" "k \<le> length (drop n p)" "nn' = nn + n + k"
          "accepted out b' = accepted out b1 @ take k (drop n p)" "bw_err b' = None \<longrightarrow> k = length (drop n p)" by auto
      have "n + k \<le> length p" "take n p @ take k (drop n p) = take (n + k) p" using s k(3) by (auto simp: take_add)
      then show ?thesis using k s by (intro conjI exI [of _ "n + k"]) auto
    next
      case False
      then show ?thesis using L s by auto
    qed
  qed
qed

lemma bufio_Write_writer: "writer (bufio_Write wr) (accepted out) (bw_ok winv)"
proof
  fix b p n e b'
  assume a: "bw_ok winv b" "length p < 2 ^ 31" "bufio_Write wr b p = Some (n, e, b')"
  have r: "bw_ok winv b' \<and> n \<le> length p \<and> accepted out b' = accepted out b @ take n p \<and> (e = None \<longrightarrow> n = length p)"
  proof (cases "bw_err b")
    case None
    then show ?thesis using a Write_loop_spec [of b p 0] by (auto simp: bufio_Write_def bind_eq_Some_iff)
  qed (use a in \<open>auto simp: bufio_Write_def\<close>)
  then show "bw_ok winv b'" "n \<le> length p" "accepted out b' = accepted out b @ take n p" by blast+
next
  fix b p n b'
  assume a: "bw_ok winv b" "length p < 2 ^ 31" "bufio_Write wr b p = Some (n, None, b')"
  then have "bw_err b = None" by (auto simp: bufio_Write_def split: if_splits)
  then show "n = length p" using a Write_loop_spec [of b p 0] by (auto simp: bufio_Write_def bind_eq_Some_iff)
qed

lemma bufio_WriteByte_spec:
  assumes ok: "bw_ok winv b" and W: "bufio_WriteByte wr b c = Some (b', e)"
  shows "bw_ok winv b' \<and> accepted out b' = accepted out b @ (if e = None then [c] else []) \<and> e = bw_err b'"
proof (cases "bw_err b")
  case None
  from W None obtain b1 e1 where F: "(if Available b \<le> 0 then Flush wr b else Some (b, None)) = Some (b1, e1)"
    by (auto simp: bufio_WriteByte_def bind_eq_Some_iff)
  have b1: "bw_ok winv b1" "accepted out b1 = accepted out b" "e1 = bw_err b1" "e1 = None \<Longrightarrow> bw_n b1 < length (bw_buf b1)"
    using F Flush_spec [OF ok] ok bw_okD [OF ok] None by (auto split: if_splits)
  show ?thesis
  proof (cases e1)
    case e1: None
    have "go_set (bw_buf b1) (int (bw_n b1)) c = Some (take (bw_n b1) (bw_buf b1) @ [c] @ drop (bw_n b1 + 1) (bw_buf b1))"
      using b1(4) [OF e1] by (simp add: upd_conv_take_nth_drop)
    then have "b' = b1\<lparr>bw_buf := take (bw_n b1) (bw_buf b1) @ [c] @ drop (bw_n b1 + 1) (bw_buf b1), bw_n := bw_n b1 + 1\<rparr>" "e = None"
      using W None F e1 by (auto simp: bufio_WriteByte_def simp del: go_set_nat)
    then show ?thesis using bw_store(1) [OF b1(1), of 1 "[c]"] bw_store(2) [OF b1(1), of 1 "[c]", where out = out] b1 e1 by simp
  next
    case (Some x)
    then have "b' = b1" "e = bw_err b1" using W None F by (auto simp: bufio_WriteByte_def)
    moreover have "bw_err b1 = Some x" using b1(3) Some by simp
    ultimately show ?thesis using b1(1,2) by simp
  qed
next
  case (Some x)
  then have "b' = b" "e = Some x" using W by (simp_all add: bufio_WriteByte_def)
  then show ?thesis using ok Some by simp
qed

lemma WriteString_loop_spec:
  "WriteString_loop wr b i s = Some (n, e, b') \<Longrightarrow> bw_ok winv b \<Longrightarrow>
   bw_ok winv b' \<and> i \<le> n \<and> n \<le> i + length s \<and> accepted out b' = accepted out b @ take (n - i) s \<and> (e = None \<longrightarrow> n = i + length s)"
proof (induction s arbitrary: b i)
  case (Cons c s)
  from Cons.prems(1) obtain b1 e1 where W: "bufio_WriteByte wr b c = Some (b1, e1)" by (auto simp: bind_eq_Some_iff)
  note w = bufio_WriteByte_spec [OF Cons.prems(2) W]
  show ?case
  proof (cases e1)
    case None
    then have "WriteString_loop wr b1 (i + 1) s = Some (n, e, b')" using Cons.prems(1) W w by simp
    from Cons.IH [OF this] w None show ?thesis by (auto simp: Suc_diff_le take_Cons' dest: Suc_le_lessD)
  next
    case (Some x)
    then have b1: "bw_err b1 = Some x" "bw_ok winv b1" "accepted out b1 = accepted out b" using w by auto
    then have "n = i" "b' = b1" "e = Some x" using Cons.prems(1) W by simp_all
    then show ?thesis using b1(2,3) by simp
  qed
qed simp

lemma bufio_WriteString_spec:
  assumes ok: "bw_ok winv b" and W: "bufio_WriteString wr b s = Some (n, e, b')"
  shows "bw_ok winv b' \<and> n \<le> length s \<and> accepted out b' = accepted out b @ take n s \<and> (e = None \<longrightarrow> n = length s)"
proof (cases "bw_err b")
  case None
  from W None obtain b1 fits where F: "(if Available b \<ge> int (length s) then Some (b, True)
      else if length (bw_buf b) \<ge> length s then do { (b, e) \<leftarrow> Flush wr b; Some (b, e = None) } else Some (b, False)) = Some (b1, fits)"
    by (auto simp: bufio_WriteString_def bind_eq_Some_iff)
  have b1: "bw_ok winv b1 \<and> accepted out b1 = accepted out b \<and> (fits \<longrightarrow> bw_n b1 + length s \<le> length (bw_buf b1))"
  proof (cases "Available b \<ge> int (length s)")
    case True
    then show ?thesis using F ok by (auto simp: Available_def)
  next
    case av: False
    show ?thesis
    proof (cases "length s \<le> length (bw_buf b)")
      case True
      then obtain e1 where "Flush wr b = Some (b1, e1)" "fits = (e1 = None)" using F av by (auto simp: bind_eq_Some_iff)
      with Flush_spec [OF ok this(1)] True show ?thesis by simp
    qed (use F av ok in auto)
  qed
  show ?thesis
  proof (cases fits)
    case True
    have "put_bytes (bw_buf b1) (bw_n b1) s = Some (take (bw_n b1) (bw_buf b1) @ s @ drop (bw_n b1 + length s) (bw_buf b1), bw_n b1 + length s)"
      using b1 True by (intro put_bytes_eq) simp
    then have r: "b' = b1\<lparr>bw_buf := take (bw_n b1) (bw_buf b1) @ s @ drop (bw_n b1 + length s) (bw_buf b1), bw_n := bw_n b1 + length s\<rparr>"
      "n = length s" "e = None" using W None F True by (auto simp: bufio_WriteString_def)
    have "length s \<le> length (bw_buf b1) - bw_n b1" using b1 True by auto
    then show ?thesis unfolding r using bw_store(1) [OF _ _ refl, of winv b1 s] bw_store(2) [OF _ _ refl, of winv b1 s, where out = out] b1 by simp
  next
    case False
    then have "WriteString_loop wr b1 0 s = Some (n, e, b')" using W None F by (simp add: bufio_WriteString_def)
    from WriteString_loop_spec [OF this] b1 show ?thesis by simp
  qed
qed (use W ok in \<open>auto simp: bufio_WriteString_def\<close>)

lemma bufio_WriteString_writer: "writer (bufio_WriteString wr) (accepted out) (bw_ok winv)"
  by unfold_locales (use bufio_WriteString_spec in blast)+

text \<open>If the underlying writer never panics, the buffered writer returns.\<close>

lemma Flush_returns:
  assumes "\<And>w p. winv w \<Longrightarrow> length p < 2 ^ 31 \<Longrightarrow> wr w p \<noteq> None" "bw_ok winv b"
  shows "\<exists>r. Flush wr b = Some r"
proof -
  have "wr (bw_wr b) (take (bw_n b) (bw_buf b)) \<noteq> None" using assms(1) bw_okD [OF assms(2)] by simp
  then show ?thesis by (auto simp: Flush_def Let_def)
qed

lemma Write_loop_returns:
  assumes "\<And>w p. winv w \<Longrightarrow> length p < 2 ^ 31 \<Longrightarrow> wr w p \<noteq> None" "bw_ok winv b" "bw_err b = None" "length p < 2 ^ 31"
  shows "\<exists>r. Write_loop wr b p nn = Some r"
  using assms(2-4)
proof (induction "length p" arbitrary: b p nn rule: less_induct)
  case less
  show ?case
  proof (cases "p = []")
    case True
    then show ?thesis by (simp add: Write_loop.simps)
  next
    case False
    have "\<exists>b1. (if Available b \<le> 0 then do { (b, _) \<leftarrow> Flush wr b; Some b } else Some b) = Some b1"
      using Flush_returns [OF assms(1) less.prems(1)] by auto
    then obtain b1 where F: "(if Available b \<le> 0 then do { (b, _) \<leftarrow> Flush wr b; Some b } else Some b) = Some b1" by blast
    then have "bw_ok winv b1" using Flush_spec [OF less.prems(1)] less.prems(1) by (auto simp: bind_eq_Some_iff split: if_splits)
    then have "wr (bw_wr b1) p \<noteq> None" using assms(1) less.prems(3) by (simp add: bw_ok_def)
    then obtain n e w where "wr (bw_wr b1) p = Some (n, e, w)" by auto
    then have "Write_step wr b p \<noteq> None" unfolding Write_step_def F by (auto simp: Let_def)
    then obtain c m b2 where S: "Write_step wr b p = Some (c, m, b2)" by (cases "Write_step wr b p") auto
    note s = Write_step_spec [OF less.prems(1,2) False less.prems(3) S]
    have "go_slice p (int m) (int (length p)) = Some (drop m p)" using s by (simp add: slice_def)
    then have "Write_loop wr b p nn = (if c then Write_loop wr b2 (drop m p) (nn + m) else Some (nn + m, b2))"
      using False S by (subst Write_loop.simps) (simp del: go_slice_nat)
    moreover have "c \<Longrightarrow> \<exists>r. Write_loop wr b2 (drop m p) (nn + m) = Some r"
      by (rule less.hyps) (use s False less.prems(3) in auto)
    ultimately show ?thesis by auto
  qed
qed

end

section \<open>The contract of io.Writer\<close>

interpretation bbw: writer "bufio_Write buffer_Writer" "accepted contents" "bw_ok buf_inv"
  by (rule bw.bufio_Write_writer)

text \<open>C38: Buffering keeps the contract of \<open>io.Writer\<close>. Over every writer that keeps it, \<open>Write\<close> and \<open>WriteString\<close> of a
  \<open>bufio.Writer\<close> keep it again: the count is exactly the number of bytes accepted, in order, in front of those still in
  the buffer, and a short count comes with an error, also when a flush in between fails or is short. A \<open>Flush\<close> without
  an error hands all accepted bytes to the underlying writer, and one with an error loses none. If the
  underlying writer never panics, \<open>Write\<close> and \<open>Flush\<close> return.\<close>

theorem bufio_Writer_contract:
  assumes "writer wr out winv"
  shows "writer (bufio_Write wr) (accepted out) (bw_ok winv) \<and> writer (bufio_WriteString wr) (accepted out) (bw_ok winv) \<and>
    (bw_ok winv b \<and> Flush wr b = Some (b', e) \<longrightarrow>
      accepted out b' = accepted out b \<and> (e = None \<longrightarrow> out (bw_wr b') = accepted out b)) \<and>
    (bw_ok winv b \<and> length p < 2 ^ 31 \<and> (\<forall>w p. winv w \<and> length p < 2 ^ 31 \<longrightarrow> wr w p \<noteq> None) \<longrightarrow>
      bufio_Write wr b p \<noteq> None \<and> Flush wr b \<noteq> None)"
proof (intro conjI impI)
  show "writer (bufio_Write wr) (accepted out) (bw_ok winv)" "writer (bufio_WriteString wr) (accepted out) (bw_ok winv)"
    using writer.bufio_Write_writer [OF assms] writer.bufio_WriteString_writer [OF assms] by blast+
next
  assume "bw_ok winv b \<and> Flush wr b = Some (b', e)"
  then have "accepted out b' = accepted out b \<and> (e = None \<longrightarrow> bw_n b' = 0)" using writer.Flush_spec [OF assms] by blast
  then show "accepted out b' = accepted out b" "e = None \<Longrightarrow> out (bw_wr b') = accepted out b" by (auto simp: accepted_def)
next
  assume a: "bw_ok winv b \<and> length p < 2 ^ 31 \<and> (\<forall>w p. winv w \<and> length p < 2 ^ 31 \<longrightarrow> wr w p \<noteq> None)"
  then have t: "\<And>w p. winv w \<Longrightarrow> length p < 2 ^ 31 \<Longrightarrow> wr w p \<noteq> None" by blast
  show "Flush wr b \<noteq> None" using writer.Flush_returns [OF assms t, of b] a by auto
  show "bufio_Write wr b p \<noteq> None"
    using writer.Write_loop_returns [OF assms t, of b p 0] a by (cases "bw_err b") (auto simp: bufio_Write_def)
qed

theorem bufio_Writer_contract_witness:
  "writer (bufio_Write buffer_Writer) (accepted contents) (bw_ok buf_inv) \<and>
   bufio_Write (\<lambda>w p. Some (length p, None, w @ p)) (new_Writer 2 []) (bs ''abc'') \<noteq> None"
proof -
  let ?wr = "\<lambda>(w :: gostring) p. Some (length p, None, w @ p)"
  have "writer ?wr (\<lambda>w. w) (\<lambda>_. True)" by unfold_locales auto
  from bufio_Writer_contract [OF this, of "new_Writer 2 []" _ _ "bs ''abc''"]
  have "bufio_Write ?wr (new_Writer 2 []) (bs ''abc'') \<noteq> None" by (simp add: bw_ok_def new_Writer_def)
  with bufio_Writer_contract [OF bw.writer_axioms] show ?thesis by blast
qed

end
