(* ===== verification/Sync.thy ===== *)
theory Sync
  imports Go_Prelude
begin

text \<open>
  Package sync: \<open>Mutex\<close> (\<open>mutex.go\<close>). Every atomic operation is a definition: the
  \<open>AddInt32\<close> of \<open>Lock\<close> and \<open>Unlock\<close> with the decision taken on its result, and the semaphore operations of the run-time,
  whose documented behaviour is that \<open>Semacquire\<close> waits until the count is positive and decrements it, and \<open>Semrelease\<close>
  increments it. The goroutines are the multiset of the points they are at, and a step relation interleaves them. The
  relation between the counters of a mutex and the goroutines at each point is stated once (\<open>mutex_ok\<close>) and serves
  also the two mutexes of an \<open>RWMutex\<close> (theory \<open>Sync_RWMutex\<close>), which are modelled in the same detail.
\<close>

section \<open>Mutex\<close>

record Mutex =
  m_key :: int
  m_sema :: nat

definition zero_Mutex :: Mutex where
  "zero_Mutex = \<lparr>m_key = 0, m_sema = 0\<rparr>"

definition Semacquire :: "nat \<Rightarrow> nat option" where
  "Semacquire s = (if s > 0 then Some (s - 1) else None)"

definition Semrelease :: "nat \<Rightarrow> nat" where
  "Semrelease s = (s + 1) mod 2 ^ 32"

text \<open>The \<open>AddInt32\<close> of \<open>Lock\<close>, and whether the lock is taken without waiting.\<close>

definition Lock_add :: "Mutex \<Rightarrow> Mutex \<times> bool" where
  "Lock_add m = (let v = int32 (m_key m + 1) in (m\<lparr>m_key := v\<rparr>, v = 1))"

datatype unlock_res = U_return | U_release | U_panic

definition Unlock_add :: "Mutex \<Rightarrow> Mutex \<times> unlock_res" where
  "Unlock_add m = (let v = int32 (m_key m - 1) in
     (m\<lparr>m_key := v\<rparr>, if v = 0 then U_return else if v = -1 then U_panic else U_release))"

definition Mutex_acquire :: "Mutex \<Rightarrow> Mutex option" where
  "Mutex_acquire m = do { s \<leftarrow> Semacquire (m_sema m); Some (m\<lparr>m_sema := s\<rparr>) }"

definition Mutex_release :: "Mutex \<Rightarrow> Mutex" where
  "Mutex_release m = m\<lparr>m_sema := Semrelease (m_sema m)\<rparr>"

text \<open>A mutex with \<open>w\<close> goroutines that wait for it, \<open>h\<close> that hold it and \<open>r\<close> that are about to pass it on.\<close>

definition mutex_ok :: "Mutex \<Rightarrow> nat \<Rightarrow> nat \<Rightarrow> nat \<Rightarrow> bool" where
  "mutex_ok m w h r \<longleftrightarrow> m_key m = int (w + h) \<and> h + m_sema m + r = (if w + h > 0 then 1 else 0)"

lemma zero_Mutex_ok [simp]: "mutex_ok zero_Mutex 0 0 0"
  by (simp add: mutex_ok_def zero_Mutex_def)

lemma mutex_ok_excl: "mutex_ok m w h r \<Longrightarrow> h \<le> 1"
  by (simp add: mutex_ok_def split: if_splits)

lemma mutex_ok_zero: "mutex_ok m 0 0 0 \<Longrightarrow> m = zero_Mutex"
  by (simp add: mutex_ok_def zero_Mutex_def)

lemma mutex_ok_waiting: "mutex_ok m (Suc w) h r \<Longrightarrow> 0 < h \<or> 0 < r \<or> Mutex_acquire m \<noteq> None"
  by (auto simp: mutex_ok_def Mutex_acquire_def Semacquire_def)

lemma Lock_add_ok:
  assumes "mutex_ok m w h r" "Lock_add m = (m', got)" "w + h + 1 < 2 ^ 31"
  shows "if got then mutex_ok m' w (h + 1) r \<and> w + h = 0 else mutex_ok m' (w + 1) h r"
proof -
  have "is_int32 (m_key m + 1)" using assms(1,3) by (simp add: mutex_ok_def is_int32_def)
  then have "m' = m\<lparr>m_key := m_key m + 1\<rparr>" "got = (m_key m + 1 = 1)" using assms(2) by (auto simp: Lock_add_def Let_def)
  then show ?thesis using assms(1) by (auto simp: mutex_ok_def)
qed

lemma Unlock_add_ok:
  assumes "mutex_ok m w (Suc h) r" "Unlock_add m = (m', u)" "w + h + 1 < 2 ^ 31"
  shows "h = 0 \<and> r = 0 \<and> (u = U_return \<and> w = 0 \<and> mutex_ok m' 0 0 0 \<or> u = U_release \<and> 0 < w \<and> mutex_ok m' w 0 1)"
proof -
  have k: "m_key m = int w + 1" "h = 0" "r = 0" "m_sema m = 0" using assms(1) by (auto simp: mutex_ok_def)
  then have "is_int32 (m_key m - 1)" using assms(3) by (simp add: is_int32_def)
  then have "m' = m\<lparr>m_key := int w\<rparr>" "u = (if w = 0 then U_return else U_release)"
    using assms(2) k(1) by (auto simp: Unlock_add_def Let_def)
  then show ?thesis using k by (auto simp: mutex_ok_def)
qed

lemma Mutex_acquire_ok: "mutex_ok m (Suc w) h r \<Longrightarrow> Mutex_acquire m = Some m' \<Longrightarrow> mutex_ok m' w (h + 1) r"
  by (auto simp: mutex_ok_def Mutex_acquire_def Semacquire_def split: if_splits)

lemma Mutex_release_ok: "mutex_ok m w h (Suc r) \<Longrightarrow> mutex_ok (Mutex_release m) w h r \<and> Mutex_acquire (Mutex_release m) \<noteq> None"
  by (auto simp: mutex_ok_def Mutex_release_def Semrelease_def Mutex_acquire_def Semacquire_def split: if_splits)

lemma Mutex_acquire_Some: "mutex_ok m (Suc w) 0 0 \<Longrightarrow> \<exists>m'. Mutex_acquire m = Some m'"
  using mutex_ok_waiting [of m w 0 0] by auto

text \<open>The points of a goroutine that uses one mutex, and the steps of a system of them.\<close>

datatype mutex_pc = M_idle | M_wait | M_hold | M_rel

abbreviation move :: "'a \<Rightarrow> 'a \<Rightarrow> 'a multiset \<Rightarrow> 'a multiset" where
  "move a b T \<equiv> add_mset b (T - {#a#})"

inductive mutex_step :: "Mutex \<times> mutex_pc multiset \<Rightarrow> Mutex \<times> mutex_pc multiset \<Rightarrow> bool" where
  lock: "M_idle \<in># T \<Longrightarrow> Lock_add m = (m', got) \<Longrightarrow>
    mutex_step (m, T) (m', move M_idle (if got then M_hold else M_wait) T)"
| acquire: "M_wait \<in># T \<Longrightarrow> Mutex_acquire m = Some m' \<Longrightarrow> mutex_step (m, T) (m', move M_wait M_hold T)"
| unlock: "M_hold \<in># T \<Longrightarrow> Unlock_add m = (m', u) \<Longrightarrow> u \<noteq> U_panic \<Longrightarrow>
    mutex_step (m, T) (m', move M_hold (if u = U_return then M_idle else M_rel) T)"
| release: "M_rel \<in># T \<Longrightarrow> mutex_step (m, T) (Mutex_release m, move M_rel M_idle T)"

definition mutex_inv :: "nat \<Rightarrow> Mutex \<times> mutex_pc multiset \<Rightarrow> bool" where
  "mutex_inv N s \<longleftrightarrow> (case s of (m, T) \<Rightarrow> size T = N \<and> mutex_ok m (count T M_wait) (count T M_hold) (count T M_rel))"

lemma size_move: "a \<in># T \<Longrightarrow> Suc (size (T - {#a#})) = size T"
  by (metis insert_DiffM size_add_mset)

lemma in_mset_Suc: "a \<in># T \<Longrightarrow> \<exists>k. count T a = Suc k"
  by (simp add: count_greater_zero_iff [symmetric] gr0_conv_Suc del: count_greater_zero_iff)

lemma count_two: "a \<noteq> b \<Longrightarrow> count T a + count T b \<le> size T"
proof -
  assume "a \<noteq> b"
  then have "replicate_mset (count T a) a + replicate_mset (count T b) b \<subseteq># T" by (simp add: subseteq_mset_def)
  from size_mset_mono [OF this] show ?thesis by simp
qed

lemma mutex_step_inv:
  assumes "mutex_step s s'" "mutex_inv N s" "N < 2 ^ 31"
  shows "mutex_inv N s'"
  using assms
proof (induction rule: mutex_step.induct)
  case (lock T m m' got)
  have "count T M_wait + count T M_hold + 1 < 2 ^ 31"
  proof -
    have "replicate_mset (count T M_wait) M_wait + replicate_mset (count T M_hold) M_hold + {#M_idle#} \<subseteq># T"
      using lock(1) by (auto simp: subseteq_mset_def)
    from size_mset_mono [OF this] show ?thesis using lock(3,4) by (simp add: mutex_inv_def)
  qed
  with lock show ?case using Lock_add_ok [of m "count T M_wait" "count T M_hold" "count T M_rel" m' got]
    by (auto simp: mutex_inv_def size_move)
next
  case (acquire T m m')
  then obtain w where w: "count T M_wait = Suc w" using in_mset_Suc by metis
  with acquire show ?case using Mutex_acquire_ok [of m w "count T M_hold" "count T M_rel" m'] by (auto simp: mutex_inv_def size_move)
next
  case (unlock T m m' u)
  then obtain h where h: "count T M_hold = Suc h" using in_mset_Suc by metis
  have "count T M_wait + h + 1 < 2 ^ 31" using count_two [of M_wait M_hold T] h unlock(4,5) by (simp add: mutex_inv_def)
  with unlock h show ?case using Unlock_add_ok [of m "count T M_wait" h "count T M_rel" m' u] by (auto simp: mutex_inv_def size_move)
next
  case (release T m)
  then obtain r where r: "count T M_rel = Suc r" using in_mset_Suc by metis
  with release show ?case using Mutex_release_ok [of m "count T M_wait" "count T M_hold" r] by (auto simp: mutex_inv_def size_move)
qed

lemma mutex_reach_inv:
  assumes "mutex_step\<^sup>*\<^sup>* (zero_Mutex, replicate_mset N M_idle) s" "N < 2 ^ 31"
  shows "mutex_inv N s"
  using assms(1)
proof (induction rule: rtranclp_induct)
  case base
  then show ?case by (simp add: mutex_inv_def)
next
  case (step y z)
  then show ?case using mutex_step_inv assms(2) by blast
qed

text \<open>From a state with a waiting goroutine the others can let one in.\<close>

lemma mutex_wait_progress:
  assumes inv: "mutex_inv N (m, T)" and N: "N < 2 ^ 31" and w: "M_wait \<in># T"
  shows "\<exists>m' T'. mutex_step\<^sup>*\<^sup>* (m, T) (m', T') \<and> count T' M_wait < count T M_wait"
proof -
  obtain k where k: "count T M_wait = Suc k" using in_mset_Suc [OF w] ..
  have acq: "\<exists>m' T'. mutex_step (m1, T1) (m', T') \<and> count T' M_wait < count T M_wait"
    if a: "Mutex_acquire m1 \<noteq> None" and c: "count T1 M_wait = Suc k" for m1 T1
  proof -
    obtain m' where "Mutex_acquire m1 = Some m'" using a by blast
    moreover have "M_wait \<in># T1" using c by (metis count_greater_zero_iff zero_less_Suc)
    ultimately show ?thesis using mutex_step.acquire [of T1 m1 m'] c k by force
  qed
  have rel: "\<exists>m' T'. mutex_step\<^sup>*\<^sup>* (m1, T1) (m', T') \<and> count T' M_wait < count T M_wait"
    if i: "mutex_inv N (m1, T1)" and r: "M_rel \<in># T1" and c: "count T1 M_wait = Suc k" for m1 T1
  proof -
    obtain r where "count T1 M_rel = Suc r" using in_mset_Suc [OF r] ..
    then have "Mutex_acquire (Mutex_release m1) \<noteq> None"
      using Mutex_release_ok [of m1 "count T1 M_wait" "count T1 M_hold" r] i by (simp add: mutex_inv_def)
    from acq [OF this, of "move M_rel M_idle T1"] mutex_step.release [OF r, of m1] show ?thesis
      using c by (simp, meson converse_rtranclp_into_rtranclp r_into_rtranclp)
  qed
  consider (h) "M_hold \<in># T" | (r) "M_rel \<in># T" | (a) "Mutex_acquire m \<noteq> None"
    using mutex_ok_waiting [of m k "count T M_hold" "count T M_rel"] inv k by (auto simp: mutex_inv_def)
  then show ?thesis
  proof cases
    case h
    obtain m1 u where u: "Unlock_add m = (m1, u)" by force
    obtain j where j: "count T M_hold = Suc j" using in_mset_Suc [OF h] ..
    have "count T M_wait + j + 1 < 2 ^ 31" using count_two [of M_wait M_hold T] j inv N by (simp add: mutex_inv_def)
    then have r: "u = U_release" using Unlock_add_ok [of m "Suc k" j "count T M_rel" m1 u] inv j k u by (auto simp: mutex_inv_def)
    then have st: "mutex_step (m, T) (m1, move M_hold M_rel T)" using mutex_step.unlock [OF h u] by simp
    from rel [OF mutex_step_inv [OF st inv N]] k st show ?thesis by (simp, meson converse_rtranclp_into_rtranclp)
  next
    case r
    then show ?thesis using rel inv k by blast
  next
    case a
    then show ?thesis using acq k by blast
  qed
qed

text \<open>C7: \<open>Mutex\<close> excludes and loses no wake-up. Let fewer than \<open>2 ^ 31\<close> goroutines lock and unlock one mutex in any
  interleaving of the atomic steps of \<open>Lock\<close> and \<open>Unlock\<close>. Then at most one holds it at a time, the \<open>Unlock\<close> of the
  holder does not panic, from every state with a waiting goroutine steps lead to a state in which one fewer waits, and
  when all are outside, the mutex is the zero \<open>Mutex\<close> again, whose \<open>Unlock\<close> panics.\<close>

theorem mutex_exclusion:
  assumes "mutex_step\<^sup>*\<^sup>* (zero_Mutex, replicate_mset N M_idle) (m, T)" "N < 2 ^ 31"
  shows "count T M_hold \<le> 1 \<and> (M_hold \<in># T \<longrightarrow> snd (Unlock_add m) \<noteq> U_panic) \<and>
    (M_wait \<in># T \<longrightarrow> (\<exists>m' T'. mutex_step\<^sup>*\<^sup>* (m, T) (m', T') \<and> count T' M_wait < count T M_wait)) \<and>
    (T = replicate_mset N M_idle \<longrightarrow> m = zero_Mutex \<and> snd (Unlock_add m) = U_panic)"
proof -
  have inv: "mutex_inv N (m, T)" using mutex_reach_inv assms by blast
  then have ok: "size T = N" "mutex_ok m (count T M_wait) (count T M_hold) (count T M_rel)" by (auto simp: mutex_inv_def)
  have panic: "snd (Unlock_add m) \<noteq> U_panic" if h: "M_hold \<in># T"
  proof -
    obtain m1 u where u: "Unlock_add m = (m1, u)" by force
    obtain j where j: "count T M_hold = Suc j" using in_mset_Suc [OF h] ..
    have "count T M_wait + j + 1 < 2 ^ 31" using count_two [of M_wait M_hold T] j ok(1) assms(2) by simp
    then show ?thesis using Unlock_add_ok [of m "count T M_wait" j "count T M_rel" m1 u] ok(2) j u by auto
  qed
  have "m = zero_Mutex \<and> snd (Unlock_add m) = U_panic" if "T = replicate_mset N M_idle"
  proof -
    have "m = zero_Mutex" using ok(2) mutex_ok_zero that by simp
    then show ?thesis by (simp add: Unlock_add_def zero_Mutex_def Let_def is_int32_def)
  qed
  then show ?thesis using mutex_ok_excl [OF ok(2)] mutex_wait_progress [OF inv assms(2)] panic by blast
qed

theorem mutex_exclusion_witness:
  "\<exists>m. mutex_step\<^sup>*\<^sup>* (zero_Mutex, {#M_idle, M_idle#}) (m, {#M_hold, M_wait#}) \<and>
     (\<exists>m' T'. mutex_step\<^sup>*\<^sup>* (m, {#M_hold, M_wait#}) (m', T') \<and> count T' M_wait < 1)"
proof -
  let ?m1 = "\<lparr>m_key = 1, m_sema = 0\<rparr>" and ?m2 = "\<lparr>m_key = 2, m_sema = 0\<rparr>"
  have l: "Lock_add zero_Mutex = (?m1, True)" "Lock_add ?m1 = (?m2, False)"
    by (simp_all add: Lock_add_def zero_Mutex_def is_int32_def Let_def)
  have "mutex_step (zero_Mutex, {#M_idle, M_idle#}) (?m1, {#M_hold, M_idle#})"
    using mutex_step.lock [OF _ l(1), of "{#M_idle, M_idle#}"] by simp
  moreover have "mutex_step (?m1, {#M_hold, M_idle#}) (?m2, {#M_hold, M_wait#})"
    using mutex_step.lock [OF _ l(2), of "{#M_hold, M_idle#}"] by (simp add: add_mset_commute)
  ultimately have r: "mutex_step\<^sup>*\<^sup>* (zero_Mutex, {#M_idle, M_idle#}) (?m2, {#M_hold, M_wait#})"
    by (meson converse_rtranclp_into_rtranclp r_into_rtranclp)
  moreover have "replicate_mset 2 M_idle = {#M_idle, M_idle#}" by (simp add: numeral_2_eq_2)
  ultimately have "count {#M_hold, M_wait#} M_hold \<le> 1 \<and>
      (\<exists>m' T'. mutex_step\<^sup>*\<^sup>* (?m2, {#M_hold, M_wait#}) (m', T') \<and> count T' M_wait < count {#M_hold, M_wait#} M_wait)"
    using mutex_exclusion [of 2 ?m2 "{#M_hold, M_wait#}"] by simp
  with r show ?thesis by auto
qed

end
