(* ===== verification/Sync_RWMutex.thy ===== *)
theory Sync_RWMutex
  imports Sync
begin

text \<open>
  Package sync: \<open>RWMutex\<close> (\<open>rwmutex.go\<close>) over its two mutexes. \<open>rw_next\<close> is what a goroutine does next at each point of
  \<open>RLock\<close>, \<open>RUnlock\<close>, \<open>Lock\<close> and \<open>Unlock\<close>, one atomic operation at a time, and \<open>rw_step\<close> interleaves any number of
  goroutines. The invariant relates both mutexes and the count of readers to the goroutines at each point.
\<close>

record RWMutex =
  rw_w :: Mutex
  rw_r :: Mutex
  rw_readerCount :: int

definition zero_RWMutex :: RWMutex where
  "zero_RWMutex = \<lparr>rw_w = zero_Mutex, rw_r = zero_Mutex, rw_readerCount = 0\<rparr>"

text \<open>The points of a goroutine: in \<open>RLock\<close> waiting for \<open>r\<close>, about to count itself, about to lock \<open>w\<close>, waiting for \<open>w\<close>,
  about to unlock \<open>r\<close>, about to release the semaphore of \<open>r\<close>; reading; in \<open>RUnlock\<close> about to unlock \<open>w\<close> or to release its
  semaphore; and the points of \<open>Lock\<close> and \<open>Unlock\<close> in the same way.\<close>

datatype rw_pc = RW_idle
  | RL_r | RL_add | RL_lock | RL_w | RL_unlock | RL_rel | RW_read | RU_unlock | RU_rel
  | WL_r | WL_lock | WL_w | WL_unlock | WL_rel | RW_write | WU_rel

datatype 'a outcome = Step 'a | Blocked | Panicked

definition mutex_Lock :: "Mutex \<Rightarrow> 'p \<Rightarrow> 'p \<Rightarrow> (Mutex \<times> 'p) outcome" where
  "mutex_Lock m held waiting = (let (m', got) = Lock_add m in Step (m', if got then held else waiting))"

definition mutex_Semacquire :: "Mutex \<Rightarrow> 'p \<Rightarrow> (Mutex \<times> 'p) outcome" where
  "mutex_Semacquire m held = (case Mutex_acquire m of None \<Rightarrow> Blocked | Some m' \<Rightarrow> Step (m', held))"

definition mutex_Unlock :: "Mutex \<Rightarrow> 'p \<Rightarrow> 'p \<Rightarrow> (Mutex \<times> 'p) outcome" where
  "mutex_Unlock m free releasing = (let (m', u) = Unlock_add m in
     if u = U_panic then Panicked else Step (m', if u = U_return then free else releasing))"

fun on_r :: "RWMutex \<Rightarrow> (Mutex \<times> 'p) outcome \<Rightarrow> (RWMutex \<times> 'p) outcome" where
  "on_r rw (Step (m, p)) = Step (rw\<lparr>rw_r := m\<rparr>, p)"
| "on_r rw Blocked = Blocked"
| "on_r rw Panicked = Panicked"

fun on_w :: "RWMutex \<Rightarrow> (Mutex \<times> 'p) outcome \<Rightarrow> (RWMutex \<times> 'p) outcome" where
  "on_w rw (Step (m, p)) = Step (rw\<lparr>rw_w := m\<rparr>, p)"
| "on_w rw Blocked = Blocked"
| "on_w rw Panicked = Panicked"

definition RLock_add :: "RWMutex \<Rightarrow> RWMutex \<times> bool" where
  "RLock_add rw = (let v = int32 (rw_readerCount rw + 1) in (rw\<lparr>rw_readerCount := v\<rparr>, v = 1))"

definition RUnlock_add :: "RWMutex \<Rightarrow> RWMutex \<times> bool" where
  "RUnlock_add rw = (let v = int32 (rw_readerCount rw - 1) in (rw\<lparr>rw_readerCount := v\<rparr>, v = 0))"

text \<open>The next atomic operation of a goroutine; one outside calls \<open>Lock\<close> when \<open>writer\<close> holds and \<open>RLock\<close> otherwise.\<close>

fun rw_next :: "bool \<Rightarrow> rw_pc \<Rightarrow> RWMutex \<Rightarrow> (RWMutex \<times> rw_pc) outcome" where
  "rw_next writer RW_idle rw = (if writer then on_r rw (mutex_Lock (rw_r rw) WL_lock WL_r)
     else on_r rw (mutex_Lock (rw_r rw) RL_add RL_r))"
| "rw_next _ RL_r rw = on_r rw (mutex_Semacquire (rw_r rw) RL_add)"
| "rw_next _ RL_add rw = (let (rw', first) = RLock_add rw in Step (rw', if first then RL_lock else RL_unlock))"
| "rw_next _ RL_lock rw = on_w rw (mutex_Lock (rw_w rw) RL_unlock RL_w)"
| "rw_next _ RL_w rw = on_w rw (mutex_Semacquire (rw_w rw) RL_unlock)"
| "rw_next _ RL_unlock rw = on_r rw (mutex_Unlock (rw_r rw) RW_read RL_rel)"
| "rw_next _ RL_rel rw = Step (rw\<lparr>rw_r := Mutex_release (rw_r rw)\<rparr>, RW_read)"
| "rw_next _ RW_read rw = (let (rw', last) = RUnlock_add rw in Step (rw', if last then RU_unlock else RW_idle))"
| "rw_next _ RU_unlock rw = on_w rw (mutex_Unlock (rw_w rw) RW_idle RU_rel)"
| "rw_next _ RU_rel rw = Step (rw\<lparr>rw_w := Mutex_release (rw_w rw)\<rparr>, RW_idle)"
| "rw_next _ WL_r rw = on_r rw (mutex_Semacquire (rw_r rw) WL_lock)"
| "rw_next _ WL_lock rw = on_w rw (mutex_Lock (rw_w rw) WL_unlock WL_w)"
| "rw_next _ WL_w rw = on_w rw (mutex_Semacquire (rw_w rw) WL_unlock)"
| "rw_next _ WL_unlock rw = on_r rw (mutex_Unlock (rw_r rw) RW_write WL_rel)"
| "rw_next _ WL_rel rw = Step (rw\<lparr>rw_r := Mutex_release (rw_r rw)\<rparr>, RW_write)"
| "rw_next _ RW_write rw = on_w rw (mutex_Unlock (rw_w rw) RW_idle WU_rel)"
| "rw_next _ WU_rel rw = Step (rw\<lparr>rw_w := Mutex_release (rw_w rw)\<rparr>, RW_idle)"

inductive rw_step :: "RWMutex \<times> rw_pc multiset \<Rightarrow> RWMutex \<times> rw_pc multiset \<Rightarrow> bool" where
  "p \<in># T \<Longrightarrow> rw_next writer p rw = Step (rw', p') \<Longrightarrow> rw_step (rw, T) (rw', move p p' T)"

section \<open>The invariant\<close>

text \<open>The goroutines that wait for \<open>r\<close>, hold it and pass it on; the first reader on its way to \<open>w\<close>; the readers that are
  in; and the goroutines that wait for \<open>w\<close>, hold it (the readers that are in hold it together) and pass it on.\<close>

definition r_waits :: "(rw_pc \<Rightarrow> nat) \<Rightarrow> nat" where "r_waits c = c RL_r + c WL_r"

definition r_holds :: "(rw_pc \<Rightarrow> nat) \<Rightarrow> nat" where
  "r_holds c = c RL_add + c RL_lock + c RL_w + c RL_unlock + c WL_lock + c WL_w + c WL_unlock"

definition r_rels :: "(rw_pc \<Rightarrow> nat) \<Rightarrow> nat" where "r_rels c = c RL_rel + c WL_rel"

definition entering :: "(rw_pc \<Rightarrow> nat) \<Rightarrow> nat" where "entering c = c RL_lock + c RL_w"

definition readers :: "(rw_pc \<Rightarrow> nat) \<Rightarrow> nat" where "readers c = c RL_unlock + c RL_rel + c RW_read"

definition w_waits :: "(rw_pc \<Rightarrow> nat) \<Rightarrow> nat" where "w_waits c = c RL_w + c WL_w"

definition w_holds :: "(rw_pc \<Rightarrow> nat) \<Rightarrow> nat" where
  "w_holds c = c WL_unlock + c WL_rel + c RW_write + c RU_unlock + (if readers c = 0 then 0 else 1)"

definition w_rels :: "(rw_pc \<Rightarrow> nat) \<Rightarrow> nat" where "w_rels c = c RU_rel + c WU_rel"

definition everyone :: "(rw_pc \<Rightarrow> nat) \<Rightarrow> nat" where
  "everyone c = c RW_idle + c RL_add + entering c + readers c + r_waits c + c WL_lock + c WL_w + c WL_unlock + c WL_rel +
     c RW_write + c RU_unlock + w_rels c"

lemmas rw_counts = r_waits_def r_holds_def r_rels_def entering_def readers_def w_waits_def w_holds_def w_rels_def everyone_def

definition rw_ok :: "nat \<Rightarrow> RWMutex \<Rightarrow> (rw_pc \<Rightarrow> nat) \<Rightarrow> bool" where
  "rw_ok N rw c \<longleftrightarrow> everyone c = N \<and> mutex_ok (rw_r rw) (r_waits c) (r_holds c) (r_rels c) \<and>
     mutex_ok (rw_w rw) (w_waits c) (w_holds c) (w_rels c) \<and>
     rw_readerCount rw = int (entering c + readers c) \<and> (entering c = 0 \<or> readers c = 0)"

text \<open>The counts after a goroutine went from \<open>p\<close> to \<open>p'\<close>.\<close>

definition went :: "rw_pc \<Rightarrow> rw_pc \<Rightarrow> (rw_pc \<Rightarrow> nat) \<Rightarrow> rw_pc \<Rightarrow> nat" where
  "went p p' c = c(p := c p - 1, p' := Suc (c p'))"

lemma count_move: "p \<in># T \<Longrightarrow> p \<noteq> p' \<Longrightarrow> count (move p p' T) = went p p' (count T)"
  by (auto simp: went_def fun_eq_iff)

text \<open>What the mutex operations do, in the form the invariant needs.\<close>

lemma mutex_Lock_Step:
  assumes "mutex_Lock m a b = Step (m', p)" "mutex_ok m w h r" "w + h + 1 < 2 ^ 31"
  shows "p = a \<and> mutex_ok m' w (h + 1) r \<or> p = b \<and> mutex_ok m' (w + 1) h r"
proof -
  obtain m1 got where "Lock_add m = (m1, got)" by force
  with assms Lock_add_ok [OF assms(2) this assms(3)] show ?thesis by (auto simp: mutex_Lock_def split: if_splits)
qed

lemma mutex_Semacquire_Step:
  "mutex_Semacquire m a = Step (m', p) \<Longrightarrow> mutex_ok m (Suc w) h r \<Longrightarrow> p = a \<and> mutex_ok m' w (h + 1) r"
  by (auto simp: mutex_Semacquire_def dest: Mutex_acquire_ok split: option.splits)

lemma mutex_Unlock_Step:
  assumes "mutex_ok m w (Suc h) r" "w + h + 1 < 2 ^ 31"
  shows "h = 0 \<and> r = 0 \<and> (\<exists>m'. mutex_Unlock m a b = Step (m', a) \<and> w = 0 \<and> mutex_ok m' 0 0 0 \<or>
    mutex_Unlock m a b = Step (m', b) \<and> 0 < w \<and> mutex_ok m' w 0 1)"
proof -
  obtain m1 u where "Unlock_add m = (m1, u)" by force
  with Unlock_add_ok [OF assms(1) this assms(2)] show ?thesis by (auto simp: mutex_Unlock_def)
qed

lemma on_r_Step: "on_r rw x = Step (rw', p) \<longleftrightarrow> (\<exists>m. x = Step (m, p) \<and> rw' = rw\<lparr>rw_r := m\<rparr>)"
  by (cases "(rw, x)" rule: on_r.cases) auto

lemma on_w_Step: "on_w rw x = Step (rw', p) \<longleftrightarrow> (\<exists>m. x = Step (m, p) \<and> rw' = rw\<lparr>rw_w := m\<rparr>)"
  by (cases "(rw, x)" rule: on_w.cases) auto

text \<open>The operations keep the invariant, one lemma for each operation on \<open>r\<close>, on the count and on \<open>w\<close>.\<close>

lemma rw_bounds:
  assumes "rw_ok N rw c" "N < 2 ^ 31"
  shows "r_waits c + r_holds c < 2 ^ 31" "w_waits c + w_holds c < 2 ^ 31"
  using assms by (auto simp: rw_ok_def rw_counts)

lemma rw_r_lock_ok:
  assumes ok: "rw_ok N rw c" and N: "N < 2 ^ 31" and i: "c RW_idle = Suc k"
    and s: "mutex_Lock (rw_r rw) a b = Step (m', p)" and ab: "a = RL_add \<and> b = RL_r \<or> a = WL_lock \<and> b = WL_r"
  shows "rw_ok N (rw\<lparr>rw_r := m'\<rparr>) (went RW_idle p c)"
proof -
  have "r_waits c + r_holds c + 1 < 2 ^ 31" using ok N i by (auto simp: rw_ok_def rw_counts)
  from mutex_Lock_Step [OF s _ this] ok
  have "p = a \<and> mutex_ok m' (r_waits c) (r_holds c + 1) (r_rels c) \<or> p = b \<and> mutex_ok m' (r_waits c + 1) (r_holds c) (r_rels c)"
    by (auto simp: rw_ok_def)
  then show ?thesis using ok ab i by (elim disjE conjE) (simp_all add: rw_ok_def rw_counts went_def)
qed

lemma rw_r_acquire_ok:
  assumes ok: "rw_ok N rw c" and q: "c q = Suc k" and s: "mutex_Semacquire (rw_r rw) a = Step (m', p)"
    and qa: "q = RL_r \<and> a = RL_add \<or> q = WL_r \<and> a = WL_lock"
  shows "rw_ok N (rw\<lparr>rw_r := m'\<rparr>) (went q p c)"
proof -
  have "r_waits c = Suc (r_waits c - 1)" using q qa by (auto simp: rw_counts)
  then have "p = a \<and> mutex_ok m' (r_waits c - 1) (r_holds c + 1) (r_rels c)"
    using mutex_Semacquire_Step [OF s, of "r_waits c - 1" "r_holds c" "r_rels c"] ok by (simp add: rw_ok_def)
  then show ?thesis using ok [unfolded rw_ok_def] qa q by (elim disjE conjE) (simp_all add: rw_ok_def rw_counts went_def)
qed

lemma rw_r_unlock_ok:
  assumes ok: "rw_ok N rw c" and N: "N < 2 ^ 31" and q: "c q = Suc k"
    and qab: "q = RL_unlock \<and> a = RW_read \<and> b = RL_rel \<or> q = WL_unlock \<and> a = RW_write \<and> b = WL_rel"
  shows "\<exists>m' p. mutex_Unlock (rw_r rw) a b = Step (m', p) \<and> p \<noteq> q \<and> rw_ok N (rw\<lparr>rw_r := m'\<rparr>) (went q p c)"
proof -
  have h: "r_holds c = Suc (r_holds c - 1)" using q qab by (auto simp: rw_counts)
  then have "r_holds c - 1 = 0 \<and> r_rels c = 0 \<and>
    (\<exists>m'. mutex_Unlock (rw_r rw) a b = Step (m', a) \<and> r_waits c = 0 \<and> mutex_ok m' 0 0 0 \<or>
      mutex_Unlock (rw_r rw) a b = Step (m', b) \<and> 0 < r_waits c \<and> mutex_ok m' (r_waits c) 0 1)"
    using mutex_Unlock_Step [of "rw_r rw" "r_waits c" "r_holds c - 1" "r_rels c" a b] ok rw_bounds [OF ok N] by (simp add: rw_ok_def)
  then obtain m' where m': "r_holds c = 1" "r_rels c = 0"
      "mutex_Unlock (rw_r rw) a b = Step (m', a) \<and> r_waits c = 0 \<and> mutex_ok m' 0 0 0 \<or>
       mutex_Unlock (rw_r rw) a b = Step (m', b) \<and> mutex_ok m' (r_waits c) 0 1" using h by auto
  from m'(3) show ?thesis
  proof (elim disjE conjE)
    assume u: "mutex_Unlock (rw_r rw) a b = Step (m', a)" "r_waits c = 0" "mutex_ok m' 0 0 0"
    have "rw_ok N (rw\<lparr>rw_r := m'\<rparr>) (went q a c)" using ok [unfolded rw_ok_def] qab q u(2,3) m'(1,2)
      by (elim disjE conjE) (simp_all add: rw_ok_def rw_counts went_def)
    then show ?thesis using u qab by auto
  next
    assume u: "mutex_Unlock (rw_r rw) a b = Step (m', b)" "mutex_ok m' (r_waits c) 0 1"
    have "rw_ok N (rw\<lparr>rw_r := m'\<rparr>) (went q b c)" using ok [unfolded rw_ok_def] qab q u(2) m'(1,2)
      by (elim disjE conjE) (simp_all add: rw_ok_def rw_counts went_def)
    then show ?thesis using u qab by auto
  qed
qed

lemma rw_r_release_ok:
  assumes ok: "rw_ok N rw c" and q: "c q = Suc k" and qa: "q = RL_rel \<and> p = RW_read \<or> q = WL_rel \<and> p = RW_write"
  shows "rw_ok N (rw\<lparr>rw_r := Mutex_release (rw_r rw)\<rparr>) (went q p c)"
proof -
  have "r_rels c = Suc (r_rels c - 1)" using q qa by (auto simp: rw_counts)
  then have "mutex_ok (Mutex_release (rw_r rw)) (r_waits c) (r_holds c) (r_rels c - 1)"
    using Mutex_release_ok [of "rw_r rw" "r_waits c" "r_holds c" "r_rels c - 1"] ok by (simp add: rw_ok_def)
  then show ?thesis using ok [unfolded rw_ok_def] qa q by (elim disjE conjE) (simp_all add: rw_ok_def rw_counts went_def)
qed


lemma rw_w_lock_ok:
  assumes ok: "rw_ok N rw c" and N: "N < 2 ^ 31" and q: "c q = Suc k"
    and s: "mutex_Lock (rw_w rw) a b = Step (m', p)" and qab: "q = RL_lock \<and> a = RL_unlock \<and> b = RL_w \<or> q = WL_lock \<and> a = WL_unlock \<and> b = WL_w"
  shows "rw_ok N (rw\<lparr>rw_w := m'\<rparr>) (went q p c)"
proof -
  have "w_waits c + w_holds c + 1 < 2 ^ 31" using ok N q qab by (auto simp: rw_ok_def rw_counts)
  from mutex_Lock_Step [OF s _ this] ok
  have "p = a \<and> mutex_ok m' (w_waits c) (w_holds c + 1) (w_rels c) \<or> p = b \<and> mutex_ok m' (w_waits c + 1) (w_holds c) (w_rels c)"
    by (auto simp: rw_ok_def)
  moreover have "r_holds c \<le> 1" using ok mutex_ok_excl by (auto simp: rw_ok_def)
  ultimately show ?thesis using ok [unfolded rw_ok_def] qab q by (elim disjE conjE) (simp_all add: rw_ok_def rw_counts went_def)
qed

lemma rw_w_acquire_ok:
  assumes ok: "rw_ok N rw c" and q: "c q = Suc k" and s: "mutex_Semacquire (rw_w rw) a = Step (m', p)"
    and qa: "q = RL_w \<and> a = RL_unlock \<or> q = WL_w \<and> a = WL_unlock"
  shows "rw_ok N (rw\<lparr>rw_w := m'\<rparr>) (went q p c)"
proof -
  have "w_waits c = Suc (w_waits c - 1)" using q qa by (auto simp: rw_counts)
  then have "p = a \<and> mutex_ok m' (w_waits c - 1) (w_holds c + 1) (w_rels c)"
    using mutex_Semacquire_Step [OF s, of "w_waits c - 1" "w_holds c" "w_rels c"] ok by (simp add: rw_ok_def)
  moreover have "r_holds c \<le> 1" using ok mutex_ok_excl by (auto simp: rw_ok_def)
  ultimately show ?thesis using ok [unfolded rw_ok_def] qa q by (elim disjE conjE) (simp_all add: rw_ok_def rw_counts went_def)
qed

lemma rw_w_unlock_ok:
  assumes ok: "rw_ok N rw c" and N: "N < 2 ^ 31" and q: "c q = Suc k"
    and qb: "q = RU_unlock \<and> b = RU_rel \<or> q = RW_write \<and> b = WU_rel"
  shows "\<exists>m' p. mutex_Unlock (rw_w rw) RW_idle b = Step (m', p) \<and> p \<noteq> q \<and> rw_ok N (rw\<lparr>rw_w := m'\<rparr>) (went q p c)"
proof -
  have h: "w_holds c = Suc (w_holds c - 1)" using q qb by (auto simp: rw_counts)
  then have "w_holds c - 1 = 0 \<and> w_rels c = 0 \<and>
    (\<exists>m'. mutex_Unlock (rw_w rw) RW_idle b = Step (m', RW_idle) \<and> w_waits c = 0 \<and> mutex_ok m' 0 0 0 \<or>
      mutex_Unlock (rw_w rw) RW_idle b = Step (m', b) \<and> 0 < w_waits c \<and> mutex_ok m' (w_waits c) 0 1)"
    using mutex_Unlock_Step [of "rw_w rw" "w_waits c" "w_holds c - 1" "w_rels c" RW_idle b] ok rw_bounds [OF ok N] by (simp add: rw_ok_def)
  then obtain m' where m': "w_holds c = 1" "w_rels c = 0"
      "mutex_Unlock (rw_w rw) RW_idle b = Step (m', RW_idle) \<and> w_waits c = 0 \<and> mutex_ok m' 0 0 0 \<or>
       mutex_Unlock (rw_w rw) RW_idle b = Step (m', b) \<and> mutex_ok m' (w_waits c) 0 1" using h by auto
  have rd: "readers c = 0" using m'(1) q qb by (auto simp: w_holds_def split: if_splits)
  from m'(3) show ?thesis
  proof (elim disjE conjE)
    assume u: "mutex_Unlock (rw_w rw) RW_idle b = Step (m', RW_idle)" "w_waits c = 0" "mutex_ok m' 0 0 0"
    have "rw_ok N (rw\<lparr>rw_w := m'\<rparr>) (went q RW_idle c)" using ok [unfolded rw_ok_def] qb q u(2,3) m'(1,2) rd
      by (elim disjE conjE) (simp_all add: rw_ok_def rw_counts went_def)
    then show ?thesis using u qb by auto
  next
    assume u: "mutex_Unlock (rw_w rw) RW_idle b = Step (m', b)" "mutex_ok m' (w_waits c) 0 1"
    have "rw_ok N (rw\<lparr>rw_w := m'\<rparr>) (went q b c)" using ok [unfolded rw_ok_def] qb q u(2) m'(1,2) rd
      by (elim disjE conjE) (simp_all add: rw_ok_def rw_counts went_def)
    then show ?thesis using u qb by auto
  qed
qed

lemma rw_w_release_ok:
  assumes ok: "rw_ok N rw c" and q: "c q = Suc k" and qa: "q = RU_rel \<or> q = WU_rel"
  shows "rw_ok N (rw\<lparr>rw_w := Mutex_release (rw_w rw)\<rparr>) (went q RW_idle c)"
proof -
  have "w_rels c = Suc (w_rels c - 1)" using q qa by (auto simp: rw_counts)
  then have "mutex_ok (Mutex_release (rw_w rw)) (w_waits c) (w_holds c) (w_rels c - 1)"
    using Mutex_release_ok [of "rw_w rw" "w_waits c" "w_holds c" "w_rels c - 1"] ok by (simp add: rw_ok_def)
  then show ?thesis using ok [unfolded rw_ok_def] qa q by (elim disjE conjE) (simp_all add: rw_ok_def rw_counts went_def)
qed

lemma rw_count_ok:
  assumes ok: "rw_ok N rw c" and N: "N < 2 ^ 31"
  shows "c RL_add = Suc k \<Longrightarrow> RLock_add rw = (rw', f) \<Longrightarrow> rw_ok N rw' (went RL_add (if f then RL_lock else RL_unlock) c)"
    and "c RW_read = Suc k \<Longrightarrow> RUnlock_add rw = (rw', l) \<Longrightarrow> rw_ok N rw' (went RW_read (if l then RU_unlock else RW_idle) c)"
proof -
  have hold: "r_holds c \<le> 1" using ok mutex_ok_excl by (auto simp: rw_ok_def)
  have n: "is_int32 (rw_readerCount rw - 1)" "c RL_add = Suc k \<Longrightarrow> is_int32 (rw_readerCount rw + 1)"
    using ok N by (auto simp: rw_ok_def rw_counts is_int32_def)
  show "rw_ok N rw' (went RL_add (if f then RL_lock else RL_unlock) c)" if "c RL_add = Suc k" "RLock_add rw = (rw', f)"
  proof -
    have rw': "rw' = rw\<lparr>rw_readerCount := rw_readerCount rw + 1\<rparr>" "f = (entering c + readers c = 0)"
      using that n(2) ok by (auto simp: RLock_add_def Let_def rw_ok_def)
    have z: "c RL_lock = 0" "c RL_w = 0" "c RL_unlock = 0" using hold that(1) by (simp_all add: rw_counts)
    show ?thesis
    proof (cases "c RL_rel = 0 \<and> c RW_read = 0")
      case True
      then show ?thesis using ok that(1) z by (simp add: rw' rw_ok_def rw_counts went_def)
    next
      case False
      then show ?thesis using ok that(1) z by (auto simp: rw' rw_ok_def rw_counts went_def split: if_splits)
    qed
  qed
  show "rw_ok N rw' (went RW_read (if l then RU_unlock else RW_idle) c)" if "c RW_read = Suc k" "RUnlock_add rw = (rw', l)"
  proof -
    have "rw' = rw\<lparr>rw_readerCount := rw_readerCount rw - 1\<rparr>" "l = (rw_readerCount rw = 1)"
      using that n(1) by (auto simp: RUnlock_add_def Let_def)
    then show ?thesis using ok [unfolded rw_ok_def] that(1)
      by (elim disjE conjE) (simp_all add: rw_ok_def rw_counts went_def)
  qed
qed


lemma rw_next_ok:
  assumes ok: "rw_ok N rw c" and N: "N < 2 ^ 31" and q: "c q = Suc k" and s: "rw_next writer q rw = Step (rw', p)"
  shows "rw_ok N rw' (went q p c) \<and> p \<noteq> q"
proof -
  note lems = rw_r_lock_ok [OF ok N] rw_w_lock_ok [OF ok N] rw_r_acquire_ok [OF ok] rw_w_acquire_ok [OF ok]
    rw_r_release_ok [OF ok] rw_w_release_ok [OF ok]
  show ?thesis
  proof (cases "q \<in> {RL_unlock, WL_unlock, RU_unlock, RW_write}")
    case True
    then show ?thesis using s q rw_r_unlock_ok [OF ok N q] rw_w_unlock_ok [OF ok N q]
      by (auto simp: on_r_Step on_w_Step)
  next
    case False
    then show ?thesis
    proof (cases "q = RL_add \<or> q = RW_read")
      case True
      then show ?thesis using s q rw_count_ok [OF ok N] by (auto split: prod.splits if_splits)
    next
      case other: False
      have "rw_ok N rw' (went q p c)" using s q False other
        by (cases q) (auto simp: on_r_Step on_w_Step intro: lems split: if_splits)
      moreover have "p \<noteq> q" using s False other
        by (cases q) (auto simp: on_r_Step on_w_Step mutex_Lock_def mutex_Semacquire_def
          split: if_splits option.splits prod.splits)
      ultimately show ?thesis by blast
    qed
  qed
qed

definition rw_inv :: "nat \<Rightarrow> RWMutex \<times> rw_pc multiset \<Rightarrow> bool" where
  "rw_inv N s = (case s of (rw, T) \<Rightarrow> rw_ok N rw (count T))"

lemma rw_step_inv: "rw_step s s' \<Longrightarrow> rw_inv N s \<Longrightarrow> N < 2 ^ 31 \<Longrightarrow> rw_inv N s'"
proof (induction rule: rw_step.induct)
  case (1 q T writer rw rw' p)
  obtain k where "count T q = Suc k" using in_mset_Suc [OF 1(1)] ..
  moreover have "rw_ok N rw (count T)" using 1(3) by (simp add: rw_inv_def)
  ultimately have ok: "rw_ok N rw' (went q p (count T))" and "p \<noteq> q" using rw_next_ok 1(2,4) by blast+
  then have "count (move q p T) = went q p (count T)" by (intro count_move [OF 1(1)]) simp
  then show ?case unfolding rw_inv_def prod.case using ok by (simp only:)
qed

lemma rw_reach_inv:
  assumes "rw_step\<^sup>*\<^sup>* (zero_RWMutex, replicate_mset N RW_idle) s" "N < 2 ^ 31"
  shows "rw_inv N s"
  using assms(1)
proof (induction rule: rtranclp_induct)
  case base
  then show ?case by (simp add: rw_inv_def rw_ok_def rw_counts zero_RWMutex_def)
next
  case (step y z)
  then show ?case using rw_step_inv assms(2) by blast
qed


text \<open>Only the four waiting points can block, and none can panic.\<close>

lemma rw_next_cases:
  assumes ok: "rw_ok N rw c" and N: "N < 2 ^ 31" and q: "c q = Suc k"
  shows "rw_next writer q rw \<noteq> Panicked"
    and "q \<notin> {RL_r, WL_r, RL_w, WL_w} \<Longrightarrow> \<exists>x. rw_next writer q rw = Step x"
    and "q \<in> {RL_r, WL_r} \<Longrightarrow> Mutex_acquire (rw_r rw) \<noteq> None \<Longrightarrow> \<exists>x. rw_next writer q rw = Step x"
    and "q \<in> {RL_w, WL_w} \<Longrightarrow> Mutex_acquire (rw_w rw) \<noteq> None \<Longrightarrow> \<exists>x. rw_next writer q rw = Step x"
proof -
  have acq: "on_r rw (mutex_Semacquire (rw_r rw) a) \<noteq> Panicked" "on_w rw (mutex_Semacquire (rw_w rw) a) \<noteq> Panicked" for a :: rw_pc
    by (auto simp: mutex_Semacquire_def split: option.splits)
  show "\<exists>x. rw_next writer q rw = Step x" if "q \<in> {RL_r, WL_r}" "Mutex_acquire (rw_r rw) \<noteq> None"
    using that by (auto simp: mutex_Semacquire_def)
  show "\<exists>x. rw_next writer q rw = Step x" if "q \<in> {RL_w, WL_w}" "Mutex_acquire (rw_w rw) \<noteq> None"
    using that by (auto simp: mutex_Semacquire_def)
  show step: "\<exists>x. rw_next writer q rw = Step x" if q': "q \<notin> {RL_r, WL_r, RL_w, WL_w}"
  proof (cases "q \<in> {RL_unlock, WL_unlock, RU_unlock, RW_write}")
    case True
    then show ?thesis using rw_r_unlock_ok [OF ok N q] rw_w_unlock_ok [OF ok N q] by auto
  next
    case False
    then show ?thesis using q' by (cases q) (auto simp: mutex_Lock_def split: prod.splits)
  qed
  show "rw_next writer q rw \<noteq> Panicked"
  proof (cases "q \<in> {RL_r, WL_r, RL_w, WL_w}")
    case True
    then show ?thesis using acq by auto
  next
    case False
    from step [OF this] show ?thesis by auto
  qed
qed

text \<open>As long as a goroutine is inside, some goroutine that is inside can go on.\<close>

lemma rw_live:
  assumes ok: "rw_ok N rw c" and N: "N < 2 ^ 31" and q: "c q \<noteq> 0" "q \<noteq> RW_idle"
  shows "\<exists>p x. c p \<noteq> 0 \<and> p \<noteq> RW_idle \<and> rw_next writer p rw = Step x"
proof (rule ccontr)
  assume stuck: "\<not> ?thesis"
  have s: "rw_next writer p rw = Step x \<Longrightarrow> p \<noteq> RW_idle \<Longrightarrow> c p = 0" for p x using stuck by blast
  have z: "c p = 0" if "p \<notin> {RW_idle, RL_r, WL_r, RL_w, WL_w}" for p
    using that s rw_next_cases(2) [OF ok N, of p] by (metis insert_iff not0_implies_Suc)
  then have cs: "r_holds c = w_waits c" "r_rels c = 0" "w_holds c = 0" "w_rels c = 0" by (simp_all add: rw_counts)
  have "w_waits c = 0"
  proof (rule ccontr)
    assume "w_waits c \<noteq> 0"
    then obtain p where p: "p \<in> {RL_w, WL_w}" "c p \<noteq> 0" unfolding w_waits_def by (metis add_is_0 insertI1 insertI2)
    have "Mutex_acquire (rw_w rw) \<noteq> None" using ok \<open>w_waits c \<noteq> 0\<close> cs Mutex_acquire_Some [of "rw_w rw" "w_waits c - 1"]
      by (auto simp: rw_ok_def)
    then show False using rw_next_cases(4) [OF ok N _ p(1)] p s by (metis empty_iff insert_iff not0_implies_Suc rw_pc.distinct)
  qed
  moreover have "r_waits c = 0"
  proof (rule ccontr)
    assume "r_waits c \<noteq> 0"
    then obtain p where p: "p \<in> {RL_r, WL_r}" "c p \<noteq> 0" unfolding r_waits_def by (metis add_is_0 insertI1 insertI2)
    have "Mutex_acquire (rw_r rw) \<noteq> None" using ok \<open>r_waits c \<noteq> 0\<close> cs \<open>w_waits c = 0\<close> Mutex_acquire_Some [of "rw_r rw" "r_waits c - 1"]
      by (auto simp: rw_ok_def)
    then show False using rw_next_cases(3) [OF ok N _ p(1)] p s by (metis empty_iff insert_iff not0_implies_Suc rw_pc.distinct)
  qed
  ultimately show False using z q by (cases q) (auto simp: rw_counts)
qed

text \<open>A step lets no reader in while a writer waits for the readers to leave.\<close>

lemma rw_writer_priority:
  assumes ok: "rw_ok N rw c" and w: "c WL_w = Suc j" and q: "c q = Suc k" and s: "rw_next writer q rw = Step (rw', p)"
  shows "readers (went q p c) \<le> readers c"
proof -
  have "r_holds c \<le> 1" using ok mutex_ok_excl by (auto simp: rw_ok_def)
  then have z: "c RL_add = 0" "c RL_lock = 0" "c RL_w = 0" "c RL_unlock = 0" using w by (simp_all add: rw_counts)
  then have "q \<notin> {RL_add, RL_lock, RL_w, RL_unlock}" using q by auto
  then have "p \<in> {RL_unlock, RL_rel, RW_read} \<longrightarrow> q = RL_rel \<and> p = RW_read" using s
    by (cases q) (auto simp: on_r_Step on_w_Step mutex_Lock_def mutex_Semacquire_def mutex_Unlock_def
      split: if_splits option.splits prod.splits)
  then show ?thesis using q by (auto simp: readers_def went_def)
qed


lemma rw_step_add: "rw_next v p rw = Step (rw', p') \<Longrightarrow> rw_step (rw, add_mset p T) (rw', add_mset p' T)"
  using rw_step.intros [of p "add_mset p T" v rw rw' p'] by simp

section \<open>Properties\<close>

text \<open>C8: \<open>RWMutex\<close> excludes and does not deadlock. Let fewer than \<open>2 ^ 31\<close> goroutines use one \<open>RWMutex\<close>, each in pairs of
  \<open>RLock\<close> and \<open>RUnlock\<close> or of \<open>Lock\<close> and \<open>Unlock\<close>, in any interleaving of the atomic steps of both mutexes and of the count
  of readers. Then a writer is alone: no second one and no reader is in with it. No operation panics. While some
  goroutine is inside an operation or holds a lock, one such goroutine can take a step. And while a writer waits for the readers to
  leave, no step lets another reader in, as the comment on the type promises.\<close>

theorem rwmutex_exclusion:
  assumes "rw_step\<^sup>*\<^sup>* (zero_RWMutex, replicate_mset N RW_idle) (rw, T)" "N < 2 ^ 31"
  shows "(RW_write \<in># T \<longrightarrow> count T RW_write = 1 \<and> RW_read \<notin># T) \<and>
    (\<forall>p writer. p \<in># T \<longrightarrow> rw_next writer p rw \<noteq> Panicked) \<and>
    ((\<exists>p. p \<in># T \<and> p \<noteq> RW_idle) \<longrightarrow> (\<exists>p x. p \<in># T \<and> p \<noteq> RW_idle \<and> rw_next writer p rw = Step x)) \<and>
    (WL_w \<in># T \<and> rw_step (rw, T) (rw', T') \<longrightarrow> readers (count T') \<le> readers (count T))"
proof (intro conjI impI allI)
  have ok: "rw_ok N rw (count T)" using rw_reach_inv [OF assms] by (simp add: rw_inv_def)
  have w: "w_holds (count T) \<le> 1" using ok mutex_ok_excl by (auto simp: rw_ok_def)
  show "count T RW_write = 1" "RW_read \<notin># T" if m: "RW_write \<in># T"
  proof -
    obtain k where "count T RW_write = Suc k" using in_mset_Suc [OF m] ..
    then show "count T RW_write = 1" "RW_read \<notin># T" using w by (auto simp: w_holds_def readers_def not_in_iff split: if_splits)
  qed
  show "rw_next writer' p rw \<noteq> Panicked" if m: "p \<in># T" for p writer'
    using in_mset_Suc [OF m] rw_next_cases(1) [OF ok assms(2)] by blast
  show "\<exists>p x. p \<in># T \<and> p \<noteq> RW_idle \<and> rw_next writer p rw = Step x" if "\<exists>p. p \<in># T \<and> p \<noteq> RW_idle"
    using that rw_live [OF ok assms(2)] by (metis not_in_iff)
  show "readers (count T') \<le> readers (count T)" if m: "WL_w \<in># T \<and> rw_step (rw, T) (rw', T')"
  proof -
    obtain p q v where s: "q \<in># T" "rw_next v q rw = Step (rw', p)" "T' = move q p T" using m by (auto elim: rw_step.cases)
    obtain j k where "count T WL_w = Suc j" "count T q = Suc k" using in_mset_Suc m s(1) by metis
    then have "readers (went q p (count T)) \<le> readers (count T)" "p \<noteq> q"
      using rw_writer_priority [OF ok] rw_next_ok [OF ok assms(2)] s(2) by blast+
    then show ?thesis unfolding s(3) using count_move [OF s(1), of p] by simp
  qed
qed

text \<open>C39: \<open>RUnlock\<close> of an \<open>RWMutex\<close> that is not locked for reading goes unnoticed, although its comment says that it is a
  run-time error: it leaves a count of -1 and returns, and from then on the next reader does not lock \<open>w\<close>, so that a reader
  and a writer are in at once. \<open>Unlock\<close> of an \<open>RWMutex\<close> that is not locked does panic.\<close>

theorem RUnlock_unlocked:
  "\<exists>rw1. rw_next writer RW_read zero_RWMutex = Step (rw1, RW_idle) \<and> rw_readerCount rw1 = -1 \<and>
     (\<exists>rw. rw_step\<^sup>*\<^sup>* (rw1, {#RW_idle, RW_idle#}) (rw, {#RW_read, RW_write#})) \<and>
     rw_next writer RW_write zero_RWMutex = Panicked"
proof -
  define st where "st w r n = \<lparr>rw_w = \<lparr>m_key = w, m_sema = 0\<rparr>, rw_r = \<lparr>m_key = r, m_sema = 0\<rparr>, rw_readerCount = n\<rparr>" for w r n
  note sim = st_def mutex_Lock_def mutex_Unlock_def Lock_add_def Unlock_add_def RLock_add_def RUnlock_add_def Let_def is_int32_def
  have a: "rw_next False RW_idle (st 0 0 (-1)) = Step (st 0 1 (-1), RL_add)" "rw_next False RL_add (st 0 1 (-1)) = Step (st 0 1 0, RL_unlock)"
    "rw_next False RL_unlock (st 0 1 0) = Step (st 0 0 0, RW_read)" "rw_next True RW_idle (st 0 0 0) = Step (st 0 1 0, WL_lock)"
    "rw_next True WL_lock (st 0 1 0) = Step (st 1 1 0, WL_unlock)" "rw_next True WL_unlock (st 1 1 0) = Step (st 1 0 0, RW_write)"
    by (simp_all add: sim)
  have "rw_step\<^sup>*\<^sup>* (st 0 0 (-1), {#RW_idle, RW_idle#}) (st 0 0 0, {#RW_read, RW_idle#})"
    using rw_step_add [OF a(1)] rw_step_add [OF a(2)] rw_step_add [OF a(3)] by (meson converse_rtranclp_into_rtranclp r_into_rtranclp)
  moreover have "rw_step\<^sup>*\<^sup>* (st 0 0 0, {#RW_idle, RW_read#}) (st 1 0 0, {#RW_write, RW_read#})"
    using rw_step_add [OF a(4)] rw_step_add [OF a(5)] rw_step_add [OF a(6)] by (meson converse_rtranclp_into_rtranclp r_into_rtranclp)
  ultimately have "rw_step\<^sup>*\<^sup>* (st 0 0 (-1), {#RW_idle, RW_idle#}) (st 1 0 0, {#RW_read, RW_write#})"
    unfolding add_mset_commute [of RW_read RW_idle] add_mset_commute [of RW_read RW_write] by (rule rtranclp_trans)
  moreover have "rw_next writer RW_read zero_RWMutex = Step (st 0 0 (-1), RW_idle)" "rw_next writer RW_write zero_RWMutex = Panicked"
    by (simp_all add: sim zero_RWMutex_def zero_Mutex_def)
  ultimately show ?thesis by (intro exI [of _ "st 0 0 (-1)"]) (auto simp: st_def)
qed

theorem rwmutex_exclusion_witness:
  "\<exists>rw. rw_step\<^sup>*\<^sup>* (zero_RWMutex, {#RW_idle, RW_idle#}) (rw, {#RW_read, RW_idle#}) \<and>
     (\<exists>p x. p \<in># {#RW_read, RW_idle#} \<and> p \<noteq> RW_idle \<and> rw_next False p rw = Step x)"
proof -
  define st where "st w r n = \<lparr>rw_w = \<lparr>m_key = w, m_sema = 0\<rparr>, rw_r = \<lparr>m_key = r, m_sema = 0\<rparr>, rw_readerCount = n\<rparr>" for w r n
  note sim = st_def mutex_Lock_def mutex_Unlock_def Lock_add_def Unlock_add_def RLock_add_def Let_def is_int32_def
  have a: "rw_next False RW_idle (st 0 0 0) = Step (st 0 1 0, RL_add)" "rw_next False RL_add (st 0 1 0) = Step (st 0 1 1, RL_lock)"
    "rw_next False RL_lock (st 0 1 1) = Step (st 1 1 1, RL_unlock)" "rw_next False RL_unlock (st 1 1 1) = Step (st 1 0 1, RW_read)"
    by (simp_all add: sim)
  have "zero_RWMutex = st 0 0 0" by (simp add: st_def zero_RWMutex_def zero_Mutex_def)
  then have r: "rw_step\<^sup>*\<^sup>* (zero_RWMutex, {#RW_idle, RW_idle#}) (st 1 0 1, {#RW_read, RW_idle#})"
    using rw_step_add [OF a(1)] rw_step_add [OF a(2)] rw_step_add [OF a(3)] rw_step_add [OF a(4)]
    by (metis (no_types, lifting) converse_rtranclp_into_rtranclp r_into_rtranclp)
  have "replicate_mset 2 RW_idle = {#RW_idle, RW_idle#}" by (simp add: numeral_2_eq_2)
  with rwmutex_exclusion [of 2 "st 1 0 1" "{#RW_read, RW_idle#}" False] r
  have "\<exists>p x. p \<in># {#RW_read, RW_idle#} \<and> p \<noteq> RW_idle \<and> rw_next False p (st 1 0 1) = Step x" by auto
  with r show ?thesis by blast
qed

end
