(* ===== verification/Sync_Wait.thy ===== *)
theory Sync_Wait
  imports Sync
begin

text \<open>
  Package sync: \<open>WaitGroup\<close> (\<open>waitgroup.go\<close>), \<open>Cond\<close> (\<open>cond.go\<close>) and \<open>Once\<close> (\<open>once.go\<close>). Their methods do their work
  between \<open>m.Lock()\<close> and \<open>m.Unlock()\<close> of a mutex of their own, so each such section is one step here, as \<open>mutex_exclusion\<close>
  of theory Sync justifies; the wait for a semaphore comes after the section and is a step of its own. The semaphores that
  the methods allocate are a list, an address being a position in it, and the goroutines that wait are listed with the
  address each of them waits at. An execution is a list of events.
\<close>

section \<open>Semaphores and the goroutines that wait at them\<close>

type_synonym goroutine = nat
type_synonym semas = "nat list"
type_synonym waiting = "(goroutine \<times> nat) list"

text \<open>The loop that releases a semaphore \<open>n\<close> times, and \<open>Semacquire\<close> by a waiting goroutine.\<close>

fun Semrelease_loop :: "nat \<Rightarrow> nat \<Rightarrow> semas \<Rightarrow> semas" where
  "Semrelease_loop 0 s sm = sm"
| "Semrelease_loop (Suc n) s sm = Semrelease_loop n s (sm[s := Semrelease (sm ! s)])"

definition wake :: "goroutine \<Rightarrow> waiting \<Rightarrow> semas \<Rightarrow> (waiting \<times> semas) option" where
  "wake g bl sm = do { s \<leftarrow> map_of bl g; v \<leftarrow> Semacquire (sm ! s); Some (filter (\<lambda>(h, _). h \<noteq> g) bl, sm[s := v]) }"

definition at :: "waiting \<Rightarrow> nat \<Rightarrow> nat" where
  "at bl s = length (filter (\<lambda>(_, t). t = s) bl)"

lemma at_Cons [simp]: "at ((g, t) # bl) s = (if t = s then Suc (at bl s) else at bl s)"
  by (simp add: at_def)

lemma at_Nil [simp]: "at [] s = 0"
  by (simp add: at_def)

lemma at_le: "at bl s \<le> length bl"
  by (simp add: at_def)

lemma at_pos: "map_of bl g = Some s \<Longrightarrow> at bl s > 0"
  by (induction bl) (auto split: if_splits)

lemma at_remove:
  assumes "distinct (map fst bl)" "map_of bl g = Some s"
  shows "at (filter (\<lambda>(h, _). h \<noteq> g) bl) t = at bl t - (if t = s then 1 else 0)"
  using assms
proof (induction bl)
  case (Cons x bl)
  obtain h a where x: "x = (h, a)" by force
  show ?case
  proof (cases "h = g")
    case True
    then have "filter (\<lambda>(h, _). h \<noteq> g) bl = bl" using Cons(2) x by (force simp: filter_id_conv)
    then show ?thesis using True Cons(3) x by simp
  next
    case False
    then show ?thesis using Cons x at_pos [of bl g s] by auto
  qed
qed simp

lemma length_Semrelease_loop [simp]: "length (Semrelease_loop n s sm) = length sm"
  by (induction n s sm rule: Semrelease_loop.induct) auto

lemma Semrelease_loop_nth:
  "s < length sm \<Longrightarrow> sm ! s + n < 2 ^ 32 \<Longrightarrow> Semrelease_loop n s sm ! t = (if t = s then sm ! s + n else sm ! t)"
  by (induction n s sm rule: Semrelease_loop.induct) (auto simp: Semrelease_def)

text \<open>The state of the semaphores when \<open>n\<close> of the goroutines that wait at the semaphore in use (\<open>cur\<close>) have not been
  released, and all that wait at an older one have been.\<close>

definition sema_ok :: "nat option \<Rightarrow> nat \<Rightarrow> waiting \<Rightarrow> semas \<Rightarrow> bool" where
  "sema_ok cur n bl sm \<longleftrightarrow> distinct (map fst bl) \<and> (\<forall>(g, s) \<in> set bl. s < length sm) \<and>
     (case cur of None \<Rightarrow> n = 0 | Some s \<Rightarrow> s < length sm) \<and>
     (\<forall>s < length sm. sm ! s + (if cur = Some s then n else 0) = at bl s)"

lemma sema_ok_wake:
  assumes "sema_ok cur n bl sm" "wake g bl sm = Some (bl', sm')"
  shows "sema_ok cur n bl' sm' \<and> length bl' \<le> length bl \<and> (\<exists>s. map_of bl g = Some s \<and> sm ! s > 0)"
proof -
  obtain s where s: "map_of bl g = Some s" "sm ! s > 0" "bl' = filter (\<lambda>(h, _). h \<noteq> g) bl" "sm' = sm[s := sm ! s - 1]"
    using assms(2) by (auto simp: wake_def Semacquire_def split: bind_splits if_splits)
  have "s < length sm" using s(1) assms(1) by (auto simp: sema_ok_def dest: map_of_SomeD)
  moreover have d: "distinct (map fst bl)" using assms(1) by (simp add: sema_ok_def)
  ultimately have "sema_ok cur n bl' sm'" using assms(1) s(2) at_remove [OF d s(1)]
    by (auto simp: sema_ok_def s(3,4) nth_list_update distinct_map_filter split: option.splits if_splits)
  then show ?thesis using s by auto
qed

lemma sema_ok_alloc: "sema_ok None 0 bl sm \<Longrightarrow> sema_ok (Some (length sm)) 0 bl (sm @ [0])"
  by (force simp: sema_ok_def at_def nth_append less_Suc_eq filter_empty_conv)

lemma sema_ok_wait:
  "sema_ok (Some s) n bl sm \<Longrightarrow> g \<notin> fst ` set bl \<Longrightarrow> sema_ok (Some s) (Suc n) ((g, s) # bl) sm"
  by (auto simp: sema_ok_def)

lemma sema_ok_release:
  assumes "sema_ok (Some s) (n + k) bl sm" "length bl < 2 ^ 31"
  shows "sema_ok (Some s) n bl (Semrelease_loop k s sm)"
proof -
  have s: "s < length sm" "sm ! s + (n + k) = at bl s" using assms(1) by (auto simp: sema_ok_def)
  then have "sm ! s + k < 2 ^ 32" using at_le [of bl s] assms(2) by simp
  then show ?thesis using assms(1) s Semrelease_loop_nth [OF s(1)] by (auto simp: sema_ok_def)
qed

lemma sema_ok_forget: "sema_ok (Some s) 0 bl sm \<Longrightarrow> sema_ok None 0 bl sm"
  by (auto simp: sema_ok_def split: if_splits)

lemma sema_ok_all_wake:
  assumes "sema_ok None n bl sm" "g \<in> fst ` set bl"
  shows "wake g bl sm \<noteq> None"
proof -
  obtain s where s: "map_of bl g = Some s" using assms(2) by (metis map_of_eq_None_iff not_None_eq)
  moreover have "s < length sm" using s assms(1) by (auto simp: sema_ok_def dest: map_of_SomeD)
  ultimately have "sm ! s > 0" using assms(1) at_pos [OF s] by (auto simp: sema_ok_def)
  then show ?thesis using s by (simp add: wake_def Semacquire_def)
qed

lemma sema_ok_no_wake:
  assumes "sema_ok (Some s) n bl sm" "n = at bl s" "map_of bl g = Some s"
  shows "wake g bl sm = None"
proof -
  have "sm ! s = 0" using assms(1,2) by (auto simp: sema_ok_def)
  then show ?thesis using assms(3) by (simp add: wake_def Semacquire_def)
qed

section \<open>WaitGroup\<close>

record WaitGroup =
  wg_counter :: int
  wg_waiters :: int
  wg_sema :: "nat option"

definition zero_WaitGroup :: WaitGroup where
  "zero_WaitGroup = \<lparr>wg_counter = 0, wg_waiters = 0, wg_sema = None\<rparr>"

definition WaitGroup_Add :: "int \<Rightarrow> WaitGroup \<Rightarrow> semas \<Rightarrow> (WaitGroup \<times> semas) option" where
  "WaitGroup_Add delta wg sm = (
     if delta < int32 (- wg_counter wg) then None
     else let wg = wg\<lparr>wg_counter := int32 (wg_counter wg + delta)\<rparr> in
       if wg_counter wg = 0 \<and> wg_waiters wg > 0 then do {
         s \<leftarrow> wg_sema wg;
         Some (wg\<lparr>wg_waiters := 0, wg_sema := None\<rparr>, Semrelease_loop (nat (wg_waiters wg)) s sm)
       } else Some (wg, sm))"

definition WaitGroup_Done :: "WaitGroup \<Rightarrow> semas \<Rightarrow> (WaitGroup \<times> semas) option" where
  "WaitGroup_Done wg sm = WaitGroup_Add (-1) wg sm"

text \<open>\<open>Wait\<close> up to \<open>m.Unlock()\<close>: it returns, or goes on to wait at a semaphore.\<close>

definition WaitGroup_Wait :: "WaitGroup \<Rightarrow> semas \<Rightarrow> WaitGroup \<times> semas \<times> nat option" where
  "WaitGroup_Wait wg sm = (
     if wg_counter wg = 0 then (wg, sm, None)
     else let wg = wg\<lparr>wg_waiters := int32 (wg_waiters wg + 1)\<rparr> in
       (case wg_sema wg of
          None \<Rightarrow> (wg\<lparr>wg_sema := Some (length sm)\<rparr>, sm @ [0], Some (length sm))
        | Some s \<Rightarrow> (wg, sm, Some s)))"

datatype wg_event = Wg_Add int | Wg_Done | Wg_Wait goroutine | Wg_wake goroutine

fun wg_exec :: "wg_event \<Rightarrow> WaitGroup \<times> waiting \<times> semas \<Rightarrow> (WaitGroup \<times> waiting \<times> semas) option" where
  "wg_exec (Wg_Add d) (wg, bl, sm) = do { (wg, sm) \<leftarrow> WaitGroup_Add d wg sm; Some (wg, bl, sm) }"
| "wg_exec Wg_Done (wg, bl, sm) = do { (wg, sm) \<leftarrow> WaitGroup_Done wg sm; Some (wg, bl, sm) }"
| "wg_exec (Wg_Wait g) (wg, bl, sm) = (if g \<in> fst ` set bl then None
     else case WaitGroup_Wait wg sm of (wg, sm, r) \<Rightarrow> Some (wg, (case r of None \<Rightarrow> bl | Some s \<Rightarrow> (g, s) # bl), sm))"
| "wg_exec (Wg_wake g) (wg, bl, sm) = do { (bl, sm) \<leftarrow> wake g bl sm; Some (wg, bl, sm) }"

fun wg_run :: "wg_event list \<Rightarrow> WaitGroup \<times> waiting \<times> semas \<Rightarrow> (WaitGroup \<times> waiting \<times> semas) option" where
  "wg_run [] s = Some s"
| "wg_run (e # es) s = do { s \<leftarrow> wg_exec e s; wg_run es s }"

definition wg_ok :: "WaitGroup \<times> waiting \<times> semas \<Rightarrow> bool" where
  "wg_ok st = (case st of (wg, bl, sm) \<Rightarrow> sema_ok (wg_sema wg) (nat (wg_waiters wg)) bl sm \<and> wg_waiters wg \<ge> 0 \<and>
     (\<forall>s. wg_sema wg = Some s \<longrightarrow> wg_waiters wg = int (at bl s) \<and> wg_waiters wg > 0 \<and> wg_counter wg \<noteq> 0))"

lemma WaitGroup_Add_ok:
  assumes ok: "wg_ok (wg, bl, sm)" and l: "length bl < 2 ^ 31" and a: "WaitGroup_Add d wg sm = Some (wg', sm')"
  shows "wg_ok (wg', bl, sm')"
proof (cases "int32 (wg_counter wg + d) = 0 \<and> wg_waiters wg > 0")
  case True
  then obtain s where s: "wg_sema wg = Some s" "sm' = Semrelease_loop (nat (wg_waiters wg)) s sm" "wg_sema wg' = None" "wg_waiters wg' = 0"
    using a by (auto simp: WaitGroup_Add_def Let_def split: if_splits bind_splits)
  have "sema_ok (Some s) 0 bl sm'" unfolding s(2) using ok s(1) l by (intro sema_ok_release) (auto simp: wg_ok_def)
  then show ?thesis using s(3,4) sema_ok_forget by (simp add: wg_ok_def)
next
  case False
  then have "wg' = wg\<lparr>wg_counter := int32 (wg_counter wg + d)\<rparr>" "sm' = sm" using a by (auto simp: WaitGroup_Add_def Let_def split: if_splits)
  then show ?thesis using ok False by (auto simp: wg_ok_def)
qed

lemma WaitGroup_Wait_ok:
  assumes ok: "wg_ok (wg, bl, sm)" and l: "length bl + 1 < 2 ^ 31" and g: "g \<notin> fst ` set bl"
    and w: "WaitGroup_Wait wg sm = (wg', sm', r)"
  shows "wg_ok (wg', (case r of None \<Rightarrow> bl | Some s \<Rightarrow> (g, s) # bl), sm')"
proof (cases "wg_counter wg = 0")
  case True
  then show ?thesis using w ok by (simp add: WaitGroup_Wait_def)
next
  case False
  note c = False
  show ?thesis
  proof (cases "wg_sema wg")
    case None
    then have z: "wg_waiters wg = 0" "sema_ok None 0 bl sm" using ok by (auto simp: wg_ok_def sema_ok_def)
    then have "at bl (length sm) = 0" by (force simp: at_def sema_ok_def filter_empty_conv)
    then show ?thesis using sema_ok_wait [OF sema_ok_alloc [OF z(2)] g] w c None z(1)
      by (auto simp: WaitGroup_Wait_def Let_def wg_ok_def is_int32_def)
  next
    case (Some s)
    then have z: "wg_waiters wg = int (at bl s)" "sema_ok (Some s) (at bl s) bl sm" using ok by (auto simp: wg_ok_def)
    then have "is_int32 (wg_waiters wg + 1)" using at_le [of bl s] l by (simp add: is_int32_def)
    then have "r = Some s" "sm' = sm" "wg' = wg\<lparr>wg_waiters := wg_waiters wg + 1\<rparr>"
      using w c Some by (auto simp: WaitGroup_Wait_def Let_def)
    then show ?thesis using sema_ok_wait [OF z(2) g] c Some z(1) by (simp add: wg_ok_def nat_add_distrib)
  qed
qed

lemma wg_exec_ok:
  assumes "wg_exec e (wg, bl, sm) = Some (wg', bl', sm')" "wg_ok (wg, bl, sm)" "length bl + 1 < 2 ^ 31"
  shows "wg_ok (wg', bl', sm') \<and> length bl' \<le> length bl + 1"
proof (cases e)
  case (Wg_wake g)
  with assms sema_ok_wake [of "wg_sema wg" "nat (wg_waiters wg)" bl sm g bl' sm']
  have w: "wg' = wg" "wake g bl sm = Some (bl', sm')" "sema_ok (wg_sema wg) (nat (wg_waiters wg)) bl' sm'" "length bl' \<le> length bl"
    by (auto simp: wg_ok_def split: bind_splits)
  have "wg_waiters wg = int (at bl' s)" if s: "wg_sema wg = Some s" for s
  proof -
    have ok: "sema_ok (Some s) (nat (wg_waiters wg)) bl sm" "wg_waiters wg = int (at bl s)" using assms(2) s by (auto simp: wg_ok_def)
    then have "sm ! s = 0" by (auto simp: sema_ok_def)
    moreover have "map_of bl g \<noteq> Some s" using w(2) sema_ok_no_wake [OF ok(1)] ok(2) by auto
    ultimately have "sm' ! s = 0" using w(2) by (auto simp: wake_def split: bind_splits) 
    then show ?thesis using w(3) s assms(2) by (auto simp: sema_ok_def wg_ok_def)
  qed
  then show ?thesis using w assms(2) by (auto simp: wg_ok_def)
next
  case (Wg_Wait g)
  obtain wg1 sm1 r where w: "WaitGroup_Wait wg sm = (wg1, sm1, r)" by (metis prod_cases3)
  with Wg_Wait assms(1) have "g \<notin> fst ` set bl" "wg' = wg1" "sm' = sm1" "bl' = (case r of None \<Rightarrow> bl | Some s \<Rightarrow> (g, s) # bl)"
    by (auto split: if_splits)
  then show ?thesis using WaitGroup_Wait_ok [OF assms(2,3) _ w] by (simp split: option.splits)
next
  case (Wg_Add d)
  then have "WaitGroup_Add d wg sm = Some (wg', sm')" "bl' = bl" using assms(1) by (auto split: bind_splits)
  then show ?thesis using WaitGroup_Add_ok [OF assms(2)] assms(3) by simp
next
  case Wg_Done
  then have "WaitGroup_Add (-1) wg sm = Some (wg', sm')" "bl' = bl" using assms(1) by (auto simp: WaitGroup_Done_def split: bind_splits)
  then show ?thesis using WaitGroup_Add_ok [OF assms(2)] assms(3) by simp
qed

lemma wg_run_ok:
  assumes "wg_run es (wg, bl, sm) = Some (wg', bl', sm')" "wg_ok (wg, bl, sm)" "length bl + length es < 2 ^ 31"
  shows "wg_ok (wg', bl', sm')"
  using assms
proof (induction es arbitrary: wg bl sm)
  case (Cons e es)
  then obtain wg1 bl1 sm1 where e: "wg_exec e (wg, bl, sm) = Some (wg1, bl1, sm1)" "wg_run es (wg1, bl1, sm1) = Some (wg', bl', sm')"
    by (auto split: bind_splits)
  with wg_exec_ok [OF e(1) Cons(3)] Cons(4) show ?case using Cons(1) [OF e(2)] by simp
qed simp


text \<open>The counter is never zero along an execution.\<close>

fun busy :: "wg_event list \<Rightarrow> WaitGroup \<times> waiting \<times> semas \<Rightarrow> bool" where
  "busy [] st = (wg_counter (fst st) \<noteq> 0)"
| "busy (e # es) st = (wg_counter (fst st) \<noteq> 0 \<and> (case wg_exec e st of None \<Rightarrow> True | Some st' \<Rightarrow> busy es st'))"

text \<open>A goroutine that waits at the semaphore in use stays there until the counter is zero.\<close>

lemma map_of_remove: "h \<noteq> g \<Longrightarrow> map_of (filter (\<lambda>(h', _). h' \<noteq> h) bl) g = map_of bl g"
  by (induction bl) auto

lemma wg_stays:
  assumes e: "wg_exec e (wg, bl, sm) = Some (wg', bl', sm')" and ok: "wg_ok (wg, bl, sm)"
    and c: "wg_counter wg' \<noteq> 0" and g: "wg_sema wg = Some s" "map_of bl g = Some s"
  shows "wg_sema wg' = Some s \<and> map_of bl' g = Some s"
proof (cases e)
  case (Wg_Add d)
  then show ?thesis using e c g by (auto simp: WaitGroup_Add_def Let_def split: if_splits bind_splits)
next
  case Wg_Done
  then show ?thesis using e c g by (auto simp: WaitGroup_Done_def WaitGroup_Add_def Let_def split: if_splits bind_splits)
next
  case (Wg_Wait h)
  then have "h \<noteq> g" using e map_of_SomeD [OF g(2)] by (force split: if_splits)
  then show ?thesis using Wg_Wait e g by (auto simp: WaitGroup_Wait_def Let_def split: if_splits)
next
  case (Wg_wake h)
  then have w: "wg' = wg" "wake h bl sm = Some (bl', sm')" using e by (auto split: bind_splits)
  have "wake g bl sm = None" using ok g by (intro sema_ok_no_wake [of s "nat (wg_waiters wg)"]) (auto simp: wg_ok_def)
  then have "h \<noteq> g" using w(2) by auto
  then show ?thesis using w g by (auto simp: wake_def map_of_remove split: bind_splits)
qed

lemma wg_run_stays:
  assumes "wg_run es (wg, bl, sm) = Some (wg', bl', sm')" "wg_ok (wg, bl, sm)" "length bl + length es < 2 ^ 31"
    "busy es (wg, bl, sm)" "wg_sema wg = Some s" "map_of bl g = Some s"
  shows "wg_sema wg' = Some s \<and> map_of bl' g = Some s \<and> wg_ok (wg', bl', sm')"
  using assms
proof (induction es arbitrary: wg bl sm)
  case (Cons e es)
  then obtain wg1 bl1 sm1 where e: "wg_exec e (wg, bl, sm) = Some (wg1, bl1, sm1)" "wg_run es (wg1, bl1, sm1) = Some (wg', bl', sm')"
    by (auto split: bind_splits)
  have b: "busy es (wg1, bl1, sm1)" using Cons(5) e(1) by simp
  then have "wg_counter wg1 \<noteq> 0" by (cases es) auto
  from wg_stays [OF e(1) Cons(3) this Cons(6,7)] wg_exec_ok [OF e(1) Cons(3)] Cons(4)
  show ?case using Cons(1) [OF e(2) _ _ b] by simp
qed simp

lemma wg_run_length:
  "wg_run es (wg, bl, sm) = Some (wg', bl', sm') \<Longrightarrow> length bl' \<le> length bl + length es"
proof (induction es arbitrary: wg bl sm)
  case (Cons e es)
  then obtain wg1 bl1 sm1 where e: "wg_exec e (wg, bl, sm) = Some (wg1, bl1, sm1)" "wg_run es (wg1, bl1, sm1) = Some (wg', bl', sm')"
    by (auto split: bind_splits)
  have "length bl1 \<le> length bl + 1" using e(1)
    by (cases e) (auto simp: wake_def intro: le_SucI split: bind_splits if_splits prod.splits option.splits)
  then show ?case using Cons(1) [OF e(2)] by simp
qed simp

lemma wg_ok_zero: "wg_ok (zero_WaitGroup, [], [])"
  by (simp add: wg_ok_def zero_WaitGroup_def sema_ok_def)

text \<open>C9: \<open>WaitGroup\<close> wakes exactly. In every execution of fewer than \<open>2 ^ 30\<close> steps of \<open>Add\<close>, \<open>Done\<close>, \<open>Wait\<close> and the
  wake-ups: when the counter is zero, every goroutine that is blocked in \<open>Wait\<close> can return. And a goroutine that
  blocks in \<open>Wait\<close> cannot return as long as the counter has not been zero since, whatever wake-ups are under way for
  goroutines that came before it, which is the race that the comment on the type describes.\<close>

theorem WaitGroup_wakes:
  assumes "wg_run es (zero_WaitGroup, [], []) = Some (wg, bl, sm)" "length es < 2 ^ 30" "length es' < 2 ^ 30"
  shows "(wg_counter wg = 0 \<and> g \<in> fst ` set bl \<longrightarrow> wake g bl sm \<noteq> None) \<and>
    (wg_exec (Wg_Wait g) (wg, bl, sm) = Some (wg1, bl1, sm1) \<and> g \<in> fst ` set bl1 \<and>
      wg_run es' (wg1, bl1, sm1) = Some (wg2, bl2, sm2) \<and> busy es' (wg1, bl1, sm1) \<longrightarrow>
      g \<in> fst ` set bl2 \<and> wake g bl2 sm2 = None)"
proof (intro conjI impI)
  have ok: "wg_ok (wg, bl, sm)" using wg_run_ok [OF assms(1) wg_ok_zero] assms(2) by simp
  show "wake g bl sm \<noteq> None" if "wg_counter wg = 0 \<and> g \<in> fst ` set bl"
  proof -
    have "sema_ok None (nat (wg_waiters wg)) bl sm" using ok that by (cases "wg_sema wg") (auto simp: wg_ok_def)
    then show ?thesis using sema_ok_all_wake that by blast
  qed
  assume a: "wg_exec (Wg_Wait g) (wg, bl, sm) = Some (wg1, bl1, sm1) \<and> g \<in> fst ` set bl1 \<and>
      wg_run es' (wg1, bl1, sm1) = Some (wg2, bl2, sm2) \<and> busy es' (wg1, bl1, sm1)"
  have l: "length bl \<le> length es" using wg_run_length [OF assms(1)] by simp
  have ok1: "wg_ok (wg1, bl1, sm1)" "length bl1 \<le> length bl + 1" using wg_exec_ok [OF conjunct1 [OF a] ok] l assms(2) by auto
  obtain s where "wg_sema wg1 = Some s" "map_of bl1 g = Some s" using a
    by (auto simp: WaitGroup_Wait_def Let_def split: if_splits option.splits)
  from wg_run_stays [OF _ ok1(1) _ _ this] a ok1(2) l assms(2,3)
  have st: "wg_sema wg2 = Some s" "map_of bl2 g = Some s" "wg_ok (wg2, bl2, sm2)" by auto
  show "g \<in> fst ` set bl2" using map_of_SomeD [OF st(2)] by force
  show "wake g bl2 sm2 = None" using st by (intro sema_ok_no_wake [of s "nat (wg_waiters wg2)"]) (auto simp: wg_ok_def)
qed

theorem WaitGroup_wakes_witness:
  "\<exists>wg bl sm. wg_run [Wg_Add 1, Wg_Wait 1, Wg_Done, Wg_Add 1] (zero_WaitGroup, [], []) = Some (wg, bl, sm) \<and>
     wake 1 bl sm \<noteq> None \<and>
     (\<exists>wg1 bl1 sm1. wg_exec (Wg_Wait 3) (wg, bl, sm) = Some (wg1, bl1, sm1) \<and> wake 3 bl1 sm1 = None)"
proof -
  let ?wg = "\<lparr>wg_counter = 1, wg_waiters = 0, wg_sema = None\<rparr>" and ?wg1 = "\<lparr>wg_counter = 1, wg_waiters = 1, wg_sema = Some 1\<rparr>"
  have r: "wg_run [Wg_Add 1, Wg_Wait 1, Wg_Done, Wg_Add 1] (zero_WaitGroup, [], []) = Some (?wg, [(1, 0)], [1])"
    "wg_exec (Wg_Wait 3) (?wg, [(1, 0)], [1]) = Some (?wg1, [(3, 1), (1, 0)], [1, 0])" "wake 1 [(1, 0)] [1] \<noteq> None"
    by (simp_all add: zero_WaitGroup_def WaitGroup_Add_def WaitGroup_Done_def WaitGroup_Wait_def is_int32_def Let_def
      Semrelease_def wake_def Semacquire_def numeral_3_eq_3 numeral_2_eq_2)
  from WaitGroup_wakes [OF r(1), of "[]" 3 ?wg1 "[(3, 1), (1, 0)]" "[1, 0]" ?wg1 "[(3, 1), (1, 0)]" "[1, 0]"] r(2)
  have "wake 3 [(3, 1), (1, 0)] [1, 0] = None" by simp
  with r show ?thesis by blast
qed


section \<open>Cond\<close>

text \<open>The locker \<open>L\<close> is the caller's: \<open>Wait\<close> unlocks it after its section and locks it again after the wake-up, which
  touches neither the counter nor the semaphores.\<close>

record Cond =
  c_waiters :: int
  c_sema :: "nat option"

definition NewCond :: Cond where
  "NewCond = \<lparr>c_waiters = 0, c_sema = None\<rparr>"

definition Cond_Wait :: "Cond \<Rightarrow> semas \<Rightarrow> Cond \<times> semas \<times> nat" where
  "Cond_Wait c sm = (let (c, sm, s) = (case c_sema c of
       None \<Rightarrow> (c\<lparr>c_sema := Some (length sm)\<rparr>, sm @ [0], length sm)
     | Some s \<Rightarrow> (c, sm, s)) in (c\<lparr>c_waiters := int32 (c_waiters c + 1)\<rparr>, sm, s))"

definition Cond_Signal :: "Cond \<Rightarrow> semas \<Rightarrow> (Cond \<times> semas) option" where
  "Cond_Signal c sm = (if c_waiters c > 0 then do {
       s \<leftarrow> c_sema c; Some (c\<lparr>c_waiters := c_waiters c - 1\<rparr>, sm[s := Semrelease (sm ! s)])
     } else Some (c, sm))"

definition Cond_Broadcast :: "Cond \<Rightarrow> semas \<Rightarrow> (Cond \<times> semas) option" where
  "Cond_Broadcast c sm = (if c_waiters c > 0 then do {
       s \<leftarrow> c_sema c; Some (\<lparr>c_waiters = 0, c_sema = None\<rparr>, Semrelease_loop (nat (c_waiters c)) s sm)
     } else Some (c, sm))"

datatype cond_event = C_Wait goroutine | C_Signal | C_Broadcast | C_wake goroutine

fun cond_exec :: "cond_event \<Rightarrow> Cond \<times> waiting \<times> semas \<Rightarrow> (Cond \<times> waiting \<times> semas) option" where
  "cond_exec (C_Wait g) (c, bl, sm) = (if g \<in> fst ` set bl then None
     else case Cond_Wait c sm of (c, sm, s) \<Rightarrow> Some (c, (g, s) # bl, sm))"
| "cond_exec C_Signal (c, bl, sm) = do { (c, sm) \<leftarrow> Cond_Signal c sm; Some (c, bl, sm) }"
| "cond_exec C_Broadcast (c, bl, sm) = do { (c, sm) \<leftarrow> Cond_Broadcast c sm; Some (c, bl, sm) }"
| "cond_exec (C_wake g) (c, bl, sm) = do { (bl, sm) \<leftarrow> wake g bl sm; Some (c, bl, sm) }"

fun cond_run :: "cond_event list \<Rightarrow> Cond \<times> waiting \<times> semas \<Rightarrow> (Cond \<times> waiting \<times> semas) option" where
  "cond_run [] s = Some s"
| "cond_run (e # es) s = do { s \<leftarrow> cond_exec e s; cond_run es s }"

definition cond_ok :: "Cond \<times> waiting \<times> semas \<Rightarrow> bool" where
  "cond_ok st = (case st of (c, bl, sm) \<Rightarrow> sema_ok (c_sema c) (nat (c_waiters c)) bl sm \<and> c_waiters c \<ge> 0)"

lemma cond_waiters:
  assumes "cond_ok (c, bl, sm)" "c_waiters c > 0"
  obtains s where "c_sema c = Some s" "sema_ok (Some s) (nat (c_waiters c)) bl sm" "c_waiters c \<le> int (length bl)"
proof (cases "c_sema c")
  case None
  then show ?thesis using assms by (auto simp: cond_ok_def sema_ok_def)
next
  case (Some s)
  then have ok: "sema_ok (Some s) (nat (c_waiters c)) bl sm" using assms by (simp add: cond_ok_def)
  then have "nat (c_waiters c) \<le> at bl s" by (auto simp: sema_ok_def)
  then show ?thesis using that Some ok at_le [of bl s] by simp
qed

lemma Cond_Wait_ok:
  assumes ok: "cond_ok (c, bl, sm)" and l: "length bl + 1 < 2 ^ 31" and g: "g \<notin> fst ` set bl"
    and w: "Cond_Wait c sm = (c', sm', s)"
  shows "cond_ok (c', (g, s) # bl, sm')"
proof -
  have "c_waiters c \<ge> 0" using ok by (simp add: cond_ok_def)
  moreover have "c_waiters c \<le> int (length bl)" using ok by (cases "c_waiters c > 0") (auto elim: cond_waiters)
  ultimately have i: "is_int32 (c_waiters c + 1)" "nat (c_waiters c + 1) = Suc (nat (c_waiters c))" using l by (auto simp: is_int32_def)
  show ?thesis
  proof (cases "c_sema c")
    case None
    then have z: "c_waiters c = 0" "sema_ok None 0 bl sm" using ok by (auto simp: cond_ok_def sema_ok_def)
    then show ?thesis using sema_ok_wait [OF sema_ok_alloc [OF z(2)] g] w None i by (auto simp: Cond_Wait_def cond_ok_def)
  next
    case (Some t)
    then have z: "sema_ok (Some t) (nat (c_waiters c)) bl sm" using ok by (auto simp: cond_ok_def)
    have "s = t" "sm' = sm" "c' = c\<lparr>c_waiters := c_waiters c + 1\<rparr>" using w Some i(1) by (auto simp: Cond_Wait_def)
    then show ?thesis using sema_ok_wait [OF z g] Some i \<open>c_waiters c \<ge> 0\<close> by (simp add: cond_ok_def)
  qed
qed

lemma Cond_Signal_ok:
  assumes ok: "cond_ok (c, bl, sm)" and l: "length bl < 2 ^ 31"
  shows "\<exists>c' sm'. Cond_Signal c sm = Some (c', sm') \<and> cond_ok (c', bl, sm') \<and> c_sema c' = c_sema c \<and> length sm' = length sm"
proof (cases "c_waiters c > 0")
  case True
  then obtain s where s: "c_sema c = Some s" "sema_ok (Some s) (nat (c_waiters c)) bl sm" using ok by (auto elim: cond_waiters)
  have "nat (c_waiters c) = nat (c_waiters c - 1) + 1" using True by simp
  with sema_ok_release [of s "nat (c_waiters c - 1)" 1 bl sm] s(2) l
  have "sema_ok (Some s) (nat (c_waiters c - 1)) bl (sm[s := Semrelease (sm ! s)])" by simp
  then show ?thesis using True s(1) by (simp add: Cond_Signal_def cond_ok_def)
next
  case False
  then show ?thesis using ok by (simp add: Cond_Signal_def)
qed

lemma Cond_Broadcast_ok:
  assumes ok: "cond_ok (c, bl, sm)" and l: "length bl < 2 ^ 31"
  shows "\<exists>c' sm'. Cond_Broadcast c sm = Some (c', sm') \<and> cond_ok (c', bl, sm') \<and> c_waiters c' = 0 \<and> length sm' = length sm"
proof (cases "c_waiters c > 0")
  case True
  then obtain s where s: "c_sema c = Some s" "sema_ok (Some s) (nat (c_waiters c)) bl sm" using ok by (auto elim: cond_waiters)
  then have "sema_ok None 0 bl (Semrelease_loop (nat (c_waiters c)) s sm)" using l by (intro sema_ok_forget [OF sema_ok_release]) simp_all
  then show ?thesis using True s(1) by (simp add: Cond_Broadcast_def cond_ok_def)
next
  case False
  then show ?thesis using ok by (simp add: Cond_Broadcast_def cond_ok_def)
qed


lemma cond_exec_ok:
  assumes e: "cond_exec e (c, bl, sm) = Some (c', bl', sm')" and ok: "cond_ok (c, bl, sm)" and l: "length bl + 1 < 2 ^ 31"
  shows "cond_ok (c', bl', sm') \<and> length bl' \<le> length bl + 1"
proof (cases e)
  case (C_Wait g)
  obtain c1 sm1 s where w: "Cond_Wait c sm = (c1, sm1, s)" by (metis prod_cases3)
  with C_Wait e have "g \<notin> fst ` set bl" "c' = c1" "sm' = sm1" "bl' = (g, s) # bl" by (auto split: if_splits)
  then show ?thesis using Cond_Wait_ok [OF ok l _ w] by simp
next
  case C_Signal
  then show ?thesis using e Cond_Signal_ok [OF ok] l by auto
next
  case C_Broadcast
  then show ?thesis using e Cond_Broadcast_ok [OF ok] l by auto
next
  case (C_wake g)
  then have "c' = c" "wake g bl sm = Some (bl', sm')" using e by (auto split: bind_splits)
  moreover have "length bl' \<le> length bl" using calculation by (auto simp: wake_def split: bind_splits)
  ultimately show ?thesis using ok sema_ok_wake by (auto simp: cond_ok_def)
qed

lemma cond_run_ok:
  assumes "cond_run es (c, bl, sm) = Some (c', bl', sm')" "cond_ok (c, bl, sm)" "length bl + length es < 2 ^ 31"
  shows "cond_ok (c', bl', sm') \<and> length bl' \<le> length bl + length es"
  using assms
proof (induction es arbitrary: c bl sm)
  case (Cons e es)
  then obtain c1 bl1 sm1 where e: "cond_exec e (c, bl, sm) = Some (c1, bl1, sm1)" "cond_run es (c1, bl1, sm1) = Some (c', bl', sm')"
    by (auto split: bind_splits)
  with cond_exec_ok [OF e(1) Cons(3)] Cons(4) show ?case using Cons(1) [OF e(2)] by simp
qed simp

text \<open>A goroutine that waits at a semaphore no longer in use can wake, and nobody else takes its place there.\<close>

lemma cond_stays:
  assumes e: "cond_exec e (c, bl, sm) = Some (c', bl', sm')" and ok: "cond_ok (c, bl, sm)" and l: "length bl + 1 < 2 ^ 31"
    and g: "map_of bl g = Some s" "c_sema c \<noteq> Some s" "e \<noteq> C_wake g"
  shows "map_of bl' g = Some s \<and> c_sema c' \<noteq> Some s"
proof (cases e)
  case (C_Wait h)
  have "s < length sm" using ok map_of_SomeD [OF g(1)] by (auto simp: cond_ok_def sema_ok_def)
  moreover have "h \<noteq> g" using C_Wait e map_of_SomeD [OF g(1)] by (force split: if_splits)
  ultimately show ?thesis using C_Wait e g(1,2) by (auto simp: Cond_Wait_def split: if_splits option.splits)
next
  case C_Signal
  then show ?thesis using e Cond_Signal_ok [OF ok] l g(1,2) by auto
next
  case C_Broadcast
  then show ?thesis using e g(1,2) by (auto simp: Cond_Broadcast_def split: if_splits bind_splits)
next
  case (C_wake h)
  then show ?thesis using e g by (auto simp: wake_def map_of_remove split: bind_splits)
qed

lemma cond_run_stays:
  assumes "cond_run es (c, bl, sm) = Some (c', bl', sm')" "cond_ok (c, bl, sm)" "length bl + length es < 2 ^ 31"
    "map_of bl g = Some s" "c_sema c \<noteq> Some s" "C_wake g \<notin> set es"
  shows "wake g bl' sm' \<noteq> None"
  using assms
proof (induction es arbitrary: c bl sm)
  case Nil
  then have "sm ! s = at bl s" "at bl s > 0" using at_pos map_of_SomeD [OF Nil(4)] by (auto simp: cond_ok_def sema_ok_def)
  then show ?case using Nil by (simp add: wake_def Semacquire_def)
next
  case (Cons e es)
  then obtain c1 bl1 sm1 where e: "cond_exec e (c, bl, sm) = Some (c1, bl1, sm1)" "cond_run es (c1, bl1, sm1) = Some (c', bl', sm')"
    by (auto split: bind_splits)
  have l: "length bl + 1 < 2 ^ 31" using Cons(4) by simp
  have "e \<noteq> C_wake g" using Cons(7) by auto
  from cond_stays [OF e(1) Cons(3) l Cons(5,6) this] cond_exec_ok [OF e(1) Cons(3) l] Cons(4,7)
  show ?case using Cons(1) [OF e(2)] by simp
qed


text \<open>C10: \<open>Cond\<close>. In every execution of fewer than \<open>2 ^ 30\<close> steps of \<open>Wait\<close>, \<open>Signal\<close>, \<open>Broadcast\<close> and the wake-ups:
  \<open>Signal\<close> and \<open>Broadcast\<close> do not panic. After a \<open>Broadcast\<close> that finds a goroutine which no \<open>Signal\<close> was for, every
  goroutine that was waiting can return from \<open>Wait\<close> and stays able to until it does, whatever happens in between: those
  which wait later do not take its wake-up. For \<open>Signal\<close> this fails: a goroutine that starts to wait after the \<open>Signal\<close>
  can take the wake-up, and the one that was waiting, the only one at the time, stays blocked. A \<open>Broadcast\<close> between the
  two does not help, since the counter of those that wait is zero already.\<close>

theorem Cond_wakes:
  assumes "cond_run es (NewCond, [], []) = Some (c, bl, sm)" "length es < 2 ^ 30" "length es' < 2 ^ 30"
  shows "cond_exec C_Signal (c, bl, sm) \<noteq> None \<and> cond_exec C_Broadcast (c, bl, sm) \<noteq> None \<and>
    (c_waiters c > 0 \<and> g \<in> fst ` set bl \<and> cond_run (C_Broadcast # es') (c, bl, sm) = Some (c2, bl2, sm2) \<and> C_wake g \<notin> set es' \<longrightarrow>
      wake g bl2 sm2 \<noteq> None) \<and>
    (\<exists>c3 sm3. cond_run (C_Wait 1 # C_Signal # (if b then [C_Broadcast] else []) @ [C_Wait 2, C_wake 2]) (NewCond, [], []) = Some (c3, [(1, 0)], sm3) \<and>
      wake 1 [(1, 0)] sm3 = None)"
proof (intro conjI impI)
  have "cond_ok (NewCond, [], [])" by (simp add: cond_ok_def NewCond_def sema_ok_def)
  then have ok: "cond_ok (c, bl, sm)" "length bl \<le> length es" using cond_run_ok [OF assms(1)] assms(2) by simp_all
  then have l: "length bl < 2 ^ 31" using assms(2) by simp
  show "cond_exec C_Signal (c, bl, sm) \<noteq> None" "cond_exec C_Broadcast (c, bl, sm) \<noteq> None"
    using Cond_Signal_ok [OF ok(1) l] Cond_Broadcast_ok [OF ok(1) l] by auto
  assume a: "c_waiters c > 0 \<and> g \<in> fst ` set bl \<and> cond_run (C_Broadcast # es') (c, bl, sm) = Some (c2, bl2, sm2) \<and> C_wake g \<notin> set es'"
  obtain c1 sm1 where b: "Cond_Broadcast c sm = Some (c1, sm1)" "cond_ok (c1, bl, sm1)" using Cond_Broadcast_ok [OF ok(1) l] by blast
  moreover have "c_sema c1 = None" using b(1) a by (auto simp: Cond_Broadcast_def split: bind_splits)
  moreover obtain s where s: "map_of bl g = Some s" using a by (metis map_of_eq_None_iff not_None_eq)
  ultimately show "wake g bl2 sm2 \<noteq> None"
    using cond_run_stays [of es' c1 bl sm1 c2 bl2 sm2 g s] a ok(2) assms(2,3) by simp
next
  show "\<exists>c3 sm3. cond_run (C_Wait 1 # C_Signal # (if b then [C_Broadcast] else []) @ [C_Wait 2, C_wake 2]) (NewCond, [], []) = Some (c3, [(1, 0)], sm3) \<and>
      wake 1 [(1, 0)] sm3 = None"
    by (cases b) (simp_all add: NewCond_def Cond_Wait_def Cond_Signal_def Cond_Broadcast_def Semrelease_def wake_def Semacquire_def is_int32_def)
qed

theorem Cond_wakes_witness:
  "\<exists>c bl sm c2 bl2 sm2. cond_run [C_Wait 1, C_Wait 2] (NewCond, [], []) = Some (c, bl, sm) \<and>
     cond_run [C_Broadcast, C_Wait 3, C_wake 2] (c, bl, sm) = Some (c2, bl2, sm2) \<and> wake 1 bl2 sm2 \<noteq> None"
proof -
  let ?c = "\<lparr>c_waiters = 2, c_sema = Some 0\<rparr>" and ?c2 = "\<lparr>c_waiters = 1, c_sema = Some 1\<rparr>"
  have "Semrelease_loop (Suc (Suc 0)) 0 [0] = [2]" by (simp add: Semrelease_def)
  then have loop: "Semrelease_loop 2 0 [0] = [2]" by (simp only: numeral_2_eq_2)
  have r: "cond_run [C_Wait 1, C_Wait 2] (NewCond, [], []) = Some (?c, [(2, 0), (1, 0)], [0])"
    "cond_run [C_Broadcast, C_Wait 3, C_wake 2] (?c, [(2, 0), (1, 0)], [0]) = Some (?c2, [(3, 1), (1, 0)], [1, 0])"
    by (simp_all add: NewCond_def Cond_Wait_def Cond_Broadcast_def Semrelease_def wake_def Semacquire_def is_int32_def loop)
  from Cond_wakes [OF r(1), of "[C_Wait 3, C_wake 2]" 1 ?c2 "[(3, 1), (1, 0)]" "[1, 0]"] r(2)
  have "wake 1 [(3, 1), (1, 0)] [1, 0] \<noteq> None" by simp
  with r show ?thesis by blast
qed

section \<open>Once\<close>

text \<open>\<open>Do\<close> under its mutex: the flag is set before the call, and the result of \<open>f\<close> is \<open>None\<close> when it panics.\<close>

definition once_Do :: "('a \<Rightarrow> 'a option) \<Rightarrow> bool \<times> 'a \<Rightarrow> bool \<times> 'a option" where
  "once_Do f st = (case st of (done, x) \<Rightarrow> if \<not> done then (True, f x) else (done, Some x))"

fun once_Dos :: "('a \<Rightarrow> 'a option) list \<Rightarrow> bool \<times> 'a \<Rightarrow> bool \<times> 'a" where
  "once_Dos [] st = st"
| "once_Dos (f # fs) st = (case once_Do f st of (d, Some x) \<Rightarrow> once_Dos fs (d, x) | (d, None) \<Rightarrow> once_Dos fs (d, snd st))"

lemma once_Dos_done: "once_Dos fs (True, x) = (True, x)"
  by (induction fs) (simp_all add: once_Do_def)

lemma once_first_only:
  "once_Dos (f # fs) (False, x) = (True, case f x of Some y \<Rightarrow> y | None \<Rightarrow> x)"
  by (simp add: once_Do_def once_Dos_done split: option.splits)

end
