(* ===== verification/Spec2Isabelle.thy ===== *)
theory Spec2Isabelle
  imports Go_Prelude Go_Sort Go_Heap Time_Sleep Time_Calendar UTF8_String Strings Bytes Go_IO Bytes_Buffer Strconv_Quote
    Bufio_Reader Bufio_Writer Sync Sync_RWMutex Sync_Wait
begin

text \<open>
  The Go libraries of the ucore port.

  The repository ports Go to the teaching kernel ucore on 386, where \<open>int\<close> has 32 bits. The port replaces parts of the
  run-time, of \<open>syscall\<close> and of \<open>os\<close> (under \<open>src/patch\<close>) and builds a list of packages of the Go tree
  (\<open>src/src/go/src/pkg\<close>) on top of them. This development models the packages of that list that compute: their functions
  are translated one by one, with the source's names, and the theorems say what a client may rely on.

  \<^bold>\<open>Conventions.\<close> A byte is an 8-bit word, and a string or a byte slice a list of bytes. A struct is a record, a
  method a function from the record to the updated one. A run-time panic is \<^term>\<open>None\<close>; errors that the code returns are
  values of \<open>os_Error\<close> and its like. Integers are HOL integers or naturals, wrapped by \<open>int32\<close> and \<open>int64\<close> where an operation can
  overflow, or machine words where the code works on unsigned ones. An interface type is a record of operations or a function that the
  definitions take as an argument (a \<open>Read\<close> gets the slice and returns the count, the error and the slice afterwards, of which the bytes behind the
  count may have been used as scratch space, or panics); its contract is a locale, in which the lemmas of the client are proved once, interpreted on the
  implementations of the same tree.

  \<^bold>\<open>Theories and sources\<close> (paths under \<open>src/src/go/src/pkg\<close>).
  \<^item> \<open>Go_Prelude\<close>: slices, indexing, \<open>make\<close> (which panics on a size below 0 or one whose bytes exceed the address
    space), \<open>copy\<close> and wrap-around of the language; shared lemmas on lists, options and words.
  \<^item> \<open>Go_Sort\<close>: \<open>sort/sort.go\<close>, \<open>sort/search.go\<close>. Locale \<open>sort_interface\<close>, interpreted on the three array types. \<open>Sort\<close>, with
    its choice of the pivot and the switch to insertion sort, returns a sorted permutation and never indexes out of range; \<open>Search\<close>
    finds the first index.
  \<^item> \<open>Go_Heap\<close>: \<open>container/heap/heap.go\<close>. Locale \<open>heap_interface\<close> extends \<open>sort_interface\<close>; \<open>Init\<close>, \<open>Push\<close>, \<open>Pop\<close> and
    \<open>Remove\<close> keep the heap and refine a priority queue of multisets, up to \<open>2 ^ 30\<close> elements: from there on the child index of
    \<open>down\<close> wraps around.
  \<^item> \<open>Time_Sleep\<close>: \<open>time/sleep.go\<close>. The timers live in a store because the heap writes their index through pointers. \<open>timerHeap\<close>
    interprets \<open>heap_interface\<close>. \<open>sys_step\<close> interleaves \<open>after\<close>, \<open>Stop\<close> and the wake-ups of the sleepers, each of them atomic
    under \<open>timerMutex\<close>; invariants over the reachable states show that no wake-up is lost, that a timer fires at most once and not
    too early, and that a stopped timer never fires.
  \<^item> \<open>Time_Calendar\<close>: \<open>time/time.go\<close>. \<open>SecondsToUTC\<close> follows the Gregorian calendar on every \<open>int64\<close>, and \<open>Seconds\<close> is its inverse,
    with the 64-bit wrap-around of the intermediate values. The lookup of the zone is an argument.
  \<^item> \<open>UTF8\<close>, \<open>UTF8_String\<close>: \<open>utf8/utf8.go\<close>, \<open>utf8/string.go\<close> and the decoder of the range clause, \<open>runtime/rune.c\<close>. The codec round
    trips, decoding backward agrees with decoding forward, and the indexable string refines a list of runes.
  \<^item> \<open>Unicode\<close>: \<open>unicode/letter.go\<close>, \<open>unicode/digit.go\<close> with the tables they use. Fast paths and binary search decide membership.
  \<^item> \<open>Strings\<close>: \<open>strings/strings.go\<close>, \<open>strings/reader.go\<close>. Splitting, joining, replacing, trimming, fields and mapping, each
    against a specification on lists of bytes or of runes, with the sizes for which \<open>make\<close> panics.
  \<^item> \<open>Bytes\<close>: \<open>bytes/bytes.go\<close>, function by function equal to \<open>Strings\<close> where the two packages agree, with the cases where not.
  \<^item> \<open>Go_IO\<close>: \<open>io/io.go\<close>. Locales \<open>reader\<close>, \<open>live_reader\<close> and \<open>writer\<close> are the contracts of \<open>io.Reader\<close> and \<open>io.Writer\<close>;
    over a \<open>live_reader\<close> \<open>ReadFull\<close> returns with the bytes there are. \<open>Copy\<close> and \<open>Copyn\<close>, with an optional \<open>ReadFrom\<close> and \<open>WriteTo\<close> as
    arguments, and \<open>SectionReader\<close> are modelled without such a theorem.
  \<^item> \<open>Bytes_Buffer\<close>: \<open>bytes/buffer.go\<close>, with length and capacity of the slice. It refines a queue of bytes and interprets
    \<open>live_reader\<close> and \<open>writer\<close>.
  \<^item> \<open>Strconv\<close>, \<open>Strconv_Quote\<close>: \<open>strconv/itoa.go\<close>, \<open>atoi.go\<close>, \<open>atob.go\<close>, \<open>quote.go\<close>. Round trips of numbers and of quoting,
    saturation, every error of \<open>Btoui64\<close>, and the malformed escapes that \<open>Unquote\<close> refuses and those it lets through.
  \<^item> \<open>Bufio_Reader\<close>, \<open>Bufio_Writer\<close>: \<open>bufio/bufio.go\<close>. Over anything that keeps the contract of a reader or a writer a buffered
    one keeps it again, so that the locales are also interpreted on \<open>bufio\<close> over \<open>strings.Reader\<close> and \<open>bytes.Buffer\<close>.
  \<^item> \<open>Sync\<close>, \<open>Sync_RWMutex\<close>, \<open>Sync_Wait\<close>: \<open>sync/mutex.go\<close>, \<open>rwmutex.go\<close>, \<open>waitgroup.go\<close>, \<open>cond.go\<close>, \<open>once.go\<close>. The goroutines
    are a multiset of program points and each atomic operation is a step; mutual exclusion, absence of panics and progress hold in
    every reachable state. The methods of \<open>WaitGroup\<close> and \<open>Cond\<close> work under their mutex and are one step up to where they block.

  \<^bold>\<open>Loops and bounds.\<close> There is no fuel. A loop that ends is a \<open>fun\<close> or a \<open>function\<close> with its measure. A loop over a reader or
  a writer, or one whose end depends on an invariant, is a \<open>partial_function\<close>, where not returning is \<^term>\<open>None\<close>, as a
  panic is, and the theorems say that the result is a \<^term>\<open>Some\<close>. \<open>Sort\<close> and the sifting loops of the heap end
  because of the bounds on the indices. The bounds in the statements are those of the machine: at most \<open>2 ^ 30\<close> elements
  of a heap, whose child indices are then \<open>int\<close>s; at most \<open>2 ^ 28\<close> timers in the queue, since more do not fit in memory; slices that \<open>make\<close> can
  allocate; fewer than \<open>2 ^ 31\<close> goroutines at a
  mutex, whose counter is an \<open>int32\<close>; sizes of a \<open>bytes.Buffer\<close> whose doubling stays below \<open>2 ^ 31\<close>; slices handed to a writer
  shorter than \<open>2 ^ 31\<close>; years within \<open>10 ^ 11\<close>, so that the seconds fit \<open>int64\<close>.

  \<^bold>\<open>Not modelled.\<close>
  \<^item> The kernel, the scheduler, channels and memory management: C and assembly. Semaphores and the clock enter with their documented
    behaviour.
  \<^item> \<open>syscall\<close> and \<open>os\<close> on ucore (\<open>src/patch\<close>): wrappers of system calls, whose effects are those of the kernel.
  \<^item> Floating point (\<open>math\<close>, \<open>strconv/atof.go\<close>, \<open>ftoa.go\<close>, \<open>decimal.go\<close>); only the order of \<open>float64\<close> values is modelled, for \<open>sort\<close>.
  \<^item> \<open>fmt\<close>, \<open>reflect\<close>, \<open>flag\<close> and \<open>template\<close>, which inspect values through run-time type information.
  \<^item> The categories and scripts of \<open>unicode/tables.go\<close> that no function of \<open>letter.go\<close> or \<open>digit.go\<close> uses: data.
  \<^item> \<open>path/filepath\<close>, \<open>io/ioutil\<close>, the tickers, layouts and zone files of \<open>time\<close>, \<open>container/ring\<close>, \<open>container/vector\<close>, \<open>rand\<close>: they
    work on the file system, on channels, on cyclic pointers or on interface values, or are judged statistically. The pure functions among them
    (\<open>Clean\<close>, \<open>Match\<close>, the layouts) have no model yet.
  \<^item> The packages that the build for ucore leaves out, the tool chain and the commands.
\<close>

end
